(* ===== verification/Prelude.thy ===== *)
theory Prelude
  imports Main "HOL-Library.Word" "HOL-Library.List_Lexorder" "HOL-Library.Char_ord"
    "HOL-Library.Product_Lexorder"
begin

text \<open>
  What every component shares: the machine types, the error values of
  \<^verbatim>\<open>grmpl-core/src/error.rs\<close> with the result type built on them, the
  state-and-error type in which operations that write to a store are written, and the
  generic lemmas on lists that the component proofs reuse.
\<close>

section \<open>Machine types\<close>

type_synonym u8 = "8 word"
type_synonym u32 = "32 word"
type_synonym u64 = "64 word"

text \<open>An \<open>i64\<close> is the same 64 bits read in two's complement (\<^const>\<open>sint\<close>).\<close>

type_synonym i64 = "64 word"

type_synonym bytes = "u8 list"

section \<open>Errors and results\<close>

text \<open>
  The variants of \<^verbatim>\<open>grmpl_core::Error\<close>. A message keeps the fixed text of the
  source's format string; the numbers and names the source splices in are left out, since
  no operation reads a message back.
\<close>

datatype error =
    EStore string
  | EAuthority string
  | ESchema string
  | EPreconditionFailed
  | EQuery string
  | EBehavior string
  | ECodec string

text \<open>
  How a computation of the source can fail to return a value: an \<open>Err\<close>, a panic
  (a slice index out of range, an \<open>expect\<close> on \<open>None\<close>), or, in the model alone, a
  loop that has used up the rounds it was given. A theorem that a loop returns is stated
  as such, with the number of rounds that is enough.
\<close>

datatype failure = Err error | Panic | OutOfFuel

type_synonym 'a result = "failure + 'a"

fun rbind :: "'a result \<Rightarrow> ('a \<Rightarrow> 'b result) \<Rightarrow> 'b result" where
  "rbind (Inl e) f = Inl e"
| "rbind (Inr x) f = f x"

fun rmapM :: "('a \<Rightarrow> 'b result) \<Rightarrow> 'a list \<Rightarrow> 'b list result" where
  "rmapM f [] = Inr []"
| "rmapM f (x # xs) = rbind (f x) (\<lambda>y. rbind (rmapM f xs) (\<lambda>ys. Inr (y # ys)))"

text \<open>Slice indexing \<open>xs[i]\<close>: a panic when \<open>i\<close> is out of range.\<close>

definition index :: "'a list \<Rightarrow> nat \<Rightarrow> 'a result" where
  "index xs i = (if i < length xs then Inr (xs ! i) else Inl Panic)"

text \<open>\<open>slice.get(i)\<close>.\<close>

definition get :: "'a list \<Rightarrow> nat \<Rightarrow> 'a option" where
  "get xs i = (if i < length xs then Some (xs ! i) else None)"

named_theorems result_simps \<open>simplification of binds and mapped results\<close>

lemma rbind_Inr_iff [result_simps]: "rbind m f = Inr y \<longleftrightarrow> (\<exists>x. m = Inr x \<and> f x = Inr y)"
  by (cases m) auto

lemma rbind_cong [fundef_cong]:
  "m = m' \<Longrightarrow> (\<And>x. m' = Inr x \<Longrightarrow> f x = g x) \<Longrightarrow> rbind m f = rbind m' g"
  by (cases m') auto

lemma rbind_assoc: "rbind (rbind m f) g = rbind m (\<lambda>x. rbind (f x) g)"
  by (cases m) auto

lemma rmapM_cong [fundef_cong]:
  "xs = ys \<Longrightarrow> (\<And>x. x \<in> set ys \<Longrightarrow> f x = g x) \<Longrightarrow> rmapM f xs = rmapM g ys"
  by (induction ys arbitrary: xs) auto

lemma rmapM_Inr_length: "rmapM f xs = Inr ys \<Longrightarrow> length ys = length xs"
  by (induction xs arbitrary: ys) (auto simp: result_simps)

lemma rmapM_Inr_iff: "(\<exists>ys. rmapM f xs = Inr ys) \<longleftrightarrow> (\<forall>x\<in>set xs. \<exists>y. f x = Inr y)"
  by (induction xs) (auto simp: result_simps)

lemma rmapM_Inr_iff_all: "rmapM f xs = Inr ys \<longleftrightarrow> list_all2 (\<lambda>x y. f x = Inr y) xs ys"
  by (induction xs arbitrary: ys) (auto simp: result_simps list_all2_Cons1)

lemma rmapM_total: "(\<And>x. x \<in> set xs \<Longrightarrow> f x = Inr (g x)) \<Longrightarrow> rmapM f xs = Inr (map g xs)"
  by (induction xs) auto

lemma rmapM_total_eq [simp]: "rmapM (\<lambda>x. Inr (g x)) xs = Inr (map g xs)"
  by (induction xs) auto

lemma index_Inr_iff [result_simps]: "index xs i = Inr x \<longleftrightarrow> i < length xs \<and> x = xs ! i"
  by (auto simp: index_def)

lemma get_Some_iff: "get xs i = Some x \<longleftrightarrow> i < length xs \<and> x = xs ! i"
  by (auto simp: get_def)

lemma get_None_iff: "get xs i = None \<longleftrightarrow> length xs \<le> i"
  by (auto simp: get_def)

section \<open>Operations with a state\<close>

text \<open>
  An operation on a store behind a shared reference: it returns a result and the state
  left behind. The state is returned on failure too, since what an operation committed
  before it failed stays committed.
\<close>

type_synonym ('s, 'a) op = "'s \<Rightarrow> 'a result \<times> 's"

definition obind :: "('s, 'a) op \<Rightarrow> ('a \<Rightarrow> ('s, 'b) op) \<Rightarrow> ('s, 'b) op" where
  "obind m f = (\<lambda>s. case m s of (Inl e, s') \<Rightarrow> (Inl e, s') | (Inr x, s') \<Rightarrow> f x s')"

definition oret :: "'a \<Rightarrow> ('s, 'a) op" where
  "oret x = (\<lambda>s. (Inr x, s))"

definition ofail :: "failure \<Rightarrow> ('s, 'a) op" where
  "ofail e = (\<lambda>s. (Inl e, s))"

text \<open>A read of the state: it can fail and does not change it.\<close>

definition oread :: "('s \<Rightarrow> 'a result) \<Rightarrow> ('s, 'a) op" where
  "oread f = (\<lambda>s. (f s, s))"

lemma obind_apply:
  "obind m f s = (case m s of (Inl e, s') \<Rightarrow> (Inl e, s') | (Inr x, s') \<Rightarrow> f x s')"
  by (simp add: obind_def)

lemma oret_apply [simp]: "oret x s = (Inr x, s)"
  by (simp add: oret_def)

lemma ofail_apply [simp]: "ofail e s = (Inl e, s)"
  by (simp add: ofail_def)

lemma oread_apply [simp]: "oread f s = (f s, s)"
  by (simp add: oread_def)

lemma obind_Inr_iff:
  "obind m f s = (Inr y, s') \<longleftrightarrow> (\<exists>x t. m s = (Inr x, t) \<and> f x t = (Inr y, s'))"
  by (auto simp: obind_apply split: prod.splits sum.splits)

lemma obind_oread_Inr: "r s = Inr x \<Longrightarrow> obind (oread r) f s = f x s"
  by (simp add: obind_apply)

lemma obind_oread_Inl: "r s = Inl e \<Longrightarrow> obind (oread r) f s = (Inl e, s)"
  by (simp add: obind_apply)

lemma obind_step: "m s = (Inr x, t) \<Longrightarrow> obind m f s = f x t"
  by (simp add: obind_apply)

section \<open>Sums over lists\<close>

text \<open>
  The weight a list of signed pairs gives a key: the sum of the signs that stand beside
  it. Every consolidation in the source computes this.
\<close>

definition wsum :: "('k \<times> int) list \<Rightarrow> 'k \<Rightarrow> int" where
  "wsum ps k = (\<Sum>(j, d)\<leftarrow>ps. if j = k then d else 0)"

lemma wsum_Nil [simp]: "wsum [] k = 0"
  by (simp add: wsum_def)

lemma wsum_Cons [simp]: "wsum ((j, d) # ps) k = (if j = k then d else 0) + wsum ps k"
  by (simp add: wsum_def)

lemma wsum_append [simp]: "wsum (ps @ qs) k = wsum ps k + wsum qs k"
  by (simp add: wsum_def)

lemma wsum_notin: "k \<notin> fst ` set ps \<Longrightarrow> wsum ps k = 0"
  by (induction ps) (auto)

lemma wsum_distinct:
  "distinct (map fst ps) \<Longrightarrow> (k, d) \<in> set ps \<Longrightarrow> wsum ps k = d"
  by (induction ps) (force intro: wsum_notin)+

lemma wsum_filter:
  "wsum (filter (\<lambda>(j, d). P j) ps) k = (if P k then wsum ps k else 0)"
  by (induction ps) auto

text \<open>A weighted sum of a function over the rows of a list.\<close>

definition lsum :: "('k \<times> int) list \<Rightarrow> ('k \<Rightarrow> int) \<Rightarrow> int" where
  "lsum ps f = (\<Sum>(j, d)\<leftarrow>ps. d * f j)"

lemma lsum_Nil [simp]: "lsum [] f = 0"
  by (simp add: lsum_def)

lemma lsum_Cons [simp]: "lsum ((j, d) # ps) f = d * f j + lsum ps f"
  by (simp add: lsum_def)

lemma lsum_append [simp]: "lsum (ps @ qs) f = lsum ps f + lsum qs f"
  by (simp add: lsum_def)

lemma lsum_add: "lsum ps (\<lambda>k. f k + g k) = lsum ps f + lsum ps g"
  by (induction ps) (auto simp: algebra_simps)

lemma lsum_diff: "lsum ps (\<lambda>k. f k - g k) = lsum ps f - lsum ps g"
  by (induction ps) (auto simp: algebra_simps)

lemma lsum_cong: "(\<And>k. k \<in> fst ` set ps \<Longrightarrow> f k = g k) \<Longrightarrow> lsum ps f = lsum ps g"
  by (induction ps) (auto)

text \<open>
  A weighted sum depends on the weights alone, not on how the list spreads them: it is
  the sum over any finite set that holds the keys.
\<close>

lemma lsum_eq_sum:
  assumes "finite S" and "fst ` set ps \<subseteq> S"
  shows "lsum ps f = (\<Sum>k\<in>S. wsum ps k * f k)"
  using assms(2)
proof (induction ps)
  case Nil
  then show ?case by simp
next
  case (Cons p ps)
  obtain j d where p: "p = (j, d)" by (cases p)
  have j: "j \<in> S" using Cons.prems by (simp add: p)
  have "(\<Sum>k\<in>S. wsum (p # ps) k * f k)
      = (\<Sum>k\<in>S. (if k = j then d * f j else 0) + wsum ps k * f k)"
    by (rule sum.cong) (auto simp: p algebra_simps)
  also have "\<dots> = d * f j + (\<Sum>k\<in>S. wsum ps k * f k)"
    using assms(1) j by (simp add: sum.distrib)
  finally show ?case using Cons by (simp add: p)
qed

lemma lsum_linear:
  assumes "\<And>k. wsum ds k = wsum as k - wsum bs k"
  shows "lsum ds f = lsum as f - lsum bs f"
proof -
  let ?S = "fst ` set ds \<union> fst ` set as \<union> fst ` set bs"
  have S: "finite ?S" by simp
  have "lsum ds f = (\<Sum>k\<in>?S. wsum ds k * f k)" by (rule lsum_eq_sum [OF S]) auto
  also have "\<dots> = (\<Sum>k\<in>?S. wsum as k * f k) - (\<Sum>k\<in>?S. wsum bs k * f k)"
    by (simp add: assms sum_subtractf left_diff_distrib)
  also have "(\<Sum>k\<in>?S. wsum as k * f k) = lsum as f" by (rule lsum_eq_sum [OF S, symmetric]) auto
  also have "(\<Sum>k\<in>?S. wsum bs k * f k) = lsum bs f" by (rule lsum_eq_sum [OF S, symmetric]) auto
  finally show ?thesis .
qed

lemma lsum_wsum_cong:
  assumes "\<And>k. wsum as k = wsum bs k"
  shows "lsum as f = lsum bs f"
  using lsum_linear [of "[]" as bs f] assms by simp

lemma wsum_map:
  "wsum (map (\<lambda>(j, d). (f j, d)) ps) k = lsum ps (\<lambda>j. if f j = k then 1 else 0)"
  by (induction ps) auto

lemma lsum_indicator: "lsum ps (\<lambda>j. if j = k then 1 else 0) = wsum ps k"
  by (induction ps) auto

end
