(* ===== verification/Values.thy ===== *)
theory Values
  imports Prelude
begin

text \<open>
  The data model of \<^verbatim>\<open>grmpl-core\<close>: values, tuples, relation and domain ids
  (\<^verbatim>\<open>value.rs\<close>), facts (\<^verbatim>\<open>fact.rs\<close>), times and signed updates
  (\<^verbatim>\<open>time.rs\<close>). The order on values is the one the source derives, and is shown
  to be total, which is what every ordered structure above relies on.
\<close>

section \<open>Finite floats\<close>

text \<open>
  A \<open>FiniteF64\<close> is its IEEE-754 bits. \<open>f64::from_bits\<close> and \<open>to_bits\<close> are the
  identity on bits, so an \<open>f64\<close> is a 64-bit word here; it is finite when its exponent
  field is not all ones, and equal to zero when everything but its sign is zero.
\<close>

unbundle bit_operations_syntax

definition f64_is_finite :: "u64 \<Rightarrow> bool" where
  "f64_is_finite b \<longleftrightarrow> b AND 0x7FF0000000000000 \<noteq> 0x7FF0000000000000"

definition f64_is_zero :: "u64 \<Rightarrow> bool" where
  "f64_is_zero b \<longleftrightarrow> b AND 0x7FFFFFFFFFFFFFFF = 0"

definition finite_new :: "u64 \<Rightarrow> u64 option" where
  "finite_new v =
     (if \<not> f64_is_finite v then None
      else let canonical = (if f64_is_zero v then 0 else v) in Some canonical)"

definition finite_from_bits :: "u64 \<Rightarrow> u64 option" where
  "finite_from_bits bits = finite_new bits"

text \<open>
  \<open>f64::total_cmp\<close>: the bits read as an \<open>i64\<close>, with all but the sign bit flipped
  when the sign is set, compared as signed integers.
\<close>

definition total_key :: "u64 \<Rightarrow> i64" where
  "total_key b = b XOR (drop_bit 1 (signed_drop_bit 63 b))"

section \<open>Values\<close>

text \<open>
  Text is its UTF-8 bytes, one \<^typ>\<open>char\<close> a byte, as \<open>str\<close> compares and encodes
  it; bytes and code are byte strings.
\<close>

datatype val =
    VEnt u64
  | VInt i64
  | VFloat u64
  | VText string
  | VBool bool
  | VTuple "val list"
  | VBytes bytes
  | VCode bytes

type_synonym tuple = "val list"
type_synonym rel_id = u32
type_synonym domain_id = u64
type_synonym entity = u64

definition value_float :: "u64 \<Rightarrow> val option" where
  "value_float v = map_option VFloat (finite_new v)"

subsection \<open>The derived order\<close>

text \<open>
  \<open>#[derive(Ord)]\<close> compares the variants in declaration order, then the payloads;
  slices compare lexicographically. \<open>FiniteF64\<close> compares by \<open>total_cmp\<close>.
\<close>

fun rank :: "val \<Rightarrow> nat" where
  "rank (VEnt _) = 0"
| "rank (VInt _) = 1"
| "rank (VFloat _) = 2"
| "rank (VText _) = 3"
| "rank (VBool _) = 4"
| "rank (VTuple _) = 5"
| "rank (VBytes _) = 6"
| "rank (VCode _) = 7"

fun value_less :: "val \<Rightarrow> val \<Rightarrow> bool"
  and values_less :: "val list \<Rightarrow> val list \<Rightarrow> bool" where
  "value_less (VEnt a) (VEnt b) = (a < b)"
| "value_less (VInt a) (VInt b) = (sint a < sint b)"
| "value_less (VFloat a) (VFloat b) = (sint (total_key a) < sint (total_key b))"
| "value_less (VText a) (VText b) = (a < b)"
| "value_less (VBool a) (VBool b) = (\<not> a \<and> b)"
| "value_less (VTuple a) (VTuple b) = values_less a b"
| "value_less (VBytes a) (VBytes b) = (a < b)"
| "value_less (VCode a) (VCode b) = (a < b)"
| "value_less a b = (rank a < rank b)"
| "values_less [] [] = False"
| "values_less [] (b # bs) = True"
| "values_less (a # as) [] = False"
| "values_less (a # as) (b # bs) = (value_less a b \<or> a = b \<and> values_less as bs)"


lemma value_less_rank:
  "rank a \<noteq> rank b \<Longrightarrow> value_less a b \<longleftrightarrow> rank a < rank b"
  by (cases a; cases b) simp_all

lemma value_less_imp_rank: "value_less a b \<Longrightarrow> rank a \<le> rank b"
  using value_less_rank [of a b] by (cases "rank a = rank b") auto

text \<open>Values of one variant, written out: what the case analyses below split on.\<close>

lemma bit_total_key:
  "bit (total_key b) i \<longleftrightarrow> (if i < 63 then bit b i \<noteq> bit b 63 else bit b i)"
  by (auto simp: total_key_def bit_simps dest: bit_imp_le_length)

lemma total_key_inj: "total_key a = total_key b \<longleftrightarrow> a = b"
proof
  assume eq: "total_key a = total_key b"
  have top: "bit a 63 = bit b 63"
    using bit_total_key [of a 63] bit_total_key [of b 63] eq by simp
  have "bit a i = bit b i" for i
    using bit_total_key [of a i] bit_total_key [of b i] eq top by (auto split: if_splits)
  then show "a = b" by (rule bit_eqI)
qed simp



text \<open>A value of a known rank has that rank's variant.\<close>

lemma rank_eq_simps:
  "rank b = 0 \<longleftrightarrow> (\<exists>x. b = VEnt x)"
  "rank b = Suc 0 \<longleftrightarrow> (\<exists>x. b = VInt x)"
  "rank b = 2 \<longleftrightarrow> (\<exists>x. b = VFloat x)"
  "rank b = 3 \<longleftrightarrow> (\<exists>x. b = VText x)"
  "rank b = 4 \<longleftrightarrow> (\<exists>x. b = VBool x)"
  "rank b = 5 \<longleftrightarrow> (\<exists>x. b = VTuple x)"
  "rank b = 6 \<longleftrightarrow> (\<exists>x. b = VBytes x)"
  "rank b = 7 \<longleftrightarrow> (\<exists>x. b = VCode x)"
  by (cases b; simp)+

lemma values_less_irrefl: "(\<And>a. a \<in> set as \<Longrightarrow> \<not> value_less a a) \<Longrightarrow> \<not> values_less as as"
  by (induction as) auto

lemma value_less_irrefl: "\<not> value_less a a"
proof (induction a)
  case (VTuple as)
  then show ?case using values_less_irrefl [of as] by simp
qed auto

lemma values_less_trans:
  assumes "\<And>a b c. a \<in> set as \<Longrightarrow> value_less a b \<Longrightarrow> value_less b c \<Longrightarrow> value_less a c"
    and "values_less as bs" and "values_less bs cs"
  shows "values_less as cs"
  using assms
proof (induction as arbitrary: bs cs)
  case Nil
  then show ?case by (cases cs; cases bs) auto
next
  case (Cons a as)
  obtain b bs' where bs: "bs = b # bs'" using Cons.prems(2) by (cases bs) auto
  obtain c cs' where cs: "cs = c # cs'" using Cons.prems(3) bs by (cases cs) auto
  have ab: "value_less a b \<or> a = b \<and> values_less as bs'"
    and bc: "value_less b c \<or> b = c \<and> values_less bs' cs'"
    using Cons.prems(2,3) by (simp_all add: bs cs)
  have tr: "value_less a b \<Longrightarrow> value_less b c \<Longrightarrow> value_less a c"
    by (rule Cons.prems(1)) simp
  have IH: "values_less as bs' \<Longrightarrow> values_less bs' cs' \<Longrightarrow> values_less as cs'"
    by (rule Cons.IH) (rule Cons.prems(1), simp_all)
  show ?case using ab bc tr IH by (simp add: cs) blast
qed

lemma value_less_trans_same:
  assumes "rank b = rank a" "rank c = rank a" "value_less a b" "value_less b c"
  shows "value_less a c"
  using assms
proof (induction a arbitrary: b c)
  case (VTuple as)
  from VTuple.prems obtain bs cs where bc: "b = VTuple bs" "c = VTuple cs"
    by (auto simp: rank_eq_simps)
  have "values_less as cs"
  proof (rule values_less_trans [where bs = bs])
    fix a b c assume a: "a \<in> set as" and lt: "value_less a b" "value_less b c"
    show "value_less a c"
    proof (cases "rank a = rank c")
      case True
      then have "rank b = rank a"
        using value_less_imp_rank [OF lt(1)] value_less_imp_rank [OF lt(2)] by simp
      from VTuple.IH [OF a this True [symmetric] lt] show ?thesis .
    next
      case False
      then show ?thesis
        using value_less_imp_rank [OF lt(1)] value_less_imp_rank [OF lt(2)]
        by (simp add: value_less_rank)
    qed
  qed (use VTuple.prems bc in auto)
  then show ?case by (simp add: bc)
qed (auto simp: rank_eq_simps)

lemma value_less_trans:
  assumes "value_less a b" "value_less b c" shows "value_less a c"
proof (cases "rank a = rank c")
  case True
  then have "rank b = rank a"
    using value_less_imp_rank [OF assms(1)] value_less_imp_rank [OF assms(2)] by simp
  from value_less_trans_same [OF this True [symmetric] assms] show ?thesis .
next
  case False
  then show ?thesis
    using value_less_imp_rank [OF assms(1)] value_less_imp_rank [OF assms(2)]
    by (simp add: value_less_rank)
qed

lemma values_less_total:
  assumes "\<And>a b. a \<in> set as \<Longrightarrow> value_less a b \<or> a = b \<or> value_less b a"
  shows "values_less as bs \<or> as = bs \<or> values_less bs as"
  using assms
proof (induction as arbitrary: bs)
  case Nil
  then show ?case by (cases bs) auto
next
  case (Cons a as)
  show ?case
  proof (cases bs)
    case (Cons b bs')
    then show ?thesis using Cons.prems [of a b] Cons.IH [of bs'] Cons.prems by auto
  qed simp
qed

lemma value_less_total: "value_less a b \<or> a = b \<or> value_less b a"
proof (induction a arbitrary: b)
  case (VTuple as)
  show ?case
  proof (cases "rank b = rank (VTuple as)")
    case True
    then obtain bs where "b = VTuple bs" by (auto simp: rank_eq_simps)
    then show ?thesis using values_less_total [of as bs] VTuple.IH by auto
  next
    case False
    then show ?thesis using value_less_rank [of b "VTuple as"] value_less_rank [of "VTuple as" b]
      by auto
  qed
next
  case (VEnt x) then show ?case by (cases b) auto
next
  case (VInt x) then show ?case by (cases b) (auto, metis linorder_neqE signed_word_eqI)
next
  case (VFloat x) then show ?case
    by (cases b) (auto, metis linorder_neqE signed_word_eqI total_key_inj)
next
  case (VText x) then show ?case by (cases b) auto
next
  case (VBool x) then show ?case by (cases b) auto
next
  case (VBytes x) then show ?case by (cases b) auto
next
  case (VCode x) then show ?case by (cases b) auto
qed

instantiation val :: linorder
begin

definition less_val :: "val \<Rightarrow> val \<Rightarrow> bool" where
  "less_val a b = value_less a b"

definition less_eq_val :: "val \<Rightarrow> val \<Rightarrow> bool" where
  "less_eq_val a b = (a = b \<or> value_less a b)"

instance
proof
  fix a b c :: val
  show "a < b \<longleftrightarrow> a \<le> b \<and> \<not> b \<le> a"
    using value_less_trans [of a b a] by (auto simp: less_val_def less_eq_val_def value_less_irrefl)
  show "a \<le> a" by (simp add: less_eq_val_def)
  show "a \<le> b \<Longrightarrow> b \<le> c \<Longrightarrow> a \<le> c"
    using value_less_trans by (auto simp: less_eq_val_def)
  show "a \<le> b \<Longrightarrow> b \<le> a \<Longrightarrow> a = b"
    using value_less_trans [of a b a] by (auto simp: less_eq_val_def value_less_irrefl)
  show "a \<le> b \<or> b \<le> a" using value_less_total by (auto simp: less_eq_val_def)
qed

end

lemma values_less_list: "values_less as bs \<longleftrightarrow> as < bs"
proof (induction as arbitrary: bs)
  case Nil
  then show ?case by (cases bs) auto
next
  case (Cons a as)
  then show ?case by (cases bs) (auto simp: less_val_def)
qed

lemma val_less_simps [simp]:
  "VEnt a < VEnt b \<longleftrightarrow> a < b"
  "VInt i < VInt j \<longleftrightarrow> sint i < sint j"
  "VText s < VText t \<longleftrightarrow> s < t"
  "VBool p < VBool q \<longleftrightarrow> (\<not> p \<and> q)"
  "VTuple as < VTuple bs \<longleftrightarrow> as < bs"
  "VBytes x < VBytes y \<longleftrightarrow> x < y"
  by (simp_all add: less_val_def values_less_list)

section \<open>Facts, times and updates\<close>

text \<open>
  An \<open>Edition\<close> is a point of the commit clock. The clock counts commits from zero, so it
  is a natural number: it stays far below the \<open>2 ^ 64\<close> at which a \<open>u64\<close> would wrap.
  A \<open>Diff\<close>, the multiplicity of a row, is an integer for the same reason: it is exact
  while every weight stays inside \<open>i64\<close>. Numbers that programs compute with, the cells
  \<^const>\<open>VInt\<close> and \<^const>\<open>VEnt\<close>, keep their 64 bits.
\<close>

type_synonym edition = nat
type_synonym diff = int
type_synonym rows = "(tuple \<times> diff) list"

definition edition_zero :: edition where
  "edition_zero = 0"

record time =
  t_edition :: edition
  t_iter :: u32

definition time_input :: "edition \<Rightarrow> time" where
  "time_input e = \<lparr>t_edition = e, t_iter = 0\<rparr>"

record update =
  u_tuple :: tuple
  u_time :: time
  u_diff :: diff

record fact =
  f_rel :: rel_id
  f_tuple :: tuple

definition fact_new :: "rel_id \<Rightarrow> tuple \<Rightarrow> fact" where
  "fact_new r t = \<lparr>f_rel = r, f_tuple = t\<rparr>"

lemma fact_new_sel [simp]: "f_rel (fact_new r t) = r" "f_tuple (fact_new r t) = t"
  by (simp_all add: fact_new_def)

lemma fact_new_inject [simp]: "fact_new r t = fact_new r' t' \<longleftrightarrow> r = r' \<and> t = t'"
  by (simp add: fact_new_def)

end
