(* ===== verification/Ordered_Map.thy ===== *)
theory Ordered_Map
  imports Prelude
begin

text \<open>
  Finite maps as association lists with strictly ascending keys. They stand for the hash
  maps and B-tree maps of the source (the answers never depend on a hash map's iteration
  order, and the ascending order is one such order) and for the interface of the Ent's
  measured trees: lookup, insertion, removal, range walk, predecessor and split. Two such
  lists with the same lookups are equal, so maps compare by plain equality.
\<close>

definition osorted :: "('k::linorder \<times> 'v) list \<Rightarrow> bool" where
  "osorted m \<longleftrightarrow> sorted_wrt (<) (map fst m)"

definition om_get :: "('k::linorder \<times> 'v) list \<Rightarrow> 'k \<Rightarrow> 'v option" where
  "om_get m k = map_of m k"

fun om_put :: "'k::linorder \<Rightarrow> 'v \<Rightarrow> ('k \<times> 'v) list \<Rightarrow> ('k \<times> 'v) list" where
  "om_put k v [] = [(k, v)]"
| "om_put k v (p # m) =
     (if fst p < k then p # om_put k v m
      else if fst p = k then (k, v) # m
      else (k, v) # p # m)"

definition om_del :: "'k::linorder \<Rightarrow> ('k \<times> 'v) list \<Rightarrow> ('k \<times> 'v) list" where
  "om_del k m = filter (\<lambda>p. fst p \<noteq> k) m"

text \<open>The entries in the half-open span \<open>[lo, hi)\<close>.\<close>

definition om_range :: "'k::linorder \<Rightarrow> 'k \<Rightarrow> ('k \<times> 'v) list \<Rightarrow> ('k \<times> 'v) list" where
  "om_range lo hi m = filter (\<lambda>p. lo \<le> fst p \<and> fst p < hi) m"

text \<open>The entry with the greatest key at most \<open>k\<close>.\<close>

definition om_last_le :: "'k::linorder \<Rightarrow> ('k \<times> 'v) list \<Rightarrow> ('k \<times> 'v) option" where
  "om_last_le k m =
     (let below = filter (\<lambda>p. fst p \<le> k) m in if below = [] then None else Some (last below))"

text \<open>The entries below \<open>k\<close>, and those from \<open>k\<close> on.\<close>

definition om_split :: "'k::linorder \<Rightarrow> ('k \<times> 'v) list \<Rightarrow> ('k \<times> 'v) list \<times> ('k \<times> 'v) list" where
  "om_split k m = (filter (\<lambda>p. fst p < k) m, filter (\<lambda>p. k \<le> fst p) m)"

named_theorems omap \<open>lookups and sortedness of ordered maps\<close>

lemma osorted_Nil [simp, omap]: "osorted []"
  by (simp add: osorted_def)

lemma osorted_Cons:
  "osorted (p # m) \<longleftrightarrow> (\<forall>q\<in>set m. fst p < fst q) \<and> osorted m"
  by (auto simp: osorted_def)

lemma osorted_distinct: "osorted m \<Longrightarrow> distinct (map fst m)"
  by (simp add: osorted_def strict_sorted_iff)

lemma osorted_filter [simp, omap]: "osorted m \<Longrightarrow> osorted (filter P m)"
  by (induction m) (auto simp: osorted_Cons)

lemma osorted_append:
  "osorted (xs @ ys) \<longleftrightarrow> osorted xs \<and> osorted ys \<and> (\<forall>x\<in>set xs. \<forall>y\<in>set ys. fst x < fst y)"
  by (induction xs) (auto simp: osorted_Cons)

lemma osorted_map_snd: "osorted m \<Longrightarrow> osorted (map (\<lambda>(k, v). (k, f k v)) m)"
  by (induction m) (auto simp: osorted_Cons)

lemma set_om_put: "set (om_put k v m) \<subseteq> insert (k, v) (set m)"
  by (induction m) auto

lemma osorted_put [simp, omap]: "osorted m \<Longrightarrow> osorted (om_put k v m)"
proof (induction m)
  case (Cons p m)
  then show ?case using set_om_put [of k v m] by (auto simp: osorted_Cons)
qed (simp add: osorted_Cons)

lemma osorted_del [simp, omap]: "osorted m \<Longrightarrow> osorted (om_del k m)"
  by (simp add: om_del_def)

lemma osorted_range [simp, omap]: "osorted m \<Longrightarrow> osorted (om_range lo hi m)"
  by (simp add: om_range_def)

lemma osorted_split [simp, omap]:
  "osorted m \<Longrightarrow> osorted (fst (om_split k m))" "osorted m \<Longrightarrow> osorted (snd (om_split k m))"
  by (simp_all add: om_split_def)

lemma om_get_Nil [simp]: "om_get [] k = None"
  by (simp add: om_get_def)

lemma om_get_Cons: "om_get (p # m) k = (if fst p = k then Some (snd p) else om_get m k)"
  by (cases p) (auto simp: om_get_def)

lemma om_get_notin: "k \<notin> fst ` set m \<Longrightarrow> om_get m k = None"
  by (simp add: om_get_def map_of_eq_None_iff)

lemma om_get_None_iff: "om_get m k = None \<longleftrightarrow> k \<notin> fst ` set m"
  by (simp add: om_get_def map_of_eq_None_iff)

lemma om_get_in_iff: "osorted m \<Longrightarrow> om_get m k = Some v \<longleftrightarrow> (k, v) \<in> set m"
  unfolding om_get_def by (rule map_of_eq_Some_iff) (rule osorted_distinct)

lemma om_get_set: "om_get m k = Some v \<Longrightarrow> (k, v) \<in> set m"
  by (simp add: om_get_def map_of_SomeD)

lemma om_get_put [simp, omap]:
  "osorted m \<Longrightarrow> om_get (om_put k v m) j = (if j = k then Some v else om_get m j)"
proof (induction m)
  case (Cons p m)
  then have "fst p > k \<Longrightarrow> om_get m k = None"
    by (force simp: osorted_Cons om_get_None_iff)
  with Cons show ?case by (auto simp: om_get_Cons osorted_Cons)
qed (simp add: om_get_Cons)

lemma osorted_functional: "osorted m \<Longrightarrow> (k, v) \<in> set m \<Longrightarrow> (k, w) \<in> set m \<Longrightarrow> v = w"
  by (metis om_get_in_iff option.inject)

lemma om_get_filter: "osorted m \<Longrightarrow>
  om_get (filter P m) k = (case om_get m k of Some v \<Rightarrow> if P (k, v) then Some v else None | None \<Rightarrow> None)"
  by (auto simp: om_get_in_iff om_get_None_iff split: option.splits dest: osorted_functional)

lemma om_get_del [simp, omap]:
  "osorted m \<Longrightarrow> om_get (om_del k m) j = (if j = k then None else om_get m j)"
  by (auto simp: om_del_def om_get_filter split: option.splits)

lemma om_get_split_snd: "osorted m \<Longrightarrow>
  om_get (snd (om_split k m)) j = (if k \<le> j then om_get m j else None)"
  by (auto simp: om_split_def om_get_filter split: option.splits)

lemma set_om_range [simp]: "set (om_range lo hi m) = {p \<in> set m. lo \<le> fst p \<and> fst p < hi}"
  by (auto simp: om_range_def)

text \<open>Lookups determine the map.\<close>

lemma omap_ext:
  assumes "osorted a" "osorted b" "\<And>k. om_get a k = om_get b k"
  shows "a = b"
proof (rule map_sorted_distinct_set_unique [of fst])
  have mem: "p \<in> set a \<longleftrightarrow> p \<in> set b" for p
    using om_get_in_iff [OF assms(1), of "fst p" "snd p"] om_get_in_iff [OF assms(2), of "fst p" "snd p"]
      assms(3) by simp
  then show "set a = set b" by blast
  show "inj_on fst (set a \<union> set b)"
    using mem osorted_functional [OF assms(1)] by (auto simp: inj_on_def)
qed (use assms(1,2) in \<open>auto simp: osorted_def strict_sorted_iff\<close>)

text \<open>The predecessor: its key is at most the bound and no key lies between.\<close>

lemma om_last_le_Some:
  assumes "osorted m" "om_last_le k m = Some (j, v)"
  shows "(j, v) \<in> set m" "j \<le> k" "\<And>i. i \<in> fst ` set m \<Longrightarrow> i \<le> k \<Longrightarrow> i \<le> j"
proof -
  let ?b = "filter (\<lambda>p. fst p \<le> k) m"
  have ne: "?b \<noteq> []" and last: "last ?b = (j, v)"
    using assms(2) by (auto simp: om_last_le_def Let_def split: if_splits)
  from last_in_set [OF ne] last show "(j, v) \<in> set m" "j \<le> k" by auto
  have b: "?b = butlast ?b @ [(j, v)]" using ne last by (metis append_butlast_last_id)
  fix i assume "i \<in> fst ` set m" "i \<le> k"
  then obtain w where "(i, w) \<in> set ?b" by auto
  moreover have "set ?b = set (butlast ?b @ [(j, v)])" using b by (rule arg_cong)
  ultimately have "(i, w) \<in> set (butlast ?b) \<or> i = j" by auto
  moreover have "osorted (butlast ?b @ [(j, v)])"
    by (subst b [symmetric]) (simp add: assms(1))
  then have "\<forall>x\<in>set (butlast ?b). fst x < j" by (simp add: osorted_append)
  ultimately show "i \<le> j" by force
qed

lemma om_last_le_None_iff: "om_last_le k m = None \<longleftrightarrow> (\<forall>p\<in>set m. k < fst p)"
  by (simp add: om_last_le_def Let_def filter_empty_conv not_le)

lemma om_last_le_unique:
  assumes "osorted m" "(j, v) \<in> set m" "j \<le> k" "\<And>i. i \<in> fst ` set m \<Longrightarrow> i \<le> k \<Longrightarrow> i \<le> j"
  shows "om_last_le k m = Some (j, v)"
proof (cases "om_last_le k m")
  case None
  then show ?thesis using assms(2,3) by (force simp: om_last_le_None_iff)
next
  case (Some p)
  obtain i w where p: "p = (i, w)" by (cases p)
  note * = om_last_le_Some [OF assms(1) Some [unfolded p]]
  have "j \<le> i" using *(3) assms(2,3) by force
  moreover have "i \<le> j" using assms(4) *(1,2) by force
  ultimately have "i = j" by simp
  then have "w = v" using assms(1,2) *(1) by (metis om_get_in_iff option.inject)
  with Some p \<open>i = j\<close> show ?thesis by simp
qed

lemma om_last_le_put:
  assumes "osorted m"
  shows "om_last_le k (om_put j v m) =
    (if j \<le> k \<and> (case om_last_le k m of None \<Rightarrow> True | Some (i, _) \<Rightarrow> i \<le> j) then Some (j, v)
     else om_last_le k m)"
proof -
  have s: "osorted (om_put j v m)" using assms by simp
  have mem: "(i, w) \<in> set (om_put j v m) \<longleftrightarrow> (if i = j then w = v else (i, w) \<in> set m)" for i w
    using om_get_put [OF assms] by (auto simp: om_get_in_iff [symmetric] assms s)
  show ?thesis
  proof (cases "j \<le> k \<and> (case om_last_le k m of None \<Rightarrow> True | Some (i, _) \<Rightarrow> i \<le> j)")
    case True
    have "om_last_le k (om_put j v m) = Some (j, v)"
    proof (rule om_last_le_unique [OF s])
      fix i assume i: "i \<in> fst ` set (om_put j v m)" "i \<le> k"
      then obtain w where w: "(i, w) \<in> set (om_put j v m)" by auto
      show "i \<le> j"
      proof (cases "i = j")
        case False
        with w mem have im: "(i, w) \<in> set m" by simp
        with i obtain l u where lu: "om_last_le k m = Some (l, u)"
          by (cases "om_last_le k m") (force simp: om_last_le_None_iff)+
        with True om_last_le_Some(3) [OF assms lu] im i show ?thesis by force
      qed simp
    qed (use True mem in auto)
    with True show ?thesis by simp
  next
    case False
    show ?thesis
    proof (cases "om_last_le k m")
      case None
      with False have "\<not> j \<le> k" by simp
      have "\<forall>p\<in>set (om_put j v m). k < fst p"
        using None \<open>\<not> j \<le> k\<close> mem
        by (auto simp: om_last_le_None_iff split: if_splits)
      then have "om_last_le k (om_put j v m) = None" by (simp only: om_last_le_None_iff)
      with None \<open>\<not> j \<le> k\<close> show ?thesis by simp
    next
      case (Some p)
      obtain i w where p: "p = (i, w)" by (cases p)
      note * = om_last_le_Some [OF assms Some [unfolded p]]
      have lt: "j > k \<or> j < i" using False Some p by auto
      have "om_last_le k (om_put j v m) = Some (i, w)"
      proof (rule om_last_le_unique [OF s])
        show "(i, w) \<in> set (om_put j v m)" using mem *(1,2) lt by auto
        fix l assume l: "l \<in> fst ` set (om_put j v m)" "l \<le> k"
        then obtain u where "(l, u) \<in> set (om_put j v m)" by auto
        with l *(3) lt mem show "l \<le> i" by (cases "l = j") force+
      qed (rule *(2))
      with False Some p show ?thesis by auto
    qed
  qed
qed

end
