(* ===== verification/Zset.thy ===== *)
theory Zset
  imports Values Ordered_Map
begin

text \<open>
  Consolidated multisets (\<^verbatim>\<open>grmpl-diff/src/multiset.rs\<close>): the value of a relation or
  a query at one edition, a signed weight for each tuple. The hash map of the source is an
  ordered map; the weight it gives a tuple is \<^const>\<open>wsum\<close>. A multiset is \<open>canonical\<close> when
  it is ordered and free of zero weights, and canonical multisets are equal exactly when
  their weights are.
\<close>

type_synonym zset = "(tuple \<times> diff) list"

definition zweight :: "zset \<Rightarrow> tuple \<Rightarrow> diff" where
  "zweight m t = (case om_get m t of None \<Rightarrow> 0 | Some d \<Rightarrow> d)"

text \<open>\<open>acc.entry(tuple).or_insert(0) += diff\<close>: an entry that cancels stays, at zero.\<close>

definition zadd :: "zset \<Rightarrow> tuple \<Rightarrow> diff \<Rightarrow> zset" where
  "zadd acc t d = (if d = 0 then acc else om_put t (zweight acc t + d) acc)"

definition zadd_all :: "zset \<Rightarrow> rows \<Rightarrow> zset" where
  "zadd_all acc ps = foldl (\<lambda>m (t, d). zadd m t d) acc ps"

definition zmerge :: "zset \<Rightarrow> zset \<Rightarrow> zset" where
  "zmerge acc src = zadd_all acc src"

definition strip_zeros :: "zset \<Rightarrow> zset" where
  "strip_zeros m = filter (\<lambda>(t, d). d \<noteq> 0) m"

definition from_pairs :: "rows \<Rightarrow> zset" where
  "from_pairs ps = strip_zeros (zadd_all [] ps)"

definition to_sorted_vec :: "zset \<Rightarrow> rows" where
  "to_sorted_vec m = sort (filter (\<lambda>(t, d). d \<noteq> 0) m)"

section \<open>Weights of the operations\<close>

definition nonzero :: "zset \<Rightarrow> bool" where
  "nonzero m \<longleftrightarrow> (\<forall>(t, d)\<in>set m. d \<noteq> 0)"

definition canonical :: "zset \<Rightarrow> bool" where
  "canonical m \<longleftrightarrow> osorted m \<and> nonzero m"

named_theorems zset \<open>weights and order of consolidated multisets\<close>

lemma wsum_osorted: "osorted m \<Longrightarrow> wsum m t = zweight m t"
proof (cases "om_get m t")
  case None
  then have "t \<notin> fst ` set m" by (simp add: om_get_None_iff)
  with None show ?thesis by (simp add: zweight_def wsum_notin)
next
  case (Some d)
  assume "osorted m"
  with Some show ?thesis
    using wsum_distinct [OF osorted_distinct om_get_set] by (simp add: zweight_def)
qed

lemma wsum_om_put:
  "osorted m \<Longrightarrow> wsum (om_put k d m) t = (if t = k then d else wsum m t)" for m :: zset
  by (simp add: wsum_osorted zweight_def)

lemma osorted_zadd [simp, zset]: "osorted m \<Longrightarrow> osorted (zadd m t d)"
  by (simp add: zadd_def)

lemma wsum_zadd [zset]: "osorted m \<Longrightarrow> wsum (zadd m t d) u = wsum m u + (if t = u then d else 0)"
  by (auto simp: zadd_def wsum_om_put wsum_osorted [symmetric])

lemma zadd_all_Nil [simp]: "zadd_all m [] = m"
  by (simp add: zadd_all_def)

lemma zadd_all_Cons [simp]: "zadd_all m ((t, d) # ps) = zadd_all (zadd m t d) ps"
  by (simp add: zadd_all_def)

lemma osorted_zadd_all [simp, zset]: "osorted m \<Longrightarrow> osorted (zadd_all m ps)"
  by (induction ps arbitrary: m) (auto)

lemma wsum_zadd_all [zset]: "osorted m \<Longrightarrow> wsum (zadd_all m ps) u = wsum m u + wsum ps u"
  by (induction ps arbitrary: m) (auto simp: wsum_zadd)

lemma osorted_zmerge [simp, zset]: "osorted m \<Longrightarrow> osorted (zmerge m n)"
  by (simp add: zmerge_def)

lemma wsum_zmerge [zset]: "osorted m \<Longrightarrow> wsum (zmerge m n) u = wsum m u + wsum n u"
  by (simp add: zmerge_def zset)

lemma osorted_strip_zeros [simp, zset]: "osorted m \<Longrightarrow> osorted (strip_zeros m)"
  by (simp add: strip_zeros_def)

lemma wsum_strip_zeros [simp, zset]: "wsum (strip_zeros m) u = wsum m u"
  by (induction m) (auto simp: strip_zeros_def)

lemma nonzero_strip_zeros [simp]: "nonzero (strip_zeros m)"
  by (auto simp: nonzero_def strip_zeros_def)

lemma nonzero_Nil [simp]: "nonzero []"
  by (simp add: nonzero_def)

lemma nonzero_filter: "nonzero m \<Longrightarrow> nonzero (filter P m)"
  by (auto simp: nonzero_def)

lemma canonical_Nil [simp, zset]: "canonical []"
  by (simp add: canonical_def)

lemma canonical_strip_zeros [simp, zset]: "osorted m \<Longrightarrow> canonical (strip_zeros m)"
  by (simp add: canonical_def)

lemma canonical_filter [simp, zset]: "canonical m \<Longrightarrow> canonical (filter P m)"
  by (simp add: canonical_def nonzero_filter)

lemma canonical_from_pairs [simp, zset]: "canonical (from_pairs ps)"
  by (simp add: from_pairs_def)

lemma wsum_from_pairs [simp, zset]: "wsum (from_pairs ps) u = wsum ps u"
  by (simp add: from_pairs_def wsum_zadd_all)

lemma canonicalD [dest]: "canonical m \<Longrightarrow> osorted m"
  by (simp add: canonical_def)

lemma canonical_mem: "canonical m \<Longrightarrow> (t, d) \<in> set m \<longleftrightarrow> d \<noteq> 0 \<and> wsum m t = d"
proof -
  assume c: "canonical m"
  then have o: "osorted m" by blast
  have "d \<noteq> 0" if "(t, d) \<in> set m" using c that by (auto simp: canonical_def nonzero_def)
  then show ?thesis
    using o om_get_in_iff [OF o, of t]
    by (auto simp: wsum_osorted zweight_def split: option.splits dest: osorted_functional [OF o])
qed

lemma canonical_key: "canonical m \<Longrightarrow> t \<in> fst ` set m \<longleftrightarrow> wsum m t \<noteq> 0"
proof -
  assume "canonical m"
  then have "t \<in> fst ` set m \<longleftrightarrow> (\<exists>d. (t, d) \<in> set m)" by force
  with \<open>canonical m\<close> show ?thesis by (simp add: canonical_mem)
qed

lemma canonical_ext:
  assumes "canonical a" "canonical b" "\<And>t. wsum a t = wsum b t"
  shows "a = b"
proof (rule omap_ext)
  fix t
  have "om_get a t = Some d \<longleftrightarrow> om_get b t = Some d" for d
    using canonical_mem [OF assms(1), of t d] canonical_mem [OF assms(2), of t d] assms(3)
      om_get_in_iff [OF canonicalD [OF assms(1)], of t d]
      om_get_in_iff [OF canonicalD [OF assms(2)], of t d]
    by simp
  then show "om_get a t = om_get b t" by (metis option.exhaust)
qed (use assms in auto)

lemma strip_zeros_canonical: "canonical m \<Longrightarrow> strip_zeros m = m"
  by (auto simp: strip_zeros_def canonical_def nonzero_def filter_id_conv)

lemma sort_osorted:
  assumes "osorted (m :: zset)" shows "sort m = m"
proof (rule sort_key_id_if_sorted)
  show "sorted (map (\<lambda>x. x) m)"
    using assms by (induction m) (auto simp: osorted_Cons less_eq_prod_def)
qed

text \<open>The sorted view of a multiset is its canonical form.\<close>

lemma to_sorted_vec_eq: "osorted m \<Longrightarrow> to_sorted_vec m = strip_zeros m"
  by (simp add: to_sorted_vec_def strip_zeros_def sort_osorted)

lemma to_sorted_vec_canonical: "canonical m \<Longrightarrow> to_sorted_vec m = m"
  by (simp add: to_sorted_vec_eq strip_zeros_canonical canonical_def)

section \<open>Rows that represent a weight\<close>

text \<open>
  Rows a store answers with: each tuple once, with its weight, and only tuples whose weight
  is not zero. The order of the rows is left open.
\<close>

definition represents :: "rows \<Rightarrow> (tuple \<Rightarrow> diff) \<Rightarrow> bool" where
  "represents rows w \<longleftrightarrow>
     distinct (map fst rows) \<and> (\<forall>t d. (t, d) \<in> set rows \<longleftrightarrow> d = w t \<and> d \<noteq> 0)"

lemma represents_wsum: "represents rows w \<Longrightarrow> wsum rows t = w t"
proof (cases "w t = 0")
  case True
  assume "represents rows w"
  with True have "t \<notin> fst ` set rows" by (auto simp: represents_def)
  then show ?thesis using True by (simp add: wsum_notin)
next
  case False
  assume "represents rows w"
  with False show ?thesis using wsum_distinct [of rows t "w t"] by (simp add: represents_def)
qed

lemma represents_canonical: "canonical m \<Longrightarrow> represents m (wsum m)"
  by (auto simp: represents_def canonical_mem osorted_distinct canonical_def)

lemma represents_filter:
  assumes "represents rows w"
  shows "represents (filter (\<lambda>(t, d). P t) rows) (\<lambda>t. if P t then w t else 0)"
  using assms by (auto simp: represents_def distinct_map inj_on_def)

lemma represents_set_eq:
  "represents rows w \<Longrightarrow> represents rows' w' \<Longrightarrow> (\<And>t. w t = w' t) \<Longrightarrow> set rows = set rows'"
  by (auto simp: represents_def)

lemma from_pairs_represents:
  "represents rows w \<Longrightarrow> represents rows' w \<Longrightarrow> from_pairs rows = from_pairs rows'"
  by (rule canonical_ext) (simp_all add: represents_wsum)

lemma from_pairs_canonical: "canonical m \<Longrightarrow> from_pairs m = m"
  by (rule canonical_ext) simp_all

end
