(* ===== verification/Trace_Store.thy ===== *)
theory Trace_Store
  imports Zset
begin

text \<open>
  The substrate boundary (\<^verbatim>\<open>grmpl-core/src/store.rs\<close>): the traits through which the
  semantic core reads and writes an editioned store. A trait object is a record of its
  methods over a state type; the methods with a default body have that body here, and the
  contract the trait documents is a locale. A store with the required methods alone meets
  the whole contract through the defaults.
\<close>

section \<open>Trait objects\<close>

text \<open>\<open>EditionReader\<close>: an immutable view of the world at one edition.\<close>

record edition_reader =
  er_edition :: edition
  er_read :: "rel_id \<Rightarrow> rows result"
  er_read_range :: "rel_id \<Rightarrow> tuple \<Rightarrow> tuple \<Rightarrow> rows result"
  er_read_range_on :: "rel_id \<Rightarrow> nat \<Rightarrow> val \<Rightarrow> val \<Rightarrow> rows result"
  er_read_containing :: "rel_id \<Rightarrow> nat \<Rightarrow> nat \<Rightarrow> val list \<Rightarrow> rows result"
  er_touched_since :: "edition \<Rightarrow> rel_id list \<Rightarrow> bool result"

type_synonym upd = "rel_id \<times> tuple \<times> diff"
type_synonym precond = "rel_id \<times> tuple"

text \<open>
  \<open>TraceStore\<close>. The reads do not change what the store says, so they are functions of its
  state; the commits, consolidation and the range-routing question (which registers an
  interest) return the state they leave.
\<close>

record 's trace_ops =
  ts_current :: "'s \<Rightarrow> edition"
  ts_watermark :: "'s \<Rightarrow> edition"
  ts_commit :: "upd list \<Rightarrow> ('s, edition) op"
  ts_commit_if :: "precond list \<Rightarrow> upd list \<Rightarrow> ('s, edition option) op"
  ts_consolidate :: "edition \<Rightarrow> ('s, edition) op"
  ts_read_at :: "'s \<Rightarrow> rel_id \<Rightarrow> edition \<Rightarrow> rows result"
  ts_scan_updates :: "'s \<Rightarrow> rel_id \<Rightarrow> edition \<Rightarrow> edition \<Rightarrow> update list result"
  ts_read_range :: "'s \<Rightarrow> rel_id \<Rightarrow> edition \<Rightarrow> tuple \<Rightarrow> tuple \<Rightarrow> rows result"
  ts_read_range_on :: "'s \<Rightarrow> rel_id \<Rightarrow> edition \<Rightarrow> nat \<Rightarrow> val \<Rightarrow> val \<Rightarrow> rows result"
  ts_lookup :: "'s \<Rightarrow> rel_id \<Rightarrow> edition \<Rightarrow> nat \<Rightarrow> val list \<Rightarrow> rows result"
  ts_read_containing :: "'s \<Rightarrow> rel_id \<Rightarrow> edition \<Rightarrow> nat \<Rightarrow> nat \<Rightarrow> val list \<Rightarrow> rows result"
  ts_touched_since :: "'s \<Rightarrow> edition \<Rightarrow> edition \<Rightarrow> rel_id list \<Rightarrow> bool result"
  ts_touched_range_since :: "edition \<Rightarrow> edition \<Rightarrow> rel_id \<Rightarrow> tuple \<Rightarrow> tuple \<Rightarrow> ('s, bool) op"
  ts_compare :: "'s \<Rightarrow> rel_id \<Rightarrow> edition \<Rightarrow> edition \<Rightarrow> (tuple \<times> diff \<times> diff) list result"
  ts_reader_at :: "'s \<Rightarrow> edition \<Rightarrow> edition_reader"

section \<open>The default methods\<close>

type_synonym 's read_fn = "'s \<Rightarrow> rel_id \<Rightarrow> edition \<Rightarrow> rows result"

text \<open>Which rows the restricted reads keep.\<close>

definition in_range :: "tuple \<Rightarrow> tuple \<Rightarrow> tuple \<Rightarrow> bool" where
  "in_range lo hi t \<longleftrightarrow> lo \<le> t \<and> t < hi"

definition in_range_on :: "nat \<Rightarrow> val \<Rightarrow> val \<Rightarrow> tuple \<Rightarrow> bool" where
  "in_range_on col lo hi t \<longleftrightarrow> (case get t col of None \<Rightarrow> False | Some v \<Rightarrow> lo \<le> v \<and> v < hi)"

definition has_key :: "nat \<Rightarrow> val list \<Rightarrow> tuple \<Rightarrow> bool" where
  "has_key col keys t \<longleftrightarrow> (case get t col of None \<Rightarrow> False | Some v \<Rightarrow> v \<in> set keys)"

definition contains_any :: "nat \<Rightarrow> nat \<Rightarrow> val list \<Rightarrow> tuple \<Rightarrow> bool" where
  "contains_any fcol lcol points t \<longleftrightarrow>
     (case (get t fcol, get t lcol) of
        (Some lo, Some hi) \<Rightarrow> (\<exists>p\<in>set points. lo \<le> p \<and> p \<le> hi)
      | _ \<Rightarrow> False)"

definition keep_rows :: "(tuple \<Rightarrow> bool) \<Rightarrow> rows \<Rightarrow> rows" where
  "keep_rows P rows = filter (\<lambda>(t, d). P t) rows"

definition default_read_range :: "'s read_fn \<Rightarrow> 's \<Rightarrow> rel_id \<Rightarrow> edition \<Rightarrow> tuple \<Rightarrow> tuple \<Rightarrow> rows result" where
  "default_read_range read s rel at lo hi =
     rbind (read s rel at) (\<lambda>rows. Inr (keep_rows (in_range lo hi) rows))"

definition default_read_range_on ::
  "'s read_fn \<Rightarrow> 's \<Rightarrow> rel_id \<Rightarrow> edition \<Rightarrow> nat \<Rightarrow> val \<Rightarrow> val \<Rightarrow> rows result" where
  "default_read_range_on read s rel at col lo hi =
     rbind (read s rel at) (\<lambda>rows. Inr (keep_rows (in_range_on col lo hi) rows))"

definition default_lookup ::
  "'s read_fn \<Rightarrow> 's \<Rightarrow> rel_id \<Rightarrow> edition \<Rightarrow> nat \<Rightarrow> val list \<Rightarrow> rows result" where
  "default_lookup read s rel at col keys =
     rbind (read s rel at) (\<lambda>rows. Inr (keep_rows (has_key col keys) rows))"

definition default_read_containing ::
  "'s read_fn \<Rightarrow> 's \<Rightarrow> rel_id \<Rightarrow> edition \<Rightarrow> nat \<Rightarrow> nat \<Rightarrow> val list \<Rightarrow> rows result" where
  "default_read_containing read s rel at fcol lcol points =
     rbind (read s rel at) (\<lambda>rows. Inr (keep_rows (contains_any fcol lcol points) rows))"

definition default_touched_since :: "'s \<Rightarrow> edition \<Rightarrow> edition \<Rightarrow> rel_id list \<Rightarrow> bool result" where
  "default_touched_since s from to rels = Inr True"

definition default_touched_range_since ::
  "('s \<Rightarrow> edition \<Rightarrow> edition \<Rightarrow> rel_id list \<Rightarrow> bool result) \<Rightarrow>
   edition \<Rightarrow> edition \<Rightarrow> rel_id \<Rightarrow> tuple \<Rightarrow> tuple \<Rightarrow> ('s, bool) op" where
  "default_touched_range_since touched from to rel lo hi = oread (\<lambda>s. touched s from to [rel])"

definition default_watermark :: "'s \<Rightarrow> edition" where
  "default_watermark s = edition_zero"

definition default_consolidate :: "edition \<Rightarrow> ('s, edition) op" where
  "default_consolidate up_to = oread (\<lambda>s. Inr (default_watermark s))"

text \<open>
  The default version compare: both ends are read into one ordered map of pairs, and the
  entries whose weights differ are kept.
\<close>

definition side_put ::
  "((diff \<times> diff) \<Rightarrow> diff \<Rightarrow> diff \<times> diff) \<Rightarrow> (tuple \<times> diff \<times> diff) list \<Rightarrow> tuple \<times> diff \<Rightarrow>
   (tuple \<times> diff \<times> diff) list" where
  "side_put put sides = (\<lambda>(t, d).
     om_put t (put (case om_get sides t of None \<Rightarrow> (0, 0) | Some p \<Rightarrow> p) d) sides)"

definition default_compare ::
  "'s read_fn \<Rightarrow> 's \<Rightarrow> rel_id \<Rightarrow> edition \<Rightarrow> edition \<Rightarrow> (tuple \<times> diff \<times> diff) list result" where
  "default_compare read s rel a b =
     rbind (read s rel a) (\<lambda>ra. rbind (read s rel b) (\<lambda>rb.
       let sides = foldl (side_put (\<lambda>(wa, wb) d. (d, wb))) [] ra;
           sides = foldl (side_put (\<lambda>(wa, wb) d. (wa, d))) sides rb
       in Inr (filter (\<lambda>(t, wa, wb). wa \<noteq> wb) sides)))"

text \<open>\<open>ForwardingReader\<close>: every read re-enters the store at the pinned edition.\<close>

definition forwarding_reader :: "'s trace_ops \<Rightarrow> 's \<Rightarrow> edition \<Rightarrow> edition_reader" where
  "forwarding_reader ops s at = \<lparr>
     er_edition = at,
     er_read = (\<lambda>rel. ts_read_at ops s rel at),
     er_read_range = (\<lambda>rel lo hi. ts_read_range ops s rel at lo hi),
     er_read_range_on = (\<lambda>rel col lo hi. ts_read_range_on ops s rel at col lo hi),
     er_read_containing = (\<lambda>rel fcol lcol points. ts_read_containing ops s rel at fcol lcol points),
     er_touched_since = (\<lambda>from rels. if at \<le> from then Inr False else ts_touched_since ops s from at rels)\<rparr>"

text \<open>A store that gives the required methods, with every other method defaulted.\<close>

definition with_defaults ::
  "('s \<Rightarrow> edition) \<Rightarrow> (upd list \<Rightarrow> ('s, edition) op) \<Rightarrow>
   (precond list \<Rightarrow> upd list \<Rightarrow> ('s, edition option) op) \<Rightarrow> 's read_fn \<Rightarrow>
   ('s \<Rightarrow> rel_id \<Rightarrow> edition \<Rightarrow> edition \<Rightarrow> update list result) \<Rightarrow> 's trace_ops" where
  "with_defaults current commit commit_if read scan =
    (let ops = \<lparr>
       ts_current = current,
       ts_watermark = default_watermark,
       ts_commit = commit,
       ts_commit_if = commit_if,
       ts_consolidate = default_consolidate,
       ts_read_at = read,
       ts_scan_updates = scan,
       ts_read_range = default_read_range read,
       ts_read_range_on = default_read_range_on read,
       ts_lookup = default_lookup read,
       ts_read_containing = default_read_containing read,
       ts_touched_since = default_touched_since,
       ts_touched_range_since = default_touched_range_since default_touched_since,
       ts_compare = default_compare read,
       ts_reader_at = (\<lambda>s e. undefined)\<rparr>
     in ops\<lparr>ts_reader_at := forwarding_reader ops\<rparr>)"


section \<open>The contract of a trace store\<close>

text \<open>The weight a list of updates adds to a tuple of a relation.\<close>

definition upd_weight :: "upd list \<Rightarrow> rel_id \<Rightarrow> tuple \<Rightarrow> diff" where
  "upd_weight us r t = (\<Sum>(r', t', d)\<leftarrow>us. if r' = r \<and> t' = t then d else 0)"

lemma upd_weight_Nil [simp]: "upd_weight [] r t = 0"
  by (simp add: upd_weight_def)

lemma upd_weight_Cons [simp]:
  "upd_weight ((r', t', d) # us) r t = (if r' = r \<and> t' = t then d else 0) + upd_weight us r t"
  by (simp add: upd_weight_def)

lemma upd_weight_append [simp]: "upd_weight (us @ vs) r t = upd_weight us r t + upd_weight vs r t"
  by (simp add: upd_weight_def)

definition update_pairs :: "update list \<Rightarrow> rows" where
  "update_pairs ups = map (\<lambda>u. (u_tuple u, u_diff u)) ups"

text \<open>A weight restricted to the tuples a predicate admits.\<close>

definition restrict :: "(tuple \<Rightarrow> bool) \<Rightarrow> (tuple \<Rightarrow> diff) \<Rightarrow> tuple \<Rightarrow> diff" where
  "restrict P w t = (if P t then w t else 0)"

lemma represents_keep_rows: "represents rows w \<Longrightarrow> represents (keep_rows P rows) (restrict P w)"
  using represents_filter [of rows w P] by (simp add: keep_rows_def restrict_def [abs_def])

text \<open>A version compare names exactly the tuples whose weights differ, in tuple order.\<close>

definition compares ::
  "(tuple \<times> diff \<times> diff) list \<Rightarrow> (tuple \<Rightarrow> diff) \<Rightarrow> (tuple \<Rightarrow> diff) \<Rightarrow> bool" where
  "compares rows wa wb \<longleftrightarrow> osorted rows \<and>
     (\<forall>t a b. (t, a, b) \<in> set rows \<longleftrightarrow> a = wa t \<and> b = wb t \<and> a \<noteq> b)"

text \<open>
  \<open>W s r e\<close> is the world of state \<open>s\<close>: the weight of each tuple of relation \<open>r\<close> as of
  edition \<open>e\<close>. The laws say what the trait's documentation says: an edition is allocated
  and written in one step, guarded by its preconditions at the current edition; reads answer
  from the world at any edition the watermark has not passed and are refused below it; the
  raw updates of an interval sum to the change of the world across it; routing says "not
  touched" only of what did not change.
\<close>

definition holds_all :: "(rel_id \<Rightarrow> edition \<Rightarrow> tuple \<Rightarrow> diff) \<Rightarrow> edition \<Rightarrow> precond list \<Rightarrow> bool" where
  "holds_all w e pre \<longleftrightarrow> (\<forall>(r, t)\<in>set pre. 0 < w r e t)"

definition advances ::
  "(rel_id \<Rightarrow> edition \<Rightarrow> tuple \<Rightarrow> diff) \<Rightarrow> edition \<Rightarrow> upd list \<Rightarrow>
   (rel_id \<Rightarrow> edition \<Rightarrow> tuple \<Rightarrow> diff) \<Rightarrow> bool" where
  "advances w cur us w' \<longleftrightarrow>
     (\<forall>r e t. w' r e t = (if e \<le> cur then w r e t else w r cur t + upd_weight us r t))"

locale trace_store =
  fixes ops :: "'s trace_ops"
    and inv :: "'s \<Rightarrow> bool"
    and W :: "'s \<Rightarrow> rel_id \<Rightarrow> edition \<Rightarrow> tuple \<Rightarrow> diff"
  assumes horizon: "inv s \<Longrightarrow> ts_watermark ops s \<le> ts_current ops s"
    and future: "inv s \<Longrightarrow> ts_current ops s \<le> e \<Longrightarrow> W s r e t = W s r (ts_current ops s) t"
    and commit: "inv s \<Longrightarrow>
      \<exists>s'. ts_commit ops us s = (Inr (Suc (ts_current ops s)), s') \<and> inv s' \<and>
        ts_current ops s' = Suc (ts_current ops s) \<and> ts_watermark ops s' = ts_watermark ops s \<and>
        advances (W s) (ts_current ops s) us (W s')"
    and commit_if_won: "inv s \<Longrightarrow> holds_all (W s) (ts_current ops s) pre \<Longrightarrow>
      \<exists>s'. ts_commit_if ops pre us s = (Inr (Some (Suc (ts_current ops s))), s') \<and> inv s' \<and>
        ts_current ops s' = Suc (ts_current ops s) \<and> ts_watermark ops s' = ts_watermark ops s \<and>
        advances (W s) (ts_current ops s) us (W s')"
    and commit_if_lost: "inv s \<Longrightarrow> \<not> holds_all (W s) (ts_current ops s) pre \<Longrightarrow>
      ts_commit_if ops pre us s = (Inr None, s)"
    and read_at: "inv s \<Longrightarrow> ts_watermark ops s \<le> e \<Longrightarrow>
      \<exists>rows. ts_read_at ops s r e = Inr rows \<and> canonical rows \<and> (\<forall>t. wsum rows t = W s r e t)"
    and read_at_door: "inv s \<Longrightarrow> e < ts_watermark ops s \<Longrightarrow>
      \<exists>m. ts_read_at ops s r e = Inl (Err (EStore m))"
    and scan_updates: "inv s \<Longrightarrow> ts_watermark ops s \<le> from \<Longrightarrow> from \<le> to \<Longrightarrow>
      \<exists>ups. ts_scan_updates ops s r from to = Inr ups \<and>
        (\<forall>t. wsum (update_pairs ups) t = W s r to t - W s r from t)"
    and scan_door: "inv s \<Longrightarrow> from < ts_watermark ops s \<Longrightarrow>
      \<exists>m. ts_scan_updates ops s r from to = Inl (Err (EStore m))"
    and read_range: "inv s \<Longrightarrow> ts_watermark ops s \<le> e \<Longrightarrow>
      \<exists>rows. ts_read_range ops s r e lo hi = Inr rows \<and>
        represents rows (restrict (in_range lo hi) (W s r e))"
    and read_range_on: "inv s \<Longrightarrow> ts_watermark ops s \<le> e \<Longrightarrow>
      \<exists>rows. ts_read_range_on ops s r e col vlo vhi = Inr rows \<and>
        represents rows (restrict (in_range_on col vlo vhi) (W s r e))"
    and lookup: "inv s \<Longrightarrow> ts_watermark ops s \<le> e \<Longrightarrow>
      \<exists>rows. ts_lookup ops s r e col keys = Inr rows \<and>
        represents rows (restrict (has_key col keys) (W s r e))"
    and read_containing: "inv s \<Longrightarrow> ts_watermark ops s \<le> e \<Longrightarrow>
      \<exists>rows. ts_read_containing ops s r e fcol lcol points = Inr rows \<and>
        represents rows (restrict (contains_any fcol lcol points) (W s r e))"
    and touched_since: "inv s \<Longrightarrow>
      \<exists>b. ts_touched_since ops s from to rels = Inr b \<and>
        (\<not> b \<and> from \<le> to \<longrightarrow> (\<forall>r\<in>set rels. \<forall>t. W s r to t = W s r from t))"
    and touched_range_since: "inv s \<Longrightarrow>
      \<exists>b s'. ts_touched_range_since ops from to r lo hi s = (Inr b, s') \<and> inv s' \<and>
        ts_current ops s' = ts_current ops s \<and> ts_watermark ops s' = ts_watermark ops s \<and>
        W s' = W s \<and>
        (\<not> b \<and> from \<le> to \<longrightarrow> (\<forall>t. in_range lo hi t \<longrightarrow> W s r to t = W s r from t))"
    and compare: "inv s \<Longrightarrow> ts_watermark ops s \<le> a \<Longrightarrow> ts_watermark ops s \<le> b \<Longrightarrow>
      \<exists>rows. ts_compare ops s r a b = Inr rows \<and> compares rows (W s r a) (W s r b)"
    and consolidate: "inv s \<Longrightarrow>
      \<exists>e s'. ts_consolidate ops up_to s = (Inr e, s') \<and> inv s' \<and> e = ts_watermark ops s' \<and>
        ts_watermark ops s \<le> e \<and> e \<le> max (ts_watermark ops s) up_to \<and>
        ts_current ops s' = ts_current ops s \<and>
        (\<forall>r e' t. e \<le> e' \<longrightarrow> W s' r e' t = W s r e' t)"
    and reader_edition: "er_edition (ts_reader_at ops s e) = e"
    and reader_read: "inv s \<Longrightarrow> er_read (ts_reader_at ops s e) r = ts_read_at ops s r e"
    and reader_range: "inv s \<Longrightarrow> ts_watermark ops s \<le> e \<Longrightarrow>
      \<exists>rows. er_read_range (ts_reader_at ops s e) r lo hi = Inr rows \<and>
        represents rows (restrict (in_range lo hi) (W s r e))"
    and reader_range_on: "inv s \<Longrightarrow> ts_watermark ops s \<le> e \<Longrightarrow>
      \<exists>rows. er_read_range_on (ts_reader_at ops s e) r col vlo vhi = Inr rows \<and>
        represents rows (restrict (in_range_on col vlo vhi) (W s r e))"
    and reader_containing: "inv s \<Longrightarrow> ts_watermark ops s \<le> e \<Longrightarrow>
      \<exists>rows. er_read_containing (ts_reader_at ops s e) r fcol lcol points = Inr rows \<and>
        represents rows (restrict (contains_any fcol lcol points) (W s r e))"
    and reader_touched: "inv s \<Longrightarrow>
      \<exists>b. er_touched_since (ts_reader_at ops s e) from rels = Inr b \<and>
        (\<not> b \<and> from \<le> e \<longrightarrow> (\<forall>r\<in>set rels. \<forall>t. W s r e t = W s r from t))"

section \<open>The defaults meet the contract\<close>

text \<open>What a store without overrides promises: the required methods, with all history kept.\<close>

locale base_store =
  fixes current :: "'s \<Rightarrow> edition"
    and commit_fn :: "upd list \<Rightarrow> ('s, edition) op"
    and commit_if_fn :: "precond list \<Rightarrow> upd list \<Rightarrow> ('s, edition option) op"
    and read :: "'s read_fn"
    and scan :: "'s \<Rightarrow> rel_id \<Rightarrow> edition \<Rightarrow> edition \<Rightarrow> update list result"
    and inv :: "'s \<Rightarrow> bool"
    and W :: "'s \<Rightarrow> rel_id \<Rightarrow> edition \<Rightarrow> tuple \<Rightarrow> diff"
  assumes base_future: "inv s \<Longrightarrow> current s \<le> e \<Longrightarrow> W s r e t = W s r (current s) t"
    and base_commit: "inv s \<Longrightarrow> \<exists>s'. commit_fn us s = (Inr (Suc (current s)), s') \<and> inv s' \<and>
        current s' = Suc (current s) \<and> advances (W s) (current s) us (W s')"
    and base_commit_if_won: "inv s \<Longrightarrow> holds_all (W s) (current s) pre \<Longrightarrow>
      \<exists>s'. commit_if_fn pre us s = (Inr (Some (Suc (current s))), s') \<and> inv s' \<and>
        current s' = Suc (current s) \<and> advances (W s) (current s) us (W s')"
    and base_commit_if_lost: "inv s \<Longrightarrow> \<not> holds_all (W s) (current s) pre \<Longrightarrow>
      commit_if_fn pre us s = (Inr None, s)"
    and base_read: "inv s \<Longrightarrow>
      \<exists>rows. read s r e = Inr rows \<and> canonical rows \<and> (\<forall>t. wsum rows t = W s r e t)"
    and base_scan: "inv s \<Longrightarrow> from \<le> to \<Longrightarrow> \<exists>ups. scan s r from to = Inr ups \<and>
        (\<forall>t. wsum (update_pairs ups) t = W s r to t - W s r from t)"

lemma side_put_osorted: "osorted sides \<Longrightarrow> osorted (foldl (side_put put) sides rows)"
  by (induction rows arbitrary: sides) (auto simp: side_put_def)

lemma side_put_get:
  assumes "osorted sides" and "distinct (map fst rows)"
  shows "om_get (foldl (side_put put) sides rows) t =
    (case map_of rows t of None \<Rightarrow> om_get sides t
     | Some d \<Rightarrow> Some (put (case om_get sides t of None \<Rightarrow> (0, 0) | Some p \<Rightarrow> p) d))"
  using assms
proof (induction rows arbitrary: sides)
  case Nil
  then show ?case by simp
next
  case (Cons p rows)
  obtain u d where p: "p = (u, d)" by (cases p)
  have o: "osorted (side_put put sides p)" using Cons.prems by (simp add: side_put_def p)
  have u: "map_of rows u = None" using Cons.prems by (simp add: p map_of_eq_None_iff)
  show ?case
    using Cons.IH [OF o] Cons.prems u
    by (auto simp: p side_put_def split: option.splits)
qed

lemma represents_map_of:
  "represents rows w \<Longrightarrow> map_of rows t = (if w t = 0 then None else Some (w t))"
proof -
  assume r: "represents rows w"
  then have "map_of rows t = Some d \<longleftrightarrow> (t, d) \<in> set rows" for d
    by (simp add: represents_def)
  with r show ?thesis by (cases "map_of rows t") (auto simp: represents_def)
qed

lemma default_compare_compares:
  assumes "read s r a = Inr ra" "represents ra wa" "read s r b = Inr rb" "represents rb wb"
  shows "\<exists>rows. default_compare read s r a b = Inr rows \<and> compares rows wa wb"
proof -
  let ?s1 = "foldl (side_put (\<lambda>(wa, wb) d. (d, wb))) [] ra"
  let ?s2 = "foldl (side_put (\<lambda>(wa, wb) d. (wa, d))) ?s1 rb"
  have o1: "osorted ?s1" by (rule side_put_osorted) simp
  have o2: "osorted ?s2" by (rule side_put_osorted) (rule o1)
  have d: "distinct (map fst ra)" "distinct (map fst rb)" using assms by (auto simp: represents_def)
  have get: "om_get ?s2 t = (if wa t = 0 \<and> wb t = 0 then None else Some (wa t, wb t))" for t
    by (simp add: side_put_get [OF o1 d(2)] side_put_get [OF osorted_Nil d(1)]
        represents_map_of [OF assms(2)] represents_map_of [OF assms(4)])
  have "compares (filter (\<lambda>(t, a, b). a \<noteq> b) ?s2) wa wb"
    using o2 by (auto simp: compares_def om_get_in_iff [OF o2, symmetric] get split: if_splits)
  then show ?thesis by (simp add: default_compare_def assms)
qed

lemma with_defaults_sel [simp]:
  fixes c cm ci rd sc defines "o' \<equiv> with_defaults c cm ci rd sc"
  shows "ts_current o' = c" "ts_watermark o' = (\<lambda>s. 0)" "ts_commit o' = cm" "ts_commit_if o' = ci"
    "ts_read_at o' = rd" "ts_scan_updates o' = sc"
    "ts_consolidate o' up_to s = (Inr 0, s)"
    "ts_read_range o' s r e lo hi = rbind (rd s r e) (\<lambda>rows. Inr (keep_rows (in_range lo hi) rows))"
    "ts_read_range_on o' s r e col vlo vhi =
       rbind (rd s r e) (\<lambda>rows. Inr (keep_rows (in_range_on col vlo vhi) rows))"
    "ts_lookup o' s r e col keys = rbind (rd s r e) (\<lambda>rows. Inr (keep_rows (has_key col keys) rows))"
    "ts_read_containing o' s r e fc lc points =
       rbind (rd s r e) (\<lambda>rows. Inr (keep_rows (contains_any fc lc points) rows))"
    "ts_touched_since o' s from to rels = Inr True"
    "ts_touched_range_since o' from to r lo hi s = (Inr True, s)"
    "ts_compare o' = default_compare rd"
    "er_edition (ts_reader_at o' s e) = e" "er_read (ts_reader_at o' s e) r = rd s r e"
    "er_read_range (ts_reader_at o' s e) r lo hi =
       rbind (rd s r e) (\<lambda>rows. Inr (keep_rows (in_range lo hi) rows))"
    "er_read_range_on (ts_reader_at o' s e) r col vlo vhi =
       rbind (rd s r e) (\<lambda>rows. Inr (keep_rows (in_range_on col vlo vhi) rows))"
    "er_read_containing (ts_reader_at o' s e) r fc lc points =
       rbind (rd s r e) (\<lambda>rows. Inr (keep_rows (contains_any fc lc points) rows))"
    "er_touched_since (ts_reader_at o' s e) from rels = Inr (\<not> e \<le> from)"
  by (simp_all add: o'_def with_defaults_def Let_def default_watermark_def edition_zero_def
      default_read_range_def default_read_range_on_def default_lookup_def
      default_read_containing_def default_touched_since_def default_touched_range_since_def
      default_consolidate_def forwarding_reader_def fun_eq_iff)

context base_store
begin

lemma base_represents: "inv s \<Longrightarrow> \<exists>rows. read s r e = Inr rows \<and> represents rows (W s r e)"
proof -
  assume "inv s"
  then obtain rows where rows: "read s r e = Inr rows" "canonical rows" "\<And>t. wsum rows t = W s r e t"
    using base_read by blast
  have "represents rows (wsum rows)" using rows(2) by (rule represents_canonical)
  also have "wsum rows = W s r e" using rows(3) by auto
  finally show ?thesis using rows(1) by blast
qed

lemma base_keep: "inv s \<Longrightarrow>
  \<exists>rows. rbind (read s r e) (\<lambda>rows. Inr (keep_rows P rows)) = Inr rows \<and>
    represents rows (restrict P (W s r e))"
  using base_represents [of s r e] represents_keep_rows by auto

lemma base_compare: "inv s \<Longrightarrow>
  \<exists>rows. default_compare read s r a b = Inr rows \<and> compares rows (W s r a) (W s r b)"
proof -
  assume i: "inv s"
  obtain ra rb where "read s r a = Inr ra" "represents ra (W s r a)"
    "read s r b = Inr rb" "represents rb (W s r b)"
    using base_represents [OF i] by blast
  then show ?thesis by (rule default_compare_compares)
qed

end

sublocale base_store \<subseteq> full: trace_store
  "with_defaults current commit_fn commit_if_fn read scan" inv W
  by unfold_locales
    (simp_all add: base_commit base_commit_if_won base_commit_if_lost base_read base_scan
      base_keep base_compare, (rule base_future, assumption+)?, (blast dest: le_antisym)+)

end
