(* ===== verification/Canopy.thy ===== *)
theory Canopy
  imports Trace_Store
begin

text \<open>
  The canopy (\<^verbatim>\<open>grmpl-ent/src/canopy.rs\<close>): the standing interests of watchers in
  key ranges of relations, and the routing of a commit's updates to the interests they
  touch. The interests are an ordered map keyed by relation, low endpoint and id. The
  pruned descent of the source is given on trees of the shape it walks and shown to find
  exactly what a scan of the entries finds.
\<close>

section \<open>Endorsements and interests\<close>

type_synonym interest_id = nat
type_synonym endorsement = u64
type_synonym interest_key = "rel_id \<times> tuple \<times> interest_id"
type_synonym interest_val = "tuple \<times> endorsement"
type_synonym interests = "(interest_key \<times> interest_val) list"

unbundle bit_operations_syntax

definition endorsement_all :: endorsement where
  "endorsement_all = - 1"

definition endorsement_none :: endorsement where
  "endorsement_none = 0"

definition dominates :: "endorsement \<Rightarrow> endorsement \<Rightarrow> bool" where
  "dominates e required \<longleftrightarrow> e AND required = required"

record canopy =
  cn_next :: nat
  cn_enf :: interests

definition canopy_new :: canopy where
  "canopy_new = \<lparr>cn_next = 0, cn_enf = []\<rparr>"

definition register_endorsed :: "rel_id \<Rightarrow> tuple \<Rightarrow> tuple \<Rightarrow> endorsement \<Rightarrow> canopy \<Rightarrow> interest_id \<times> canopy" where
  "register_endorsed rel lo hi endorse c =
     (let iid = cn_next c in
      (iid, c\<lparr>cn_next := cn_next c + 1, cn_enf := om_put (rel, lo, iid) (hi, endorse) (cn_enf c)\<rparr>))"

definition register :: "rel_id \<Rightarrow> tuple \<Rightarrow> tuple \<Rightarrow> canopy \<Rightarrow> interest_id \<times> canopy" where
  "register rel lo hi c = register_endorsed rel lo hi endorsement_all c"

definition unregister :: "interest_id \<Rightarrow> canopy \<Rightarrow> canopy" where
  "unregister iid c =
     (case find (\<lambda>((r, lo, i), v). i = iid) (cn_enf c) of
        Some (k, v) \<Rightarrow> c\<lparr>cn_enf := om_del k (cn_enf c)\<rparr>
      | None \<Rightarrow> c)"

definition canopy_is_empty :: "canopy \<Rightarrow> bool" where
  "canopy_is_empty c \<longleftrightarrow> cn_enf c = []"

section \<open>Routing\<close>

text \<open>Which entries a point, or a span, touches.\<close>

fun stabbed :: "rel_id \<Rightarrow> tuple \<Rightarrow> endorsement \<Rightarrow> interest_key \<times> interest_val \<Rightarrow> bool" where
  "stabbed rel point required ((r, lo, iid), (hi, endorse)) \<longleftrightarrow>
     r = rel \<and> lo \<le> point \<and> point < hi \<and> dominates endorse required"

fun overlapped :: "rel_id \<Rightarrow> tuple \<Rightarrow> tuple \<Rightarrow> interest_key \<times> interest_val \<Rightarrow> bool" where
  "overlapped rel lo hi ((r, ilo, iid), (ihi, endorse)) \<longleftrightarrow> r = rel \<and> ilo < hi \<and> lo < ihi"

fun entry_id :: "interest_key \<times> interest_val \<Rightarrow> interest_id" where
  "entry_id ((r, lo, iid), v) = iid"

definition stab_flat :: "rel_id \<Rightarrow> tuple \<Rightarrow> endorsement \<Rightarrow> interests \<Rightarrow> interest_id list" where
  "stab_flat rel point required es = map entry_id (filter (stabbed rel point required) es)"

definition overlap_flat :: "rel_id \<Rightarrow> tuple \<Rightarrow> tuple \<Rightarrow> interests \<Rightarrow> interest_id list" where
  "overlap_flat rel lo hi es = map entry_id (filter (overlapped rel lo hi) es)"

definition route_endorsed :: "canopy \<Rightarrow> upd list \<Rightarrow> endorsement \<Rightarrow> interest_id list" where
  "route_endorsed c updates required =
     remdups_adj (sort (concat (map (\<lambda>(rel, t, d). stab_flat rel t required (cn_enf c)) updates)))"

definition route :: "canopy \<Rightarrow> upd list \<Rightarrow> interest_id list" where
  "route c updates = route_endorsed c updates endorsement_none"

definition route_span :: "canopy \<Rightarrow> rel_id \<Rightarrow> tuple \<Rightarrow> tuple \<Rightarrow> interest_id list" where
  "route_span c rel lo hi = (if lo < hi then sort (overlap_flat rel lo hi (cn_enf c)) else [])"

section \<open>The pruned descent\<close>

text \<open>
  The enfilade the interests live in, as the descent sees it: leaves of entries and inner
  nodes of separator keys between children. A subtree's measure is its greatest high
  endpoint and the union of its endorsements.
\<close>

datatype canopy_enf = CLeaf interests | CInner "interest_key list" "canopy_enf list"

record reach =
  max_hi :: "tuple option"
  endorse :: endorsement

definition reach_empty :: reach where
  "reach_empty = \<lparr>max_hi = None, endorse = endorsement_none\<rparr>"

fun reach_entry :: "interest_key \<times> interest_val \<Rightarrow> reach" where
  "reach_entry (k, (hi, e)) = \<lparr>max_hi = Some hi, endorse = e\<rparr>"

definition reach_combine :: "reach \<Rightarrow> reach \<Rightarrow> reach" where
  "reach_combine l r = \<lparr>
     max_hi = (case (max_hi l, max_hi r) of
         (None, h) \<Rightarrow> h
       | (h, None) \<Rightarrow> h
       | (Some a, Some b) \<Rightarrow> Some (max a b)),
     endorse = endorse l OR endorse r\<rparr>"

definition reach_all :: "reach list \<Rightarrow> reach" where
  "reach_all rs = foldr reach_combine rs reach_empty"

fun reach_of :: "canopy_enf \<Rightarrow> reach" where
  "reach_of (CLeaf es) = reach_all (map reach_entry es)"
| "reach_of (CInner ks cs) = reach_all (map reach_of cs)"

fun enf_entries :: "canopy_enf \<Rightarrow> interests" where
  "enf_entries (CLeaf es) = es"
| "enf_entries (CInner ks cs) = concat (map enf_entries cs)"

text \<open>
  \<open>stab\<close> and its loop over an inner node: the key before a child ends the loop once it
  lies past the point, the key after it skips a child that lies before the relation.
\<close>

definition clears :: "tuple \<Rightarrow> reach \<Rightarrow> bool" where
  "clears point m \<longleftrightarrow> (case max_hi m of None \<Rightarrow> False | Some h \<Rightarrow> point < h)"

fun key_past :: "rel_id \<Rightarrow> (tuple \<Rightarrow> bool) \<Rightarrow> interest_key option \<Rightarrow> bool" where
  "key_past rel past None \<longleftrightarrow> False"
| "key_past rel past (Some (kr, klo, iid)) \<longleftrightarrow> rel < kr \<or> kr = rel \<and> past klo"

fun key_before :: "rel_id \<Rightarrow> interest_key list \<Rightarrow> bool" where
  "key_before rel [] \<longleftrightarrow> False"
| "key_before rel ((kr, klo, iid) # ks) \<longleftrightarrow> kr < rel"

definition next_key :: "interest_key list \<Rightarrow> interest_key option" where
  "next_key ks = (case ks of [] \<Rightarrow> None | k # _ \<Rightarrow> Some k)"

fun stab :: "rel_id \<Rightarrow> tuple \<Rightarrow> endorsement \<Rightarrow> canopy_enf \<Rightarrow> interest_id list"
  and stab_kids :: "rel_id \<Rightarrow> tuple \<Rightarrow> endorsement \<Rightarrow> interest_key option \<Rightarrow> interest_key list \<Rightarrow>
    canopy_enf list \<Rightarrow> interest_id list" where
  "stab rel point required (CLeaf es) =
     (let m = reach_of (CLeaf es) in
      if \<not> clears point m then [] else if \<not> dominates (endorse m) required then []
      else stab_flat rel point required es)"
| "stab rel point required (CInner ks cs) =
     (let m = reach_of (CInner ks cs) in
      if \<not> clears point m then [] else if \<not> dominates (endorse m) required then []
      else stab_kids rel point required None ks cs)"
| "stab_kids rel point required prev ks [] = []"
| "stab_kids rel point required prev ks (c # cs) =
     (if key_past rel (\<lambda>klo. point < klo) prev then []
      else if key_before rel ks then stab_kids rel point required (next_key ks) (tl ks) cs
      else stab rel point required c @ stab_kids rel point required (next_key ks) (tl ks) cs)"

fun overlap :: "rel_id \<Rightarrow> tuple \<Rightarrow> tuple \<Rightarrow> canopy_enf \<Rightarrow> interest_id list"
  and overlap_kids :: "rel_id \<Rightarrow> tuple \<Rightarrow> tuple \<Rightarrow> interest_key option \<Rightarrow> interest_key list \<Rightarrow>
    canopy_enf list \<Rightarrow> interest_id list" where
  "overlap rel lo hi (CLeaf es) =
     (if \<not> clears lo (reach_of (CLeaf es)) then [] else overlap_flat rel lo hi es)"
| "overlap rel lo hi (CInner ks cs) =
     (if \<not> clears lo (reach_of (CInner ks cs)) then []
      else overlap_kids rel lo hi None ks cs)"
| "overlap_kids rel lo hi prev ks [] = []"
| "overlap_kids rel lo hi prev ks (c # cs) =
     (if key_past rel (\<lambda>klo. hi \<le> klo) prev then []
      else if key_before rel ks then overlap_kids rel lo hi (next_key ks) (tl ks) cs
      else overlap rel lo hi c @ overlap_kids rel lo hi (next_key ks) (tl ks) cs)"

text \<open>A search tree: the separators lie between the entries of the children around them.\<close>

fun search_tree :: "canopy_enf \<Rightarrow> bool"
  and search_kids :: "interest_key option \<Rightarrow> interest_key list \<Rightarrow> canopy_enf list \<Rightarrow> bool" where
  "search_tree (CLeaf es) \<longleftrightarrow> True"
| "search_tree (CInner ks cs) \<longleftrightarrow> length cs = Suc (length ks) \<and> search_kids None ks cs"
| "search_kids prev ks [] \<longleftrightarrow> True"
| "search_kids prev ks (c # cs) \<longleftrightarrow> search_tree c \<and>
     (\<forall>p. prev = Some p \<longrightarrow> (\<forall>e\<in>set (concat (map enf_entries (c # cs))). p \<le> fst e)) \<and>
     (\<forall>k. next_key ks = Some k \<longrightarrow> (\<forall>e\<in>set (enf_entries c). fst e < k)) \<and>
     search_kids (next_key ks) (tl ks) cs"

subsection \<open>The descent finds what the scan finds\<close>

lemma reach_all_covers:
  assumes "r \<in> set rs"
  shows "max_hi r = Some h \<Longrightarrow> \<exists>h'. max_hi (reach_all rs) = Some h' \<and> h \<le> h'"
    and "dominates (endorse r) q \<Longrightarrow> dominates (endorse (reach_all rs)) q"
proof -
  have dom: "dominates (a OR b) q" if "dominates a q \<or> dominates b q" for a b
    using that unfolding dominates_def by (auto simp: bit_eq_iff bit_and_iff bit_or_iff)
  from assms show "max_hi r = Some h \<Longrightarrow> \<exists>h'. max_hi (reach_all rs) = Some h' \<and> h \<le> h'"
    by (induction rs)
      (force simp: reach_all_def reach_combine_def le_max_iff_disj split: option.splits)+
  from assms show "dominates (endorse r) q \<Longrightarrow> dominates (endorse (reach_all rs)) q"
    by (induction rs) (auto simp: reach_all_def reach_combine_def intro: dom)
qed

lemma reach_of_entry:
  assumes "e \<in> set (enf_entries t)"
  shows "\<exists>h'. max_hi (reach_of t) = Some h' \<and> fst (snd e) \<le> h'"
    and "dominates (snd (snd e)) q \<Longrightarrow> dominates (endorse (reach_of t)) q"
proof -
  have "(\<exists>h'. max_hi (reach_of t) = Some h' \<and> fst (snd e) \<le> h') \<and>
    (dominates (snd (snd e)) q \<longrightarrow> dominates (endorse (reach_of t)) q)"
    using assms
  proof (induction t rule: reach_of.induct)
    case (1 es)
    then have r: "reach_entry e \<in> set (map reach_entry es)" by auto
    show ?case using reach_all_covers [OF r] by (cases e rule: reach_entry.cases) auto
  next
    case (2 ks cs)
    then obtain c where c: "c \<in> set cs" "e \<in> set (enf_entries c)" by auto
    then have r: "reach_of c \<in> set (map reach_of cs)" by auto
    from 2(1) [OF c] show ?case using reach_all_covers [OF r] by (auto intro: order_trans)
  qed
  then show "\<exists>h'. max_hi (reach_of t) = Some h' \<and> fst (snd e) \<le> h'"
    and "dominates (snd (snd e)) q \<Longrightarrow> dominates (endorse (reach_of t)) q" by auto
qed

lemma stab_pruned:
  assumes "\<not> clears point (reach_of t) \<or> \<not> dominates (endorse (reach_of t)) required"
  shows "stab_flat rel point required (enf_entries t) = []"
proof -
  have "\<not> stabbed rel point required e" if "e \<in> set (enf_entries t)" for e
    using reach_of_entry [OF that] assms
    by (cases "(rel, point, required, e)" rule: stabbed.cases) (auto simp: clears_def)
  then show ?thesis by (simp add: stab_flat_def)
qed

lemma overlap_pruned:
  assumes "\<not> clears lo (reach_of t)"
  shows "overlap_flat rel lo hi (enf_entries t) = []"
proof -
  have "\<not> overlapped rel lo hi e" if "e \<in> set (enf_entries t)" for e
    using reach_of_entry [OF that] assms
    by (cases "(rel, lo, hi, e)" rule: overlapped.cases) (auto simp: clears_def)
  then show ?thesis by (simp add: overlap_flat_def)
qed

lemma key_past_nothing:
  assumes "key_past rel past prev" "\<And>p. prev = Some p \<Longrightarrow> p \<le> fst e"
    and "\<And>a b. past a \<Longrightarrow> a \<le> b \<Longrightarrow> past b"
  shows "fst (fst e) \<noteq> rel \<or> past (fst (snd (fst e)))"
  using assms by (cases "(rel, past, prev)" rule: key_past.cases) (fastforce simp: less_eq_prod_def)+

lemma key_before_nothing:
  assumes "key_before rel ks" "\<And>k. next_key ks = Some k \<Longrightarrow> fst e < k"
  shows "fst (fst e) \<noteq> rel"
  using assms by (cases "(rel, ks)" rule: key_before.cases) (fastforce simp: less_prod_def next_key_def)+

lemma stab_exact:
  "search_tree t \<Longrightarrow> stab rel point required t = stab_flat rel point required (enf_entries t)"
  and "search_kids prev ks cs \<Longrightarrow> stab_kids rel point required prev ks cs =
    stab_flat rel point required (concat (map enf_entries cs))"
proof (induction rel point required t and rel point required prev ks cs rule: stab_stab_kids.induct)
  case (1 rel point required es)
  then show ?case using stab_pruned [of point "CLeaf es" required rel] by (auto simp: Let_def)
next
  case (2 rel point required ks cs)
  then show ?case using stab_pruned [of point "CInner ks cs" required rel] by (auto simp: Let_def)
next
  case (3 rel point required prev ks)
  then show ?case by (simp add: stab_flat_def)
next
  case (4 rel point required prev ks c cs)
  show ?case
  proof (cases "key_past rel (\<lambda>klo. point < klo) prev")
    case True
    have kids: "\<forall>p. prev = Some p \<longrightarrow> (\<forall>e\<in>set (concat (map enf_entries (c # cs))). p \<le> fst e)"
      using 4(4) unfolding search_kids.simps by blast
    have "\<not> stabbed rel point required e" if "e \<in> set (concat (map enf_entries (c # cs)))" for e
    proof -
      have "fst (fst e) \<noteq> rel \<or> point < fst (snd (fst e))"
        by (rule key_past_nothing [OF True]) (use kids that in blast, rule less_le_trans)
      then show ?thesis by (cases "(rel, point, required, e)" rule: stabbed.cases) auto
    qed
    then have "stab_flat rel point required (concat (map enf_entries (c # cs))) = []"
      by (simp add: stab_flat_def del: concat.simps map_concat)
    with True show ?thesis by simp
  next
    case False
    note * = 4(1,2,3) [OF False] 4(4)
    have "stab_flat rel point required (enf_entries c) = []" if "key_before rel ks"
    proof -
      have "\<not> stabbed rel point required e" if "e \<in> set (enf_entries c)" for e
      proof -
        have "fst (fst e) \<noteq> rel"
          by (rule key_before_nothing [OF \<open>key_before rel ks\<close>])
            (use 4(4) that in \<open>unfold search_kids.simps, blast\<close>)
        then show ?thesis by (cases "(rel, point, required, e)" rule: stabbed.cases) auto
      qed
      then show ?thesis by (simp add: stab_flat_def)
    qed
    with False * show ?thesis by (auto simp: stab_flat_def)
  qed
qed

lemma overlap_exact:
  "search_tree t \<Longrightarrow> overlap rel lo hi t = overlap_flat rel lo hi (enf_entries t)"
  and "search_kids prev ks cs \<Longrightarrow> overlap_kids rel lo hi prev ks cs =
    overlap_flat rel lo hi (concat (map enf_entries cs))"
proof (induction rel lo hi t and rel lo hi prev ks cs rule: overlap_overlap_kids.induct)
  case (1 rel lo hi es)
  then show ?case using overlap_pruned [of lo "CLeaf es" rel hi] by auto
next
  case (2 rel lo hi ks cs)
  then show ?case using overlap_pruned [of lo "CInner ks cs" rel hi] by auto
next
  case (3 rel lo hi prev ks)
  then show ?case by (simp add: overlap_flat_def)
next
  case (4 rel lo hi prev ks c cs)
  show ?case
  proof (cases "key_past rel (\<lambda>klo. hi \<le> klo) prev")
    case True
    have kids: "\<forall>p. prev = Some p \<longrightarrow> (\<forall>e\<in>set (concat (map enf_entries (c # cs))). p \<le> fst e)"
      using 4(4) unfolding search_kids.simps by blast
    have "\<not> overlapped rel lo hi e" if "e \<in> set (concat (map enf_entries (c # cs)))" for e
    proof -
      have "fst (fst e) \<noteq> rel \<or> hi \<le> fst (snd (fst e))"
        by (rule key_past_nothing [OF True]) (use kids that in blast, rule order_trans)
      then show ?thesis by (cases "(rel, lo, hi, e)" rule: overlapped.cases) auto
    qed
    then have "overlap_flat rel lo hi (concat (map enf_entries (c # cs))) = []"
      by (simp add: overlap_flat_def del: concat.simps map_concat)
    with True show ?thesis by simp
  next
    case False
    note * = 4(1,2,3) [OF False] 4(4)
    have "overlap_flat rel lo hi (enf_entries c) = []" if "key_before rel ks"
    proof -
      have "\<not> overlapped rel lo hi e" if "e \<in> set (enf_entries c)" for e
      proof -
        have "fst (fst e) \<noteq> rel"
          by (rule key_before_nothing [OF \<open>key_before rel ks\<close>])
            (use 4(4) that in \<open>unfold search_kids.simps, blast\<close>)
        then show ?thesis by (cases "(rel, lo, hi, e)" rule: overlapped.cases) auto
      qed
      then show ?thesis by (simp add: overlap_flat_def)
    qed
    with False * show ?thesis by (auto simp: overlap_flat_def)
  qed
qed

section \<open>Laws of the canopy\<close>

definition canopy_ok :: "canopy \<Rightarrow> bool" where
  "canopy_ok c \<longleftrightarrow> osorted (cn_enf c) \<and> (\<forall>(k, v)\<in>set (cn_enf c). snd (snd k) < cn_next c)"

lemma canopy_new_ok: "canopy_ok canopy_new"
  by (simp add: canopy_ok_def canopy_new_def)

lemma register_ok:
  assumes "canopy_ok c" "register rel lo hi c = (iid, c')"
  shows "canopy_ok c'" "iid = cn_next c"
    "((rel, lo, iid), (hi, endorsement_all)) \<in> set (cn_enf c')"
    "set (cn_enf c) \<subseteq> set (cn_enf c')"
    "set (cn_enf c') \<subseteq> insert ((rel, lo, iid), (hi, endorsement_all)) (set (cn_enf c))"
proof -
  have c': "c' = c\<lparr>cn_next := cn_next c + 1,
      cn_enf := om_put (rel, lo, cn_next c) (hi, endorsement_all) (cn_enf c)\<rparr>"
    and iid: "iid = cn_next c"
    using assms(2) by (auto simp: register_def register_endorsed_def Let_def)
  have s: "osorted (cn_enf c)" using assms(1) by (simp add: canopy_ok_def)
  have new: "(rel, lo, iid) \<notin> fst ` set (cn_enf c)"
    using assms(1) by (auto simp: canopy_ok_def iid)
  show "iid = cn_next c" by (rule iid)
  have mem: "(k, v) \<in> set (cn_enf c') \<longleftrightarrow>
      (if k = (rel, lo, iid) then v = (hi, endorsement_all) else (k, v) \<in> set (cn_enf c))" for k v
    using om_get_put [OF s, of "(rel, lo, iid)" "(hi, endorsement_all)" k]
    by (simp add: c' iid om_get_in_iff [symmetric] s osorted_put [OF s]) auto
  show "((rel, lo, iid), (hi, endorsement_all)) \<in> set (cn_enf c')" by (simp add: mem)
  show "set (cn_enf c) \<subseteq> set (cn_enf c')"
  proof
    fix p assume "p \<in> set (cn_enf c)"
    moreover from this new have "fst p \<noteq> (rel, lo, iid)" by (metis image_eqI)
    ultimately show "p \<in> set (cn_enf c')" using mem [of "fst p" "snd p"] by simp
  qed
  show sub: "set (cn_enf c') \<subseteq> insert ((rel, lo, iid), (hi, endorsement_all)) (set (cn_enf c))"
  proof
    fix p assume "p \<in> set (cn_enf c')"
    then show "p \<in> insert ((rel, lo, iid), (hi, endorsement_all)) (set (cn_enf c))"
      using mem [of "fst p" "snd p"] prod.collapse [of p] by (metis insertCI)
  qed
  have "osorted (cn_enf c')" by (simp add: c' s)
  moreover have "cn_next c' = Suc (cn_next c)" by (simp add: c')
  ultimately show "canopy_ok c'"
    using assms(1) sub unfolding canopy_ok_def iid by fastforce
qed

lemma dominates_none [simp]: "dominates e endorsement_none"
  by (simp add: dominates_def endorsement_none_def)

lemma stabbed_iff: "stabbed r t endorsement_none e \<and> entry_id e = iid \<longleftrightarrow>
  (\<exists>lo hi en. e = ((r, lo, iid), (hi, en)) \<and> lo \<le> t \<and> t < hi)"
  by (cases "(r, t, endorsement_none, e)" rule: stabbed.cases) auto

lemma mem_stab_flat: "iid \<in> set (stab_flat r t endorsement_none es) \<longleftrightarrow>
  (\<exists>lo hi en. ((r, lo, iid), (hi, en)) \<in> set es \<and> lo \<le> t \<and> t < hi)"
proof -
  have "iid \<in> set (stab_flat r t endorsement_none es) \<longleftrightarrow>
      (\<exists>e\<in>set es. stabbed r t endorsement_none e \<and> entry_id e = iid)"
    unfolding stab_flat_def by auto
  then show ?thesis unfolding stabbed_iff by blast
qed

lemma set_route: "iid \<in> set (route c us) \<longleftrightarrow>
  (\<exists>r t d lo hi e. (r, t, d) \<in> set us \<and> ((r, lo, iid), (hi, e)) \<in> set (cn_enf c) \<and> lo \<le> t \<and> t < hi)"
proof -
  have "iid \<in> set (route c us) \<longleftrightarrow>
    (\<exists>(r, t, d)\<in>set us. iid \<in> set (stab_flat r t endorsement_none (cn_enf c)))"
    by (simp add: route_def route_endorsed_def case_prod_beta)
  then show ?thesis unfolding mem_stab_flat by blast
qed

lemma overlapped_iff: "overlapped rel lo hi e \<and> entry_id e = iid \<longleftrightarrow>
  (\<exists>ilo ihi en. e = ((rel, ilo, iid), (ihi, en)) \<and> ilo < hi \<and> lo < ihi)"
  by (cases "(rel, lo, hi, e)" rule: overlapped.cases) auto

lemma set_route_span: "iid \<in> set (route_span c rel lo hi) \<longleftrightarrow>
  lo < hi \<and> (\<exists>ilo ihi e. ((rel, ilo, iid), (ihi, e)) \<in> set (cn_enf c) \<and> ilo < hi \<and> lo < ihi)"
proof -
  have "iid \<in> set (route_span c rel lo hi) \<longleftrightarrow>
    lo < hi \<and> (\<exists>e\<in>set (cn_enf c). overlapped rel lo hi e \<and> entry_id e = iid)"
    unfolding route_span_def overlap_flat_def by auto
  then show ?thesis unfolding overlapped_iff by blast
qed

lemma remdups_adj_sorted_strict: "sorted xs \<Longrightarrow> sorted_wrt (<) (remdups_adj xs)" for xs :: "nat list"
  by (induction xs rule: remdups_adj.induct) (auto simp: order_le_less)

lemma route_sorted: "sorted_wrt (<) (route c us)"
  by (simp add: route_def route_endorsed_def remdups_adj_sorted_strict)

end
