(* ===== verification/Query.thy ===== *)
theory Query
  imports Trace_Store
begin

text \<open>
  Query plans as values and their evaluation at one edition
  (\<^verbatim>\<open>grmpl-diff/src/query.rs\<close>). \<open>eval_inner\<close> is the source's evaluator, with the
  arrangement cache it threads; \<open>eval_ref\<close> is the same evaluation without a cache, and
  the two are shown to agree. The rounds of a recursive view's loop are bounded by a
  \<open>fuel\<close> argument the source does not have.
\<close>

section \<open>Plans\<close>

datatype agg = Count | Sum nat | Min nat | Max nat

text \<open>
  A closure is a function; \<open>QShared\<close> carries the address of its \<open>Arc\<close>, by which the cache
  knows the node. Names that HOL uses have a \<open>Q\<close> before them.
\<close>

datatype query =
    QRel rel_id
  | QRangeRel rel_id tuple tuple
  | QRangeRelOn rel_id nat val val
  | QMap query "tuple \<Rightarrow> tuple"
  | QFilter query "tuple \<Rightarrow> bool"
  | QProject query "nat list"
  | QJoin query query "nat list" "nat list"
  | QUnion query query
  | QNegate query
  | QDistinct query
  | QReduce query "nat list" agg
  | QRecur
  | QIterate query query
  | QInherit query nat val rel_id
  | QMaterialized query rel_id tuple rel_id entity "(nat list \<times> agg) option"
  | QShared nat query

primrec collect_base_relations :: "query \<Rightarrow> rel_id set" where
  "collect_base_relations (QRel r) = {r}"
| "collect_base_relations (QRangeRel r lo hi) = {r}"
| "collect_base_relations (QRangeRelOn r col lo hi) = {r}"
| "collect_base_relations (QMap input f) = collect_base_relations input"
| "collect_base_relations (QFilter input p) = collect_base_relations input"
| "collect_base_relations (QProject input cols) = collect_base_relations input"
| "collect_base_relations (QJoin left right lk rk) =
     collect_base_relations left \<union> collect_base_relations right"
| "collect_base_relations (QUnion left right) =
     collect_base_relations left \<union> collect_base_relations right"
| "collect_base_relations (QNegate input) = collect_base_relations input"
| "collect_base_relations (QDistinct input) = collect_base_relations input"
| "collect_base_relations (QReduce input key agg) = collect_base_relations input"
| "collect_base_relations QRecur = {}"
| "collect_base_relations (QIterate init step) =
     collect_base_relations init \<union> collect_base_relations step"
| "collect_base_relations (QInherit input col key ctx) = insert ctx (collect_base_relations input)"
| "collect_base_relations (QMaterialized plan into prefix cursor_rel key reduce) =
     collect_base_relations plan"
| "collect_base_relations (QShared a inner) = collect_base_relations inner"

text \<open>A \<open>BTreeSet\<close> hands its elements out in ascending order.\<close>

definition base_relations :: "query \<Rightarrow> rel_id list" where
  "base_relations q = sorted_list_of_set (collect_base_relations q)"

primrec key_span :: "query \<Rightarrow> (rel_id \<times> tuple \<times> tuple) option" where
  "key_span (QRel r) = None"
| "key_span (QRangeRel r lo hi) = Some (r, lo, hi)"
| "key_span (QRangeRelOn r col lo hi) = None"
| "key_span (QMap input f) = key_span input"
| "key_span (QFilter input p) = key_span input"
| "key_span (QProject input cols) = key_span input"
| "key_span (QJoin left right lk rk) = None"
| "key_span (QUnion left right) = None"
| "key_span (QNegate input) = None"
| "key_span (QDistinct input) = key_span input"
| "key_span (QReduce input key agg) = key_span input"
| "key_span QRecur = None"
| "key_span (QIterate init step) = None"
| "key_span (QInherit input col key ctx) = None"
| "key_span (QMaterialized plan into prefix cursor_rel key reduce) = key_span plan"
| "key_span (QShared a inner) = key_span inner"

primrec contains_reduce :: "query \<Rightarrow> bool" where
  "contains_reduce (QReduce input key agg) = True"
| "contains_reduce (QRel r) = False"
| "contains_reduce (QRangeRel r lo hi) = False"
| "contains_reduce (QRangeRelOn r col lo hi) = False"
| "contains_reduce QRecur = False"
| "contains_reduce (QMap input f) = contains_reduce input"
| "contains_reduce (QFilter input p) = contains_reduce input"
| "contains_reduce (QProject input cols) = contains_reduce input"
| "contains_reduce (QNegate a) = contains_reduce a"
| "contains_reduce (QDistinct a) = contains_reduce a"
| "contains_reduce (QShared a inner) = contains_reduce inner"
| "contains_reduce (QMaterialized plan into prefix cursor_rel key reduce) = contains_reduce plan"
| "contains_reduce (QInherit input col key ctx) = contains_reduce input"
| "contains_reduce (QJoin left right lk rk) = (contains_reduce left \<or> contains_reduce right)"
| "contains_reduce (QUnion left right) = (contains_reduce left \<or> contains_reduce right)"
| "contains_reduce (QIterate init step) = (contains_reduce init \<or> contains_reduce step)"

section \<open>Row helpers\<close>

definition row_key :: "tuple \<Rightarrow> nat list \<Rightarrow> val list result" where
  "row_key t cols = rmapM (\<lambda>i. index t i) cols"

definition project_tuple :: "tuple \<Rightarrow> nat list \<Rightarrow> tuple result" where
  "project_tuple t cols = rmapM (\<lambda>i. index t i) cols"

definition concat_tuples :: "tuple \<Rightarrow> tuple \<Rightarrow> tuple" where
  "concat_tuples l r = l @ r"

definition map_rows :: "(tuple \<Rightarrow> tuple) \<Rightarrow> zset \<Rightarrow> zset" where
  "map_rows f child = strip_zeros (zadd_all [] (map (\<lambda>(t, d). (f t, d)) child))"

definition filter_rows :: "(tuple \<Rightarrow> bool) \<Rightarrow> zset \<Rightarrow> zset" where
  "filter_rows pred child = filter (\<lambda>(t, d). pred t) child"

definition project_rows :: "nat list \<Rightarrow> zset \<Rightarrow> zset result" where
  "project_rows cols child =
     rbind (rmapM (\<lambda>(t, d). rbind (project_tuple t cols) (\<lambda>u. Inr (u, d))) child)
       (\<lambda>ps. Inr (strip_zeros (zadd_all [] ps)))"

text \<open>
  The join: the right rows indexed by their key, then each left row paired with the right
  rows under its key; weights multiply.
\<close>

definition index_push ::
  "(val list \<times> rows) list \<Rightarrow> val list \<times> tuple \<times> diff \<Rightarrow> (val list \<times> rows) list" where
  "index_push idx = (\<lambda>(k, p). om_put k ((case om_get idx k of None \<Rightarrow> [] | Some ps \<Rightarrow> ps) @ [p]) idx)"

definition keyed :: "nat list \<Rightarrow> zset \<Rightarrow> (val list \<times> tuple \<times> diff) list result" where
  "keyed cols m = rmapM (\<lambda>(t, d). rbind (row_key t cols) (\<lambda>k. Inr (k, t, d))) m"

definition join_multisets :: "zset \<Rightarrow> nat list \<Rightarrow> zset \<Rightarrow> nat list \<Rightarrow> zset result" where
  "join_multisets left lk right rk =
     rbind (keyed rk right) (\<lambda>rs.
       let idx = foldl index_push [] rs in
       rbind (keyed lk left) (\<lambda>ls.
         Inr (strip_zeros (zadd_all [] (concat (map (\<lambda>(k, lt, ld).
           case om_get idx k of None \<Rightarrow> []
           | Some rs \<Rightarrow> map (\<lambda>(rt, rd). (concat_tuples lt rt, ld * rd)) rs) ls))))))"

definition znegate :: "zset \<Rightarrow> zset" where
  "znegate m = map (\<lambda>(t, d). (t, - d)) m"

definition zunion :: "zset \<Rightarrow> zset \<Rightarrow> zset" where
  "zunion a b = strip_zeros (zmerge a b)"

definition distinct_snapshot :: "zset \<Rightarrow> zset" where
  "distinct_snapshot input = map (\<lambda>(t, d). (t, 1)) (filter (\<lambda>(t, d). 0 < d) input)"

text \<open>Aggregates: \<open>Sum\<close> wraps at 64 bits; an empty group has no \<open>Min\<close> or \<open>Max\<close>.\<close>

definition int_cell :: "val \<Rightarrow> i64" where
  "int_cell v = (case v of VInt n \<Rightarrow> n | _ \<Rightarrow> 0)"

definition column :: "nat \<Rightarrow> tuple list \<Rightarrow> val list result" where
  "column c members = rmapM (\<lambda>t. index t c) members"

fun extreme :: "(val \<Rightarrow> val \<Rightarrow> val) \<Rightarrow> val list \<Rightarrow> val result" where
  "extreme f [] = Inl Panic"
| "extreme f (x # xs) = Inr (foldl f x xs)"

fun fold_agg :: "tuple list \<Rightarrow> agg \<Rightarrow> val result" where
  "fold_agg members Count = Inr (VInt (of_nat (length members)))"
| "fold_agg members (Sum c) =
     rbind (column c members) (\<lambda>vs. Inr (VInt (foldl (\<lambda>acc v. acc + int_cell v) 0 vs)))"
| "fold_agg members (Min c) = rbind (column c members) (extreme min)"
| "fold_agg members (Max c) = rbind (column c members) (extreme max)"

definition group_push :: "(val list \<times> tuple list) list \<Rightarrow> val list \<times> tuple \<times> diff \<Rightarrow>
    (val list \<times> tuple list) list" where
  "group_push groups = (\<lambda>(k, t, d).
     om_put k ((case om_get groups k of None \<Rightarrow> [] | Some ts \<Rightarrow> ts) @ [t]) groups)"

definition reduce_snapshot :: "zset \<Rightarrow> nat list \<Rightarrow> agg \<Rightarrow> zset result" where
  "reduce_snapshot input key_cols agg =
     rbind (keyed key_cols (filter (\<lambda>(t, d). 0 < d) input)) (\<lambda>ks.
       rbind (rmapM (\<lambda>(k, members). rbind (fold_agg members agg) (\<lambda>v. Inr (k @ [v], 1)))
               (foldl group_push [] ks))
         (\<lambda>ps. Inr (zadd_all [] ps)))"

section \<open>Scope inheritance\<close>

definition distinct_cells :: "zset \<Rightarrow> nat \<Rightarrow> val list" where
  "distinct_cells rows col =
     sorted_list_of_set (set (concat (map (\<lambda>(t, d). case get t col of None \<Rightarrow> [] | Some v \<Rightarrow> [v]) rows)))"

text \<open>The live bindings of \<open>key\<close>, as (first, last, value).\<close>

fun live_scope :: "val \<Rightarrow> tuple \<times> diff \<Rightarrow> (val \<times> val \<times> val) option" where
  "live_scope key ([f, l, k, v], d) = (if 0 < d \<and> k = key then Some (f, l, v) else None)"
| "live_scope key p = None"

definition live_scopes :: "val \<Rightarrow> rows \<Rightarrow> (val \<times> val \<times> val) list" where
  "live_scopes key ctx = List.map_filter (live_scope key) ctx"

text \<open>\<open>a\<close> is less specific than \<open>b\<close>: starts earlier, then ends later, then a greater value.\<close>

definition scope_less :: "val \<times> val \<times> val \<Rightarrow> val \<times> val \<times> val \<Rightarrow> bool" where
  "scope_less = (\<lambda>(f, l, v) (f', l', v').
     f < f' \<or> f = f' \<and> (l' < l \<or> l = l' \<and> v' < v))"

text \<open>\<open>Iterator::max_by\<close> keeps the later of two equal elements.\<close>

fun max_scope :: "(val \<times> val \<times> val) list \<Rightarrow> (val \<times> val \<times> val) option" where
  "max_scope [] = None"
| "max_scope (x # xs) = Some (foldl (\<lambda>x y. if scope_less y x then x else y) x xs)"

definition inherit_row :: "nat \<Rightarrow> (val \<times> val \<times> val) list \<Rightarrow> tuple \<Rightarrow> tuple option" where
  "inherit_row col scopes row =
     (case get row col of None \<Rightarrow> None
      | Some e \<Rightarrow>
          (case max_scope (filter (\<lambda>(f, l, v). f \<le> e \<and> e \<le> l) scopes) of None \<Rightarrow> None
           | Some (f, l, v) \<Rightarrow> Some (row @ [v])))"

definition image_rows :: "(tuple \<Rightarrow> tuple option) \<Rightarrow> rows \<Rightarrow> rows" where
  "image_rows f rows =
     concat (map (\<lambda>(t, d). case f t of None \<Rightarrow> [] | Some u \<Rightarrow> [(u, d)]) rows)"

definition inherit :: "zset \<Rightarrow> nat \<Rightarrow> val \<Rightarrow> rows \<Rightarrow> zset" where
  "inherit rows col key ctx =
     strip_zeros (zadd_all [] (image_rows (inherit_row col (live_scopes key ctx)) rows))"

section \<open>Materialized copies\<close>

fun successor :: "val \<Rightarrow> val option" where
  "successor (VEnt e) = (if e = 0xFFFFFFFFFFFFFFFF then None else Some (VEnt (e + 1)))"
| "successor (VInt n) = (if sint n = 2 ^ 63 - 1 then None else Some (VInt (n + 1)))"
| "successor _ = None"

text \<open>\<open>Edition((*e).max(0) as u64)\<close>.\<close>

definition edition_of_int :: "i64 \<Rightarrow> edition" where
  "edition_of_int e = nat (max (sint e) 0)"

fun cursor_of :: "tuple \<times> diff \<Rightarrow> edition option" where
  "cursor_of ([x, VInt e], d) = (if 0 < d then Some (edition_of_int e) else None)"
| "cursor_of p = None"

primrec find_map :: "('a \<Rightarrow> 'b option) \<Rightarrow> 'a list \<Rightarrow> 'b option" where
  "find_map f [] = None"
| "find_map f (x # xs) = (case f x of Some y \<Rightarrow> Some y | None \<Rightarrow> find_map f xs)"

definition cursor_at :: "edition_reader \<Rightarrow> rel_id \<Rightarrow> entity \<Rightarrow> edition option result" where
  "cursor_at reader cursor_rel key =
     (if key = 0xFFFFFFFFFFFFFFFF then Inr None
      else rbind (er_read_range reader cursor_rel [VEnt key] [VEnt (key + 1)])
             (\<lambda>rows. Inr (find_map cursor_of rows)))"

definition drop_prefix :: "nat \<Rightarrow> rows \<Rightarrow> zset" where
  "drop_prefix n rows = strip_zeros (zadd_all [] (map (\<lambda>(t, d). (drop n t, d)) rows))"

definition stored_view ::
  "edition_reader \<Rightarrow> query \<Rightarrow> rel_id \<Rightarrow> tuple \<Rightarrow> rel_id \<Rightarrow> entity \<Rightarrow> zset option result" where
  "stored_view reader plan into prefix cursor_rel key =
     rbind (cursor_at reader cursor_rel key) (\<lambda>c. case c of None \<Rightarrow> Inr None | Some cursor \<Rightarrow>
     rbind (er_touched_since reader cursor (base_relations plan)) (\<lambda>touched.
     if touched then Inr None else
     let n = length prefix in
     rbind (if prefix = [] then er_read reader into
            else (case successor (last prefix) of
                    Some next \<Rightarrow> er_read_range reader into prefix (butlast prefix @ [next])
                  | None \<Rightarrow> rbind (er_read reader into)
                      (\<lambda>rows. Inr (filter (\<lambda>(t, d). n \<le> length t \<and> take n t = prefix) rows))))
       (\<lambda>rows. if \<exists>(t, d)\<in>set rows. length t < n then Inl Panic
               else Inr (Some (drop_prefix n rows)))))"

section \<open>Evaluation at one edition\<close>

type_synonym overrides = "rel_id \<Rightarrow> zset option"
type_synonym arrangements = "nat \<times> edition \<Rightarrow> zset option"

definition overridden :: "overrides option \<Rightarrow> rel_id \<Rightarrow> zset option" where
  "overridden ov r = (case ov of None \<Rightarrow> None | Some f \<Rightarrow> f r)"

definition rel_node :: "edition_reader \<Rightarrow> overrides option \<Rightarrow> rel_id \<Rightarrow> zset result" where
  "rel_node reader ov r =
     (case overridden ov r of Some m \<Rightarrow> Inr m
      | None \<Rightarrow> rbind (er_read reader r) (\<lambda>rows. Inr (from_pairs rows)))"

definition range_node ::
  "edition_reader \<Rightarrow> overrides option \<Rightarrow> rel_id \<Rightarrow> tuple \<Rightarrow> tuple \<Rightarrow> zset result" where
  "range_node reader ov rel lo hi =
     (case overridden ov rel of Some m \<Rightarrow> Inr (filter_rows (in_range lo hi) m)
      | None \<Rightarrow> rbind (er_read_range reader rel lo hi) (\<lambda>rows. Inr (from_pairs rows)))"

definition range_on_node ::
  "edition_reader \<Rightarrow> overrides option \<Rightarrow> rel_id \<Rightarrow> nat \<Rightarrow> val \<Rightarrow> val \<Rightarrow> zset result" where
  "range_on_node reader ov rel col lo hi =
     (case overridden ov rel of Some m \<Rightarrow> Inr (filter_rows (in_range_on col lo hi) m)
      | None \<Rightarrow> rbind (er_read_range_on reader rel col lo hi) (\<lambda>rows. Inr (from_pairs rows)))"

definition inherit_node ::
  "edition_reader \<Rightarrow> overrides option \<Rightarrow> nat \<Rightarrow> val \<Rightarrow> rel_id \<Rightarrow> zset \<Rightarrow> zset result" where
  "inherit_node reader ov col key ctx rows =
     rbind (case overridden ov ctx of Some m \<Rightarrow> Inr m
            | None \<Rightarrow> er_read_containing reader ctx 0 1 (distinct_cells rows col))
       (\<lambda>ctx_rows. Inr (inherit rows col key ctx_rows))"

definition reduce_stored :: "(nat list \<times> agg) option \<Rightarrow> zset \<Rightarrow> zset result" where
  "reduce_stored reduce rows =
     (case reduce of None \<Rightarrow> Inr (distinct_snapshot rows)
      | Some (cols, agg) \<Rightarrow> reduce_snapshot (distinct_snapshot rows) cols agg)"

text \<open>
  The least-fixpoint loop of \<open>Iterate\<close>: \<open>next = distinct(init \<union> step(r))\<close> until nothing
  changes. Each round spends one unit of fuel.
\<close>

fun iterate_loop :: "nat \<Rightarrow> (zset \<Rightarrow> ('s, zset) op) \<Rightarrow> zset \<Rightarrow> zset \<Rightarrow> ('s, zset) op" where
  "iterate_loop 0 step init r = ofail OutOfFuel"
| "iterate_loop (Suc fuel) step init r =
     obind (step r) (\<lambda>stepped.
       let next = distinct_snapshot (zmerge init stepped) in
       if next = r then oret r else iterate_loop fuel step init next)"

definition lift :: "'a result \<Rightarrow> ('s, 'a) op" where
  "lift r = oread (\<lambda>_. r)"

definition reduce_in_iterate :: error where
  "reduce_in_iterate = EQuery ''Reduce (aggregate) is not permitted inside Iterate''"

text \<open>The evaluator, threading the arrangement cache as its state.\<close>

primrec eval_inner ::
  "nat \<Rightarrow> query \<Rightarrow> edition_reader \<Rightarrow> zset option \<Rightarrow> overrides option \<Rightarrow> (arrangements, zset) op" where
  "eval_inner fuel (QRel r) reader recur ov = lift (rel_node reader ov r)"
| "eval_inner fuel (QRangeRel rel lo hi) reader recur ov = lift (range_node reader ov rel lo hi)"
| "eval_inner fuel (QRangeRelOn rel col lo hi) reader recur ov =
     lift (range_on_node reader ov rel col lo hi)"
| "eval_inner fuel (QMap input f) reader recur ov =
     obind (eval_inner fuel input reader recur ov) (\<lambda>child. oret (map_rows f child))"
| "eval_inner fuel (QFilter input pred) reader recur ov =
     obind (eval_inner fuel input reader recur ov) (\<lambda>child. oret (filter_rows pred child))"
| "eval_inner fuel (QProject input cols) reader recur ov =
     obind (eval_inner fuel input reader recur ov) (\<lambda>child. lift (project_rows cols child))"
| "eval_inner fuel (QJoin left right lk rk) reader recur ov =
     obind (eval_inner fuel left reader recur ov) (\<lambda>l.
     obind (eval_inner fuel right reader recur ov) (\<lambda>r. lift (join_multisets l lk r rk)))"
| "eval_inner fuel (QUnion a b) reader recur ov =
     obind (eval_inner fuel a reader recur ov) (\<lambda>l.
     obind (eval_inner fuel b reader recur ov) (\<lambda>r. oret (zunion l r)))"
| "eval_inner fuel (QNegate a) reader recur ov =
     obind (eval_inner fuel a reader recur ov) (\<lambda>child. oret (znegate child))"
| "eval_inner fuel (QDistinct a) reader recur ov =
     obind (eval_inner fuel a reader recur ov) (\<lambda>child. oret (distinct_snapshot child))"
| "eval_inner fuel (QReduce input key agg) reader recur ov =
     obind (eval_inner fuel input reader recur ov) (\<lambda>child. lift (reduce_snapshot child key agg))"
| "eval_inner fuel QRecur reader recur ov = oret (case recur of None \<Rightarrow> [] | Some m \<Rightarrow> m)"
| "eval_inner fuel (QIterate init step) reader recur ov =
     (if contains_reduce init \<or> contains_reduce step then ofail (Err reduce_in_iterate)
      else obind (eval_inner fuel init reader None ov) (\<lambda>init_val.
        iterate_loop fuel (\<lambda>r. eval_inner fuel step reader (Some r) ov) init_val
          (distinct_snapshot init_val)))"
| "eval_inner fuel (QInherit input col key ctx) reader recur ov =
     obind (eval_inner fuel input reader recur ov) (\<lambda>rows. lift (inherit_node reader ov col key ctx rows))"
| "eval_inner fuel (QMaterialized plan into prefix cursor_rel key reduce) reader recur ov =
     obind (lift (if recur = None \<and> ov = None then stored_view reader plan into prefix cursor_rel key
                  else Inr None)) (\<lambda>stored.
       case stored of Some rows \<Rightarrow> lift (reduce_stored reduce rows)
       | None \<Rightarrow> eval_inner fuel plan reader recur ov)"
| "eval_inner fuel (QShared addr inner) reader recur ov =
     (if recur = None \<and> ov = None then
        (\<lambda>arr. case arr (addr, er_edition reader) of Some hit \<Rightarrow> (Inr hit, arr)
           | None \<Rightarrow> obind (eval_inner fuel inner reader None None)
               (\<lambda>v arr'. (Inr v, arr'((addr, er_edition reader) \<mapsto> v))) arr)
      else eval_inner fuel inner reader recur ov)"

definition eval_snapshot_on :: "nat \<Rightarrow> query \<Rightarrow> edition_reader \<Rightarrow> zset result" where
  "eval_snapshot_on fuel q reader = fst (eval_inner fuel q reader None None Map.empty)"

definition eval_snapshot :: "nat \<Rightarrow> query \<Rightarrow> 's trace_ops \<Rightarrow> 's \<Rightarrow> edition \<Rightarrow> zset result" where
  "eval_snapshot fuel q ops s at = eval_snapshot_on fuel q (ts_reader_at ops s at)"

definition eval_snapshot_with ::
  "nat \<Rightarrow> query \<Rightarrow> 's trace_ops \<Rightarrow> 's \<Rightarrow> edition \<Rightarrow> (arrangements, zset) op" where
  "eval_snapshot_with fuel q ops s at = eval_inner fuel q (ts_reader_at ops s at) None None"

definition eval_with_recur ::
  "nat \<Rightarrow> query \<Rightarrow> 's trace_ops \<Rightarrow> 's \<Rightarrow> edition \<Rightarrow> zset \<Rightarrow> zset result" where
  "eval_with_recur fuel q ops s at recur =
     fst (eval_inner fuel q (ts_reader_at ops s at) (Some recur) None Map.empty)"

definition eval_with ::
  "nat \<Rightarrow> query \<Rightarrow> 's trace_ops \<Rightarrow> 's \<Rightarrow> edition \<Rightarrow> zset option \<Rightarrow> overrides \<Rightarrow> zset result" where
  "eval_with fuel q ops s at recur ov =
     fst (eval_inner fuel q (ts_reader_at ops s at) recur (Some ov) Map.empty)"

section \<open>Evaluation without a cache\<close>

fun iterate_ref :: "nat \<Rightarrow> (zset \<Rightarrow> zset result) \<Rightarrow> zset \<Rightarrow> zset \<Rightarrow> zset result" where
  "iterate_ref 0 step init r = Inl OutOfFuel"
| "iterate_ref (Suc fuel) step init r =
     rbind (step r) (\<lambda>stepped.
       let next = distinct_snapshot (zmerge init stepped) in
       if next = r then Inr r else iterate_ref fuel step init next)"

primrec eval_ref ::
  "nat \<Rightarrow> query \<Rightarrow> edition_reader \<Rightarrow> zset option \<Rightarrow> overrides option \<Rightarrow> zset result" where
  "eval_ref fuel (QRel r) reader recur ov = rel_node reader ov r"
| "eval_ref fuel (QRangeRel rel lo hi) reader recur ov = range_node reader ov rel lo hi"
| "eval_ref fuel (QRangeRelOn rel col lo hi) reader recur ov = range_on_node reader ov rel col lo hi"
| "eval_ref fuel (QMap input f) reader recur ov =
     rbind (eval_ref fuel input reader recur ov) (\<lambda>child. Inr (map_rows f child))"
| "eval_ref fuel (QFilter input pred) reader recur ov =
     rbind (eval_ref fuel input reader recur ov) (\<lambda>child. Inr (filter_rows pred child))"
| "eval_ref fuel (QProject input cols) reader recur ov =
     rbind (eval_ref fuel input reader recur ov) (project_rows cols)"
| "eval_ref fuel (QJoin left right lk rk) reader recur ov =
     rbind (eval_ref fuel left reader recur ov) (\<lambda>l.
     rbind (eval_ref fuel right reader recur ov) (\<lambda>r. join_multisets l lk r rk))"
| "eval_ref fuel (QUnion a b) reader recur ov =
     rbind (eval_ref fuel a reader recur ov) (\<lambda>l.
     rbind (eval_ref fuel b reader recur ov) (\<lambda>r. Inr (zunion l r)))"
| "eval_ref fuel (QNegate a) reader recur ov =
     rbind (eval_ref fuel a reader recur ov) (\<lambda>child. Inr (znegate child))"
| "eval_ref fuel (QDistinct a) reader recur ov =
     rbind (eval_ref fuel a reader recur ov) (\<lambda>child. Inr (distinct_snapshot child))"
| "eval_ref fuel (QReduce input key agg) reader recur ov =
     rbind (eval_ref fuel input reader recur ov) (\<lambda>child. reduce_snapshot child key agg)"
| "eval_ref fuel QRecur reader recur ov = Inr (case recur of None \<Rightarrow> [] | Some m \<Rightarrow> m)"
| "eval_ref fuel (QIterate init step) reader recur ov =
     (if contains_reduce init \<or> contains_reduce step then Inl (Err reduce_in_iterate)
      else rbind (eval_ref fuel init reader None ov) (\<lambda>init_val.
        iterate_ref fuel (\<lambda>r. eval_ref fuel step reader (Some r) ov) init_val
          (distinct_snapshot init_val)))"
| "eval_ref fuel (QInherit input col key ctx) reader recur ov =
     rbind (eval_ref fuel input reader recur ov) (inherit_node reader ov col key ctx)"
| "eval_ref fuel (QMaterialized plan into prefix cursor_rel key reduce) reader recur ov =
     rbind (if recur = None \<and> ov = None then stored_view reader plan into prefix cursor_rel key
            else Inr None) (\<lambda>stored.
       case stored of Some rows \<Rightarrow> reduce_stored reduce rows
       | None \<Rightarrow> eval_ref fuel plan reader recur ov)"
| "eval_ref fuel (QShared addr inner) reader recur ov = eval_ref fuel inner reader recur ov"


section \<open>The cache is transparent\<close>

text \<open>
  An address identifies its node: \<open>env\<close> says which plan lives at each address, and every
  \<^const>\<open>QShared\<close> of a plan agrees with it. The source keeps no plan alive for its cache,
  so this is what its callers owe while they reuse one.
\<close>

primrec arcs_ok :: "(nat \<Rightarrow> query) \<Rightarrow> query \<Rightarrow> bool" where
  "arcs_ok env (QRel r) = True"
| "arcs_ok env (QRangeRel r lo hi) = True"
| "arcs_ok env (QRangeRelOn r col lo hi) = True"
| "arcs_ok env (QMap input f) = arcs_ok env input"
| "arcs_ok env (QFilter input p) = arcs_ok env input"
| "arcs_ok env (QProject input cols) = arcs_ok env input"
| "arcs_ok env (QJoin left right lk rk) = (arcs_ok env left \<and> arcs_ok env right)"
| "arcs_ok env (QUnion left right) = (arcs_ok env left \<and> arcs_ok env right)"
| "arcs_ok env (QNegate input) = arcs_ok env input"
| "arcs_ok env (QDistinct input) = arcs_ok env input"
| "arcs_ok env (QReduce input key agg) = arcs_ok env input"
| "arcs_ok env QRecur = True"
| "arcs_ok env (QIterate init step) = (arcs_ok env init \<and> arcs_ok env step)"
| "arcs_ok env (QInherit input col key ctx) = arcs_ok env input"
| "arcs_ok env (QMaterialized plan into prefix cursor_rel key reduce) = arcs_ok env plan"
| "arcs_ok env (QShared a inner) = (env a = inner \<and> arcs_ok env inner)"

text \<open>
  Every cached value is the value of its node at its edition, through the reader \<open>rd e\<close> of
  that edition.
\<close>

definition cache_ok ::
  "nat \<Rightarrow> (nat \<Rightarrow> query) \<Rightarrow> (edition \<Rightarrow> edition_reader) \<Rightarrow> arrangements \<Rightarrow> bool" where
  "cache_ok fuel env rd arr \<longleftrightarrow>
     (\<forall>a e v. arr (a, e) = Some v \<longrightarrow> eval_ref fuel (env a) (rd e) None None = Inr v)"

lemma cache_ok_empty [simp]: "cache_ok fuel env rd Map.empty"
  by (simp add: cache_ok_def)

lemma cache_ok_upd:
  "cache_ok fuel env rd arr \<Longrightarrow> eval_ref fuel (env a) (rd e) None None = Inr v \<Longrightarrow>
   cache_ok fuel env rd (arr((a, e) \<mapsto> v))"
  by (simp add: cache_ok_def)

text \<open>An operation on the cache that keeps it and answers \<open>r\<close> whatever it holds.\<close>

definition answers :: "('s \<Rightarrow> bool) \<Rightarrow> ('s, 'a) op \<Rightarrow> 'a result \<Rightarrow> bool" where
  "answers I m r \<longleftrightarrow> (\<forall>s. I s \<longrightarrow> fst (m s) = r \<and> I (snd (m s)))"

lemma answersD: "answers I m r \<Longrightarrow> I s \<Longrightarrow> \<exists>s'. m s = (r, s') \<and> I s'"
  unfolding answers_def by (cases "m s") auto

lemma answers_lift: "answers I (lift r) r"
  by (simp add: answers_def lift_def)

lemma answers_oret: "answers I (oret x) (Inr x)"
  by (simp add: answers_def)

lemma answers_ofail: "answers I (ofail e) (Inl e)"
  by (simp add: answers_def)

lemma answers_obind:
  assumes "answers I m r" "\<And>x. r = Inr x \<Longrightarrow> answers I (f x) (g x)"
  shows "answers I (obind m f) (rbind r g)"
  unfolding answers_def
proof (intro allI impI)
  fix s assume i: "I s"
  obtain s' where s': "m s = (r, s')" "I s'" using answersD [OF assms(1) i] by blast
  show "fst (obind m f s) = rbind r g \<and> I (snd (obind m f s))"
  proof (cases r)
    case (Inr x)
    then show ?thesis using s' assms(2) [OF Inr] by (simp add: obind_apply answers_def)
  qed (use s' in \<open>simp add: obind_apply\<close>)
qed

text \<open>Simplification leaves the constant operations in this form.\<close>

lemma answers_Pair: "answers I (Pair r) r"
  by (simp add: answers_def)

lemmas answers_intros = answers_lift answers_oret answers_ofail answers_Pair answers_obind

lemma answers_iterate:
  assumes "\<And>r. answers I (step r) (step' r)"
  shows "answers I (iterate_loop fuel step init r) (iterate_ref fuel step' init r)"
proof (induction fuel arbitrary: r)
  case (Suc fuel)
  then show ?case by (auto intro!: answers_intros assms simp: Let_def)
qed (simp add: answers_ofail)

lemma answers_shared:
  assumes "\<And>v. I arr \<Longrightarrow> arr k = Some v \<Longrightarrow> r = Inr v"
    and "\<And>s v. I s \<Longrightarrow> r = Inr v \<Longrightarrow> I (s(k \<mapsto> v))"
    and "answers I m r" and "I arr"
  shows "fst ((case arr k of Some hit \<Rightarrow> (Inr hit, arr)
            | None \<Rightarrow> obind m (\<lambda>v arr'. (Inr v, arr'(k \<mapsto> v))) arr)) = r \<and>
         I (snd ((case arr k of Some hit \<Rightarrow> (Inr hit, arr)
            | None \<Rightarrow> obind m (\<lambda>v arr'. (Inr v, arr'(k \<mapsto> v))) arr)))"
proof (cases "arr k")
  case (Some v)
  then show ?thesis using assms by simp
next
  case None
  from assms(3,4) obtain s' where "m arr = (r, s')" "I s'" by (blast dest: answersD)
  then show ?thesis using None assms(2) by (cases r) (auto simp: obind_apply)
qed

lemma eval_inner_answers:
  assumes "\<And>e. er_edition (rd e) = e" and "arcs_ok env q"
  shows "answers (cache_ok fuel env rd) (eval_inner fuel q (rd e) recur ov)
           (eval_ref fuel q (rd e) recur ov)"
  using assms(2)
proof (induction q arbitrary: recur ov)
  case (QIterate init step)
  then show ?case by (auto intro!: answers_intros answers_iterate)
next
  case (QMaterialized plan into prefix cursor_rel key reduce)
  show ?case
    unfolding eval_inner.simps eval_ref.simps
    by (rule answers_obind [OF answers_lift])
       (use QMaterialized in \<open>auto intro: answers_lift split: option.split\<close>)
next
  case (QShared a inner)
  show ?case
  proof (cases "recur = None \<and> ov = None")
    case True
    have r: "cache_ok fuel env rd arr \<Longrightarrow> arr (a, e) = Some v \<Longrightarrow>
        eval_ref fuel inner (rd e) None None = Inr v" for arr v
      using QShared.prems by (auto simp: cache_ok_def)
    show ?thesis
      unfolding answers_def eval_inner.simps assms(1) eval_ref.simps conjunct1 [OF True]
        conjunct2 [OF True] simp_thms if_True
    proof (intro allI impI, rule answers_shared [where I = "cache_ok fuel env rd"])
      show "answers (cache_ok fuel env rd) (eval_inner fuel inner (rd e) None None)
              (eval_ref fuel inner (rd e) None None)"
        using QShared by simp
    qed (use r QShared.prems cache_ok_upd [of fuel env rd] in auto)
  next
    case False
    then show ?thesis using QShared by auto
  qed
qed (auto intro!: answers_intros split: option.splits)

text \<open>One pinned reader: the evaluation the snapshots run.\<close>

lemma eval_snapshot_on_ref:
  assumes "arcs_ok env q"
  shows "eval_snapshot_on fuel q reader = eval_ref fuel q reader None None"
proof -
  let ?rd = "\<lambda>e. reader\<lparr>er_edition := e\<rparr>"
  have "?rd (er_edition reader) = reader" by simp
  with eval_inner_answers [of ?rd env q fuel "er_edition reader" None None] assms show ?thesis
    by (simp add: answers_def eval_snapshot_on_def)
qed

end
