(* ===== verification/Query_Laws.thy ===== *)
theory Query_Laws
  imports Query
begin

text \<open>
  What each operator of \<^verbatim>\<open>Query\<close> does to weights: the row-wise operators and the union
  are linear, the join is bilinear, \<open>distinct\<close> and \<open>reduce\<close> depend on the positive rows
  alone. Every evaluation is canonical, and depends on the relations its plan names and on
  nothing else.
\<close>

section \<open>Sums that select rows\<close>

definition ind :: "bool \<Rightarrow> int" where
  "ind b = (if b then 1 else 0)"

lemma ind_simps [simp]: "ind True = 1" "ind False = 0"
  by (simp_all add: ind_def)

lemma wsum_image: "wsum (map (\<lambda>(t, d). (f t, d)) m) u = lsum m (\<lambda>t. ind (f t = u))"
  by (simp add: wsum_map ind_def)

lemma wsum_image_rows: "wsum (image_rows f m) u = lsum m (\<lambda>t. ind (f t = Some u))"
  by (induction m) (auto simp: image_rows_def ind_def split: option.splits)

lemma lsum_smult: "c * lsum m f = lsum m (\<lambda>t. c * f t)"
  by (induction m) (auto simp: algebra_simps)

lemma lsum_const_mult: "lsum m (\<lambda>t. f t * c) = lsum m f * c"
  by (induction m) (auto simp: algebra_simps)

lemma lsum_uminus: "lsum (map (\<lambda>(t, d). (t, - d)) m) f = - lsum m f"
  by (induction m) (auto simp: algebra_simps)

lemma lsum_swap: "lsum as (\<lambda>x. lsum bs (\<lambda>y. f x y)) = lsum bs (\<lambda>y. lsum as (\<lambda>x. f x y))"
proof (induction as)
  case Nil
  show ?case by (induction bs) auto
next
  case (Cons p as)
  then show ?case by (cases p) (simp add: lsum_add lsum_smult)
qed

text \<open>The rows outside a predicate do not count when the summand vanishes there.\<close>

lemma lsum_filter: "(\<And>t. \<not> P t \<Longrightarrow> f t = 0) \<Longrightarrow> lsum (filter (\<lambda>(t, d). P t) m) f = lsum m f"
  by (induction m) auto

section \<open>Linear operators\<close>

named_theorems op_weight \<open>the weight each operator gives a tuple\<close>

lemma canonical_build [simp, zset]: "canonical (strip_zeros (zadd_all [] ps))"
  by (simp add: zset)

lemma wsum_zadd_all_Nil [simp]: "wsum (zadd_all [] ps) u = wsum ps u"
  by (simp add: wsum_zadd_all)

lemma wsum_build [op_weight]: "wsum (strip_zeros (zadd_all [] ps)) u = wsum ps u"
  by simp

lemma canonical_map_rows [simp, zset]: "canonical (map_rows f m)"
  by (simp add: map_rows_def)

lemma wsum_map_rows [op_weight]: "wsum (map_rows f m) u = lsum m (\<lambda>t. ind (f t = u))"
  by (simp add: map_rows_def op_weight wsum_image)

lemma canonical_filter_rows [simp, zset]: "canonical m \<Longrightarrow> canonical (filter_rows P m)"
  by (simp add: filter_rows_def)

lemma wsum_filter_rows [op_weight]: "wsum (filter_rows P m) u = (if P u then wsum m u else 0)"
  by (simp add: filter_rows_def wsum_filter)

lemma canonical_zunion [simp, zset]: "canonical m \<Longrightarrow> canonical (zunion m n)"
  by (simp add: zunion_def canonicalD zset)

lemma wsum_zunion [op_weight]: "canonical m \<Longrightarrow> wsum (zunion m n) u = wsum m u + wsum n u"
  by (simp add: zunion_def canonicalD zset)

lemma wsum_znegate [op_weight]: "wsum (znegate m) u = - wsum m u"
  by (induction m) (auto simp: znegate_def)

lemma map_fst_signed: "map fst (map (\<lambda>(t, d). (t, f d)) m) = map fst m"
  by (induction m) auto

lemma canonical_znegate [simp, zset]: "canonical m \<Longrightarrow> canonical (znegate m)"
  unfolding canonical_def osorted_def znegate_def map_fst_signed nonzero_def by auto

lemma canonical_inherit [simp, zset]: "canonical (inherit m col key ctx)"
  by (simp add: inherit_def)

lemma wsum_inherit [op_weight]:
  "wsum (inherit m col key ctx) u =
     lsum m (\<lambda>t. ind (inherit_row col (live_scopes key ctx) t = Some u))"
  by (simp add: inherit_def op_weight wsum_image_rows)

section \<open>Keys of a row\<close>

definition fits :: "nat list \<Rightarrow> tuple \<Rightarrow> bool" where
  "fits cols t \<longleftrightarrow> (\<forall>i\<in>set cols. i < length t)"

definition pick :: "nat list \<Rightarrow> tuple \<Rightarrow> val list" where
  "pick cols t = map (\<lambda>i. t ! i) cols"

lemma pick_index: "rmapM (\<lambda>i. index t i) cols = (if fits cols t then Inr (pick cols t) else Inl Panic)"
  by (induction cols) (auto simp: fits_def pick_def index_def)

lemma project_tuple_eq: "project_tuple t cols = (if fits cols t then Inr (pick cols t) else Inl Panic)"
  by (simp add: project_tuple_def pick_index)

lemma row_key_eq: "row_key t cols = (if fits cols t then Inr (pick cols t) else Inl Panic)"
  by (simp add: row_key_def pick_index)

lemma length_pick [simp]: "length (pick cols t) = length cols"
  by (simp add: pick_def)

definition all_fit :: "nat list \<Rightarrow> zset \<Rightarrow> bool" where
  "all_fit cols m \<longleftrightarrow> (\<forall>t\<in>fst ` set m. fits cols t)"

lemma all_fit_weight: "canonical m \<Longrightarrow> all_fit cols m \<longleftrightarrow> (\<forall>t. wsum m t \<noteq> 0 \<longrightarrow> fits cols t)"
  unfolding all_fit_def by (simp only: Ball_def canonical_key)

lemma all_fit_Cons: "all_fit cols ((t, d) # m) \<longleftrightarrow> fits cols t \<and> all_fit cols m"
  by (auto simp: all_fit_def)

lemma keyed_eq:
  "keyed cols m = (if all_fit cols m then Inr (map (\<lambda>(t, d). (pick cols t, t, d)) m) else Inl Panic)"
  by (induction m) (auto simp: keyed_def all_fit_def row_key_eq)

lemma project_rows_eq:
  "project_rows cols m =
     (if all_fit cols m then Inr (map_rows (pick cols) m) else Inl Panic)"
proof -
  have "rmapM (\<lambda>(t, d). rbind (project_tuple t cols) (\<lambda>u. Inr (u, d))) m =
      (if all_fit cols m then Inr (map (\<lambda>(t, d). (pick cols t, d)) m) else Inl Panic)"
    by (induction m) (auto simp: all_fit_def project_tuple_eq)
  then show ?thesis by (simp add: project_rows_def map_rows_def)
qed

section \<open>Buckets\<close>

text \<open>Appending items to the list under their key: the index of a join, the groups of a fold.\<close>

definition bucket_push :: "('k::linorder \<times> 'x list) list \<Rightarrow> 'k \<times> 'x \<Rightarrow> ('k \<times> 'x list) list" where
  "bucket_push idx p =
     om_put (fst p) ((case om_get idx (fst p) of None \<Rightarrow> [] | Some xs \<Rightarrow> xs) @ [snd p]) idx"

definition bucket :: "('k \<times> 'x) list \<Rightarrow> 'k \<Rightarrow> 'x list" where
  "bucket ps k = map snd (filter (\<lambda>p. fst p = k) ps)"

definition some_ne :: "'x list \<Rightarrow> 'x list option" where
  "some_ne xs = (if xs = [] then None else Some xs)"

lemma bucket_fold:
  "osorted (foldl bucket_push [] ps) \<and> om_get (foldl bucket_push [] ps) k = some_ne (bucket ps k)"
proof (induction ps arbitrary: k rule: rev_induct)
  case Nil
  then show ?case by (simp add: bucket_def some_ne_def)
next
  case (snoc p ps)
  define idx where "idx = foldl bucket_push [] ps"
  from snoc have o: "osorted idx" and g: "om_get idx j = some_ne (bucket ps j)" for j
    by (simp_all add: idx_def)
  have "foldl bucket_push [] (ps @ [p]) = bucket_push idx p" by (simp add: idx_def)
  also have "\<dots> = om_put (fst p) (bucket ps (fst p) @ [snd p]) idx"
    by (simp add: bucket_push_def g some_ne_def)
  finally show ?case using o by (simp only: g osorted_put om_get_put) (simp add: bucket_def some_ne_def)
qed

lemma index_push_bucket: "index_push = bucket_push"
  by (auto simp: fun_eq_iff index_push_def bucket_push_def)

lemma group_push_bucket: "foldl group_push gs ks = foldl bucket_push gs (map (\<lambda>(k, t, d). (k, t)) ks)"
  by (induction ks arbitrary: gs) (auto simp: group_push_def bucket_push_def)

section \<open>The join is bilinear\<close>

definition join_weight :: "zset \<Rightarrow> nat list \<Rightarrow> zset \<Rightarrow> nat list \<Rightarrow> tuple \<Rightarrow> int" where
  "join_weight l lk r rk u =
     lsum l (\<lambda>lt. lsum r (\<lambda>rt. ind (pick rk rt = pick lk lt \<and> lt @ rt = u)))"

lemma wsum_scale: "wsum (map (\<lambda>(t, d). (f t, c * d)) m) u = c * lsum m (\<lambda>t. ind (f t = u))"
  by (induction m) (auto simp: algebra_simps ind_def)

lemma lsum_bucket:
  "lsum (bucket (map (\<lambda>(t, d). (key t, t, d)) m) k) f = lsum m (\<lambda>t. ind (key t = k) * f t)"
  by (induction m) (auto simp: bucket_def ind_def)

lemma join_rows_weight:
  "wsum (concat (map (\<lambda>(k, lt, ld).
       case some_ne (bucket (map (\<lambda>(t, d). (pick rk t, t, d)) r) k) of None \<Rightarrow> []
       | Some rs \<Rightarrow> map (\<lambda>(rt, rd). (lt @ rt, ld * rd)) rs) (map (\<lambda>(t, d). (pick lk t, t, d)) l))) u
   = join_weight l lk r rk u"
proof (induction l)
  case (Cons p l)
  obtain lt ld where p: "p = (lt, ld)" by (cases p)
  let ?b = "bucket (map (\<lambda>(t, d). (pick rk t, t, d)) r) (pick lk lt)"
  have "wsum (case some_ne ?b of None \<Rightarrow> [] | Some rs \<Rightarrow> map (\<lambda>(rt, rd). (lt @ rt, ld * rd)) rs) u
      = ld * lsum ?b (\<lambda>rt. ind (lt @ rt = u))"
    by (simp add: some_ne_def wsum_scale)
  also have "lsum ?b (\<lambda>rt. ind (lt @ rt = u))
      = lsum r (\<lambda>rt. ind (pick rk rt = pick lk lt \<and> lt @ rt = u))"
    unfolding lsum_bucket by (rule lsum_cong) (simp add: ind_def)
  finally show ?case using Cons by (simp add: p join_weight_def)
qed (simp add: join_weight_def)

lemma join_multisets_eq:
  "(\<exists>out. join_multisets l lk r rk = Inr out) \<longleftrightarrow> all_fit rk r \<and> all_fit lk l"
  by (simp add: join_multisets_def keyed_eq Let_def)

lemma join_multisets_Inr:
  assumes "all_fit rk r" "all_fit lk l"
  shows "\<exists>out. join_multisets l lk r rk = Inr out \<and> canonical out \<and>
           (\<forall>u. wsum out u = join_weight l lk r rk u)"
  using assms unfolding join_multisets_def concat_tuples_def
  by (simp add: keyed_eq Let_def index_push_bucket bucket_fold join_rows_weight del: map_map)

lemma join_weight_left:
  assumes "\<And>t. wsum d t = wsum a t - wsum b t"
  shows "join_weight d lk r rk u = join_weight a lk r rk u - join_weight b lk r rk u"
  unfolding join_weight_def by (rule lsum_linear) (rule assms)

lemma join_weight_right:
  assumes "\<And>t. wsum d t = wsum a t - wsum b t"
  shows "join_weight l lk d rk u = join_weight l lk a rk u - join_weight l lk b rk u"
  unfolding join_weight_def lsum_diff [symmetric]
  by (rule lsum_cong) (rule lsum_linear, rule assms)

text \<open>Only the rows that match a key on the other side count.\<close>

lemma join_weight_matching_right:
  assumes "\<And>t. wsum r' t = (if P t then wsum r t else 0)"
    and "\<And>lt rt. lt \<in> fst ` set l \<Longrightarrow> wsum r rt \<noteq> 0 \<Longrightarrow> pick rk rt = pick lk lt \<Longrightarrow> P rt"
  shows "join_weight l lk r' rk u = join_weight l lk r rk u"
  unfolding join_weight_def
proof (rule lsum_cong)
  fix lt assume lt: "lt \<in> fst ` set l"
  let ?f = "\<lambda>rt. ind (pick rk rt = pick lk lt \<and> lt @ rt = u)"
  let ?S = "fst ` set r' \<union> fst ` set r"
  have "lsum r' ?f = (\<Sum>k\<in>?S. wsum r' k * ?f k)" by (rule lsum_eq_sum) auto
  also have "\<dots> = (\<Sum>k\<in>?S. wsum r k * ?f k)"
    by (rule sum.cong [OF refl]) (use assms lt in \<open>auto simp: ind_def\<close>)
  also have "\<dots> = lsum r ?f" by (rule lsum_eq_sum [symmetric]) auto
  finally show "lsum r' ?f = lsum r ?f" .
qed

lemma join_weight_swap:
  "join_weight l lk r rk u = lsum r (\<lambda>rt. lsum l (\<lambda>lt. ind (pick rk rt = pick lk lt \<and> lt @ rt = u)))"
  unfolding join_weight_def by (rule lsum_swap)

lemma join_weight_matching_left:
  assumes "\<And>t. wsum l' t = (if P t then wsum l t else 0)"
    and "\<And>lt rt. rt \<in> fst ` set r \<Longrightarrow> wsum l lt \<noteq> 0 \<Longrightarrow> pick rk rt = pick lk lt \<Longrightarrow> P lt"
  shows "join_weight l' lk r rk u = join_weight l lk r rk u"
  unfolding join_weight_swap
proof (rule lsum_cong)
  fix rt assume rt: "rt \<in> fst ` set r"
  let ?f = "\<lambda>lt. ind (pick rk rt = pick lk lt \<and> lt @ rt = u)"
  let ?S = "fst ` set l' \<union> fst ` set l"
  have "lsum l' ?f = (\<Sum>k\<in>?S. wsum l' k * ?f k)" by (rule lsum_eq_sum) auto
  also have "\<dots> = (\<Sum>k\<in>?S. wsum l k * ?f k)"
    by (rule sum.cong [OF refl]) (use assms rt in \<open>auto simp: ind_def\<close>)
  also have "\<dots> = lsum l ?f" by (rule lsum_eq_sum [symmetric]) auto
  finally show "lsum l' ?f = lsum l ?f" .
qed


section \<open>The set boundary\<close>

text \<open>The tuples present in a multiset, in order.\<close>

definition positives :: "zset \<Rightarrow> tuple list" where
  "positives m = map fst (filter (\<lambda>(t, d). 0 < d) m)"

lemma sorted_positives: "osorted m \<Longrightarrow> sorted_wrt (<) (positives m)"
  using osorted_filter [of m "\<lambda>(t, d). 0 < d"] by (simp add: positives_def osorted_def)

lemma set_positives: "osorted m \<Longrightarrow> set (positives m) = {t. 0 < wsum m t}"
proof -
  assume o: "osorted m"
  have "t \<in> set (positives m) \<longleftrightarrow> 0 < wsum m t" for t
    using o om_get_in_iff [OF o, of t]
    by (auto simp: positives_def wsum_osorted zweight_def image_iff split: option.splits
        dest: osorted_functional [OF o])
  then show ?thesis by auto
qed

lemma distinct_eq_positives: "distinct_snapshot m = map (\<lambda>t. (t, 1)) (positives m)"
  by (induction m) (auto simp: distinct_snapshot_def positives_def)

lemma positives_distinct [simp]: "positives (distinct_snapshot m) = positives m"
  by (simp add: distinct_eq_positives) (simp add: positives_def comp_def filter_map)

lemma canonical_distinct [simp, zset]: "osorted m \<Longrightarrow> canonical (distinct_snapshot m)"
  using sorted_positives [of m]
  by (auto simp: distinct_eq_positives canonical_def osorted_def nonzero_def comp_def)

lemma wsum_distinct_snapshot [op_weight]:
  "osorted m \<Longrightarrow> wsum (distinct_snapshot m) u = ind (0 < wsum m u)"
proof -
  assume o: "osorted m"
  have d: "distinct (positives m)"
    using sorted_positives [OF o] by (simp add: strict_sorted_iff)
  have "wsum (map (\<lambda>t. (t, 1)) ts) u = ind (u \<in> set ts)" if "distinct ts" for ts
    using that by (induction ts) auto
  from this [OF d] show ?thesis by (simp add: distinct_eq_positives set_positives [OF o])
qed

section \<open>Groups\<close>

text \<open>The members of the group \<open>k\<close>.\<close>

definition members :: "zset \<Rightarrow> nat list \<Rightarrow> val list \<Rightarrow> tuple list" where
  "members m cols k = filter (\<lambda>t. pick cols t = k) (positives m)"

definition groups_ok :: "zset \<Rightarrow> nat list \<Rightarrow> agg \<Rightarrow> bool" where
  "groups_ok m cols agg \<longleftrightarrow>
     (\<forall>t\<in>set (positives m). fits cols t \<and> (\<exists>v. fold_agg (members m cols (pick cols t)) agg = Inr v))"

definition emits :: "zset \<Rightarrow> nat list \<Rightarrow> agg \<Rightarrow> tuple \<Rightarrow> bool" where
  "emits m cols agg u \<longleftrightarrow> u \<noteq> [] \<and> members m cols (butlast u) \<noteq> [] \<and>
     fold_agg (members m cols (butlast u)) agg = Inr (last u)"

lemma members_eqI:
  assumes "osorted a" "osorted b" "\<And>t. pick cols t = k \<Longrightarrow> 0 < wsum a t \<longleftrightarrow> 0 < wsum b t"
  shows "members a cols k = members b cols k"
proof (rule strict_sorted_equal)
  show "set (members a cols k) = set (members b cols k)"
    using assms(3) by (auto simp: members_def set_positives assms(1,2))
qed (use sorted_positives assms(1,2) in \<open>auto simp: members_def sorted_wrt_filter\<close>)

lemma zadd_all_pos:
  "osorted m \<Longrightarrow> \<forall>(t, d)\<in>set m. 0 < d \<Longrightarrow> \<forall>(t, d)\<in>set ps. 0 < d \<Longrightarrow>
   \<forall>(t, d)\<in>set (zadd_all m ps). 0 < d"
proof (induction ps arbitrary: m)
  case (Cons p ps)
  obtain u c where p: "p = (u, c)" by (cases p)
  have z: "0 \<le> zweight m u"
    using Cons.prems(2) om_get_set [of m u] by (force simp: zweight_def split: option.splits)
  have "\<forall>(t, d)\<in>set (zadd m u c). 0 < d"
    using Cons.prems z set_om_put [of u "zweight m u + c" m] by (fastforce simp: zadd_def p)
  from Cons.IH [OF _ this] Cons.prems show ?case by (simp add: p)
qed simp

lemma wsum_ones: "distinct (map fst ps) \<Longrightarrow> \<forall>(t, d)\<in>set ps. d = 1 \<Longrightarrow> wsum ps u = ind (u \<in> fst ` set ps)"
  by (induction ps) (auto simp: wsum_notin)

lemma reduce_groups:
  "reduce_snapshot m cols agg =
     (if \<forall>t\<in>set (positives m). fits cols t then
        rbind (rmapM (\<lambda>(k, ms). rbind (fold_agg ms agg) (\<lambda>v. Inr (k @ [v], 1)))
                 (foldl bucket_push [] (map (\<lambda>t. (pick cols t, t)) (positives m))))
          (\<lambda>ps. Inr (zadd_all [] ps))
      else Inl Panic)"
proof -
  let ?pos = "filter (\<lambda>(t, d). 0 < d) m"
  have fit: "all_fit cols ?pos \<longleftrightarrow> (\<forall>t\<in>set (positives m). fits cols t)"
    by (simp add: all_fit_def positives_def)
  have "map (\<lambda>(k, t, d). (k, t)) (map (\<lambda>(t, d). (pick cols t, t, d)) ps) =
      map (\<lambda>t. (pick cols t, t)) (map fst ps)" for ps :: zset
    by (induction ps) auto
  note keys = this [of ?pos, folded positives_def]
  show ?thesis
  proof (cases "all_fit cols ?pos")
    case True
    then have "\<forall>t\<in>set (positives m). fits cols t" by (simp only: fit)
    with True show ?thesis
      by (simp only: reduce_snapshot_def keyed_eq if_True rbind.simps group_push_bucket keys)
        (rule if_P [symmetric])
  next
    case False
    then have "\<not> (\<forall>t\<in>set (positives m). fits cols t)" unfolding fit .
    moreover have "reduce_snapshot m cols agg = Inl Panic"
      using False by (simp add: reduce_snapshot_def keyed_eq)
    ultimately show ?thesis by (simp only: if_False)
  qed
qed

lemma bucket_members: "bucket (map (\<lambda>t. (pick cols t, t)) (positives m)) k = members m cols k"
  unfolding members_def by (induction "positives m") (auto simp: bucket_def filter_map comp_def)

lemma group_fold:
  "osorted (foldl bucket_push [] (map (\<lambda>t. (pick cols t, t)) (positives m)))"
  "om_get (foldl bucket_push [] (map (\<lambda>t. (pick cols t, t)) (positives m))) k = some_ne (members m cols k)"
  by (simp_all only: bucket_fold bucket_members)

lemma reduce_snapshot_Inr:
  assumes "groups_ok m cols agg"
  shows "\<exists>out. reduce_snapshot m cols agg = Inr out \<and> canonical out \<and>
           (\<forall>u. wsum out u = ind (emits m cols agg u))"
proof -
  define gs where "gs = foldl bucket_push [] (map (\<lambda>t. (pick cols t, t)) (positives m))"
  have o: "osorted gs" and g: "om_get gs k = some_ne (members m cols k)" for k
    by (simp_all add: gs_def group_fold)
  have mem: "(k, ms) \<in> set gs \<longleftrightarrow> ms = members m cols k \<and> ms \<noteq> []" for k ms
    unfolding om_get_in_iff [OF o, symmetric] g by (auto simp: some_ne_def)
  define val where "val k = projr (fold_agg (members m cols k) agg)" for k
  have ok: "fold_agg (members m cols k) agg = Inr (val k)" if ne: "members m cols k \<noteq> []" for k
  proof -
    obtain t where "t \<in> set (positives m)" "pick cols t = k"
      using ne by (auto simp: members_def filter_empty_conv)
    then show ?thesis using assms by (auto simp: groups_ok_def val_def)
  qed
  define ps where "ps = map (\<lambda>(k, ms). (k @ [val k], 1::int)) gs"
  have run: "rmapM (\<lambda>(k, ms). rbind (fold_agg ms agg) (\<lambda>v. Inr (k @ [v], 1))) gs = Inr ps"
    unfolding ps_def by (rule rmapM_total) (use ok mem in auto)
  have red: "reduce_snapshot m cols agg = Inr (zadd_all [] ps)"
    using assms run by (simp add: reduce_groups gs_def groups_ok_def)
  have ones: "\<forall>(t, d)\<in>set ps. d = 1" by (auto simp: ps_def)
  have "map fst ps = map (\<lambda>k. k @ [val k]) (map fst gs)" by (auto simp: ps_def)
  moreover have "inj (\<lambda>k. k @ [val k])" by (auto simp: inj_def)
  ultimately have "distinct (map fst ps)"
    using osorted_distinct [OF o] by (simp only: distinct_map) (auto intro: inj_on_subset)
  then have w: "wsum ps u = ind (u \<in> fst ` set ps)" for u by (rule wsum_ones) (rule ones)
  have "u \<in> fst ` set ps \<longleftrightarrow> emits m cols agg u" for u
  proof -
    have "u \<in> fst ` set ps \<longleftrightarrow> (\<exists>k. members m cols k \<noteq> [] \<and> u = k @ [val k])"
    proof -
      have "fst ` set ps = (\<lambda>p. fst p @ [val (fst p)]) ` set gs"
        by (auto simp: ps_def image_image split_def)
      also have "set gs = {(k, members m cols k) |k. members m cols k \<noteq> []}" using mem by auto
      also have "(\<lambda>p. fst p @ [val (fst p)]) ` {(k, members m cols k) |k. members m cols k \<noteq> []} =
          {k @ [val k] |k. members m cols k \<noteq> []}" by force
      finally show ?thesis by auto
    qed
    also have "\<dots> \<longleftrightarrow> emits m cols agg u"
      using ok by (auto simp: emits_def intro!: exI [of _ "butlast u"])
    finally show ?thesis .
  qed
  moreover have "\<forall>(t, d)\<in>set (zadd_all [] ps). 0 < d"
    by (rule zadd_all_pos) (use ones in auto)
  then have "canonical (zadd_all [] ps)" by (auto simp: canonical_def nonzero_def)
  ultimately show ?thesis using red w by simp
qed

lemma reduce_snapshot_ok: "(\<exists>out. reduce_snapshot m cols agg = Inr out) \<longleftrightarrow> groups_ok m cols agg"
proof
  define gs where "gs = foldl bucket_push [] (map (\<lambda>t. (pick cols t, t)) (positives m))"
  have o: "osorted gs" and g: "om_get gs k = some_ne (members m cols k)" for k
    by (simp_all add: gs_def group_fold)
  assume "\<exists>out. reduce_snapshot m cols agg = Inr out"
  then have fit: "\<forall>t\<in>set (positives m). fits cols t"
    and run: "\<exists>ps. rmapM (\<lambda>(k, ms). rbind (fold_agg ms agg) (\<lambda>v. Inr (k @ [v], 1::int))) gs = Inr ps"
    by (auto simp: reduce_groups gs_def result_simps split: if_splits)
  have "\<exists>v. fold_agg (members m cols (pick cols t)) agg = Inr v" if t: "t \<in> set (positives m)" for t
  proof -
    have "members m cols (pick cols t) \<noteq> []" using t by (auto simp: members_def filter_empty_conv)
    then have "(pick cols t, members m cols (pick cols t)) \<in> set gs"
      unfolding om_get_in_iff [OF o, symmetric] g by (simp add: some_ne_def)
    with run show ?thesis unfolding rmapM_Inr_iff by (fastforce simp: result_simps)
  qed
  with fit show "groups_ok m cols agg" by (simp add: groups_ok_def)
next
  assume "groups_ok m cols agg"
  then show "\<exists>out. reduce_snapshot m cols agg = Inr out" using reduce_snapshot_Inr by blast
qed

text \<open>A fold reads the set boundary of its input, so a \<open>distinct\<close> under it changes nothing.\<close>

lemma reduce_distinct [simp]: "reduce_snapshot (distinct_snapshot m) cols agg = reduce_snapshot m cols agg"
  by (simp add: reduce_groups)

lemma canonical_reduce: "reduce_snapshot m cols agg = Inr out \<Longrightarrow> canonical out"
  using reduce_snapshot_Inr reduce_snapshot_ok by fastforce

end
