(* ===== verification/Meaning.thy ===== *)
theory Meaning
  imports Query_Laws
begin

text \<open>
  What a plan means: its value as a function of the contents of the relations it names,
  with no store, no reader and no cache. The evaluator of \<^verbatim>\<open>Query\<close>, run through any
  store that keeps the contract of \<^verbatim>\<open>Trace_Store\<close>, computes this value; in particular a
  snapshot is canonical, and depends on its base relations alone.
\<close>

section \<open>Scopes\<close>

lemma scope_less_irrefl: "\<not> scope_less x x"
  by (auto simp: scope_less_def)

lemma scope_less_trans: "scope_less x y \<Longrightarrow> scope_less y z \<Longrightarrow> scope_less x z"
  by (cases x; cases y; cases z) (auto simp: scope_less_def)

lemma scope_less_total: "x = y \<or> scope_less x y \<or> scope_less y x"
  by (cases x; cases y) (auto simp: scope_less_def)

text \<open>The chosen scope is the most specific one: it is the maximum of the order.\<close>

lemma max_fold:
  "let m = foldl (\<lambda>x y. if scope_less y x then x else y) x xs in
   m \<in> set (x # xs) \<and> (\<forall>z\<in>set (x # xs). z = m \<or> scope_less z m)"
proof (induction xs arbitrary: x)
  case (Cons y xs)
  define b where "b = (if scope_less y x then x else y)"
  define m where "m = foldl (\<lambda>x y. if scope_less y x then x else y) b xs"
  have m: "m \<in> set (b # xs)" "\<forall>z\<in>set (b # xs). z = m \<or> scope_less z m"
    using Cons.IH [of b, unfolded Let_def, folded m_def] by blast+
  have xy: "x = b \<or> scope_less x b" "y = b \<or> scope_less y b" "b = x \<or> b = y"
    using scope_less_total [of x y] by (auto simp: b_def)
  have bm: "b = m \<or> scope_less b m" and rest: "\<And>z. z \<in> set xs \<Longrightarrow> z = m \<or> scope_less z m"
    using m(2) by auto
  have "x = m \<or> scope_less x m" "y = m \<or> scope_less y m"
    using xy(1,2) bm scope_less_trans [of x b m] scope_less_trans [of y b m] by auto
  then have "\<forall>z\<in>set (x # y # xs). z = m \<or> scope_less z m" using rest by auto
  moreover have "m \<in> set (x # y # xs)" using m(1) xy(3) by auto
  moreover have "foldl (\<lambda>x y. if scope_less y x then x else y) x (y # xs) = m"
    by (simp add: m_def b_def)
  ultimately show ?case unfolding Let_def by blast
qed (simp add: Let_def)

lemma max_scope_Some_iff:
  "max_scope xs = Some m \<longleftrightarrow> m \<in> set xs \<and> (\<forall>z\<in>set xs. z = m \<or> scope_less z m)"
proof (cases xs)
  case (Cons x ys)
  define m0 where "m0 = foldl (\<lambda>x y. if scope_less y x then x else y) x ys"
  have m0: "m0 \<in> set xs" "\<forall>z\<in>set xs. z = m0 \<or> scope_less z m0"
    using max_fold [of x ys, unfolded Let_def, folded m0_def] unfolding Cons by blast+
  have "max_scope xs = Some m \<longleftrightarrow> m0 = m" by (simp add: Cons m0_def)
  also have "\<dots> \<longleftrightarrow> m \<in> set xs \<and> (\<forall>z\<in>set xs. z = m \<or> scope_less z m)"
    using m0 scope_less_irrefl scope_less_trans by metis
  finally show ?thesis .
qed simp

lemma max_scope_None_iff: "max_scope xs = None \<longleftrightarrow> xs = []"
  by (cases xs) auto

lemma max_scope_cong: "set xs = set ys \<Longrightarrow> max_scope xs = max_scope ys"
proof (cases "max_scope xs")
  case None
  assume "set xs = set ys"
  with None show ?thesis by (simp add: max_scope_None_iff)
next
  case (Some m)
  assume "set xs = set ys"
  with Some have "max_scope ys = Some m" by (simp add: max_scope_Some_iff)
  with Some show ?thesis by simp
qed

lemma live_scope_Some_iff:
  "live_scope key p = Some (f, l, v) \<longleftrightarrow> (\<exists>d. p = ([f, l, key, v], d) \<and> 0 < d)"
  by (cases "(key, p)" rule: live_scope.cases) auto

lemma live_scopes_iff:
  "(f, l, v) \<in> set (live_scopes key ctx) \<longleftrightarrow> (\<exists>d. ([f, l, key, v], d) \<in> set ctx \<and> 0 < d)"
proof -
  have "x \<in> set (live_scopes key ctx) \<longleftrightarrow> (\<exists>p\<in>set ctx. live_scope key p = Some x)" for x
    by (induction ctx) (auto simp: live_scopes_def List.map_filter_simps split: option.splits)
  then show ?thesis by (auto simp: live_scope_Some_iff)
qed

lemma inherit_row_cong:
  assumes "\<And>e f l v. get row col = Some e \<Longrightarrow> f \<le> e \<Longrightarrow> e \<le> l \<Longrightarrow>
     (f, l, v) \<in> set ss \<longleftrightarrow> (f, l, v) \<in> set ss'"
  shows "inherit_row col ss row = inherit_row col ss' row"
proof (cases "get row col")
  case (Some e)
  have "set (filter (\<lambda>(f, l, v). f \<le> e \<and> e \<le> l) ss) = set (filter (\<lambda>(f, l, v). f \<le> e \<and> e \<le> l) ss')"
    using assms [OF Some] by auto
  from max_scope_cong [OF this] show ?thesis by (simp add: inherit_row_def Some)
qed (simp add: inherit_row_def)

lemma distinct_cells_mem:
  "t \<in> fst ` set rows \<Longrightarrow> get t col = Some e \<Longrightarrow> e \<in> set (distinct_cells rows col)"
proof -
  assume "t \<in> fst ` set rows" and e: "get t col = Some e"
  then obtain d where td: "(t, d) \<in> set rows" by auto
  let ?f = "\<lambda>(t, d). case get t col of None \<Rightarrow> [] | Some v \<Rightarrow> [v]"
  have "e \<in> set (?f (t, d))" using e by simp
  then have "e \<in> set (concat (map ?f rows))" using td by (simp only: set_concat set_map) blast
  then show ?thesis by (simp only: distinct_cells_def set_sorted_list_of_set List.finite_set)
qed

text \<open>
  The scope rows a read by containment returns are enough: those it leaves out contain none
  of the cells asked about.
\<close>

lemma inherit_points:
  assumes "\<And>t d. (t, d) \<in> set some_rows \<longleftrightarrow>
      (t, d) \<in> set ctx \<and> contains_any 0 1 (distinct_cells rows col) t"
  shows "inherit rows col key some_rows = inherit rows col key ctx"
proof (rule canonical_ext)
  fix u
  have "inherit_row col (live_scopes key some_rows) t = inherit_row col (live_scopes key ctx) t"
    if t: "t \<in> fst ` set rows" for t
  proof (rule inherit_row_cong)
    fix e f l v assume e: "get t col = Some e" "f \<le> e" "e \<le> l"
    have "contains_any 0 1 (distinct_cells rows col) [f, l, key, v]"
      using distinct_cells_mem [OF t e(1)] e(2,3) by (auto simp: contains_any_def get_def)
    then show "(f, l, v) \<in> set (live_scopes key some_rows) \<longleftrightarrow> (f, l, v) \<in> set (live_scopes key ctx)"
      by (simp add: live_scopes_iff assms)
  qed
  then show "wsum (inherit rows col key some_rows) u = wsum (inherit rows col key ctx) u"
    unfolding wsum_inherit by (intro lsum_cong) simp
qed simp_all

section \<open>Prefixes\<close>

text \<open>
  \<open>[prefix, prefix\<^sup>+)\<close>, the span from a prefix to the prefix with its last cell stepped up,
  holds exactly the rows that begin with the prefix.
\<close>

lemma rank_mono: "(a :: val) \<le> b \<Longrightarrow> rank a \<le> rank b"
  by (auto simp: less_eq_val_def dest: value_less_imp_rank)

lemma sint_add_one: "sint (n :: 64 word) \<noteq> 2 ^ 63 - 1 \<Longrightarrow> sint (n + 1) = sint n + 1"
proof -
  assume n: "sint n \<noteq> 2 ^ 63 - 1"
  have "sint n < 2 ^ 63" "- (2 ^ 63) \<le> sint n"
    using sint_lt [of n] sint_ge [of n] by auto
  with n show ?thesis
    by (simp add: signed_take_bit_int_eq_self sint_word_ariths)
qed

lemma ent_less_next: "e \<noteq> 0xFFFFFFFFFFFFFFFF \<Longrightarrow> e < e + 1" for e :: u64
proof -
  have top: "(0xFFFFFFFFFFFFFFFF :: u64) = - 1" by simp
  assume "e \<noteq> 0xFFFFFFFFFFFFFFFF"
  then show ?thesis unfolding not_le [symmetric] inc_less_eq_self_iff_eq top .
qed

lemma successor_gap:
  assumes "successor x = Some y"
  shows "x \<le> v \<and> v < y \<longleftrightarrow> v = x"
proof
  assume v: "x \<le> v \<and> v < y"
  have "rank y = rank x" using assms by (cases x) (auto split: if_splits)
  with v have "rank v = rank x" using rank_mono [of x v] rank_mono [of v y] by auto
  with assms v show "v = x"
  proof (cases x)
    case (VEnt a)
    with \<open>rank v = rank x\<close> obtain b where "v = VEnt b" by (cases v) auto
    with assms v VEnt show ?thesis
      by (auto simp: less_eq_val_def less_val_def split: if_splits dest!: less_inc_imp_less_eq)
  next
    case (VInt a)
    with \<open>rank v = rank x\<close> obtain b where "v = VInt b" by (cases v) auto
    with assms v VInt show ?thesis
      by (auto simp: less_eq_val_def less_val_def sint_add_one split: if_splits)
  qed (use assms in auto)
next
  assume "v = x"
  moreover have "x < y"
    using assms by (cases x) (auto simp: less_val_def sint_add_one ent_less_next split: if_splits)
  ultimately show "x \<le> v \<and> v < y" by simp
qed

lemma prefix_span:
  assumes "p \<noteq> []" "successor (last p) = Some y"
  shows "in_range p (butlast p @ [y]) t \<longleftrightarrow> length p \<le> length t \<and> take (length p) t = p"
  using assms
proof (induction p arbitrary: t)
  case (Cons x p)
  show ?case
  proof (cases t)
    case (Cons a t')
    show ?thesis
    proof (cases "p = []")
      case True
      have "[x] \<le> a # t' \<and> a # t' < [y] \<longleftrightarrow> x \<le> a \<and> a < y"
        by (auto simp: less_le)
      then show ?thesis
        using Cons.prems successor_gap [of x y a] by (auto simp: Cons in_range_def True)
    next
      case False
      then show ?thesis
        using Cons.IH [of t'] Cons.prems by (auto simp: Cons in_range_def)
    qed
  qed (auto simp: in_range_def)
qed simp


section \<open>The value of a plan\<close>

definition overriding :: "(rel_id \<Rightarrow> zset) \<Rightarrow> overrides option \<Rightarrow> rel_id \<Rightarrow> zset" where
  "overriding D ov r = (case overridden ov r of Some m \<Rightarrow> m | None \<Rightarrow> D r)"

primrec query_value ::
  "nat \<Rightarrow> query \<Rightarrow> (rel_id \<Rightarrow> zset) \<Rightarrow> zset option \<Rightarrow> overrides option \<Rightarrow> zset result" where
  "query_value fuel (QRel r) D recur ov = Inr (overriding D ov r)"
| "query_value fuel (QRangeRel r lo hi) D recur ov =
     Inr (filter_rows (in_range lo hi) (overriding D ov r))"
| "query_value fuel (QRangeRelOn r col lo hi) D recur ov =
     Inr (filter_rows (in_range_on col lo hi) (overriding D ov r))"
| "query_value fuel (QMap input f) D recur ov =
     rbind (query_value fuel input D recur ov) (\<lambda>m. Inr (map_rows f m))"
| "query_value fuel (QFilter input p) D recur ov =
     rbind (query_value fuel input D recur ov) (\<lambda>m. Inr (filter_rows p m))"
| "query_value fuel (QProject input cols) D recur ov =
     rbind (query_value fuel input D recur ov) (project_rows cols)"
| "query_value fuel (QJoin left right lk rk) D recur ov =
     rbind (query_value fuel left D recur ov) (\<lambda>l.
     rbind (query_value fuel right D recur ov) (\<lambda>r. join_multisets l lk r rk))"
| "query_value fuel (QUnion a b) D recur ov =
     rbind (query_value fuel a D recur ov) (\<lambda>l.
     rbind (query_value fuel b D recur ov) (\<lambda>r. Inr (zunion l r)))"
| "query_value fuel (QNegate a) D recur ov =
     rbind (query_value fuel a D recur ov) (\<lambda>m. Inr (znegate m))"
| "query_value fuel (QDistinct a) D recur ov =
     rbind (query_value fuel a D recur ov) (\<lambda>m. Inr (distinct_snapshot m))"
| "query_value fuel (QReduce input key agg) D recur ov =
     rbind (query_value fuel input D recur ov) (\<lambda>m. reduce_snapshot m key agg)"
| "query_value fuel QRecur D recur ov = Inr (case recur of None \<Rightarrow> [] | Some m \<Rightarrow> m)"
| "query_value fuel (QIterate init step) D recur ov =
     (if contains_reduce init \<or> contains_reduce step then Inl (Err reduce_in_iterate)
      else rbind (query_value fuel init D None ov) (\<lambda>init_val.
        iterate_ref fuel (\<lambda>r. query_value fuel step D (Some r) ov) init_val
          (distinct_snapshot init_val)))"
| "query_value fuel (QInherit input col key ctx) D recur ov =
     rbind (query_value fuel input D recur ov) (\<lambda>m. Inr (inherit m col key (overriding D ov ctx)))"
| "query_value fuel (QMaterialized plan into prefix cursor_rel key reduce) D recur ov =
     query_value fuel plan D recur ov"
| "query_value fuel (QShared a inner) D recur ov = query_value fuel inner D recur ov"

text \<open>The relations a value depends on.\<close>

lemma query_value_cong:
  assumes "\<And>r. r \<in> collect_base_relations q \<Longrightarrow> D r = D' r"
  shows "query_value fuel q D recur ov = query_value fuel q D' recur ov"
  using assms
proof (induction q arbitrary: recur ov)
  case (QIterate init step)
  then have "query_value fuel init D None ov = query_value fuel init D' None ov"
    "(\<lambda>r. query_value fuel step D (Some r) ov) = (\<lambda>r. query_value fuel step D' (Some r) ov)"
    by auto
  then show ?case by simp
qed (auto simp: overriding_def split: option.splits intro!: rbind_cong)

lemma canonical_iterate_ref:
  "canonical r \<Longrightarrow> osorted init \<Longrightarrow> iterate_ref fuel step init r = Inr out \<Longrightarrow> canonical out"
  by (induction fuel arbitrary: r)
     (auto simp: Let_def result_simps split: if_splits intro: canonical_distinct osorted_zmerge)

definition canonical_overrides :: "overrides option \<Rightarrow> bool" where
  "canonical_overrides ov \<longleftrightarrow> (\<forall>r m. overridden ov r = Some m \<longrightarrow> canonical m)"

lemma canonical_overriding:
  "(\<And>r. canonical (D r)) \<Longrightarrow> canonical_overrides ov \<Longrightarrow> canonical (overriding D ov r)"
  by (auto simp: overriding_def canonical_overrides_def split: option.splits)

lemma canonical_join: "join_multisets l lk r rk = Inr out \<Longrightarrow> canonical out"
  using join_multisets_eq [of l lk r rk] join_multisets_Inr [of rk r lk l] by auto

lemma canonical_query_value:
  assumes D: "\<And>r. canonical (D r)" and ov: "canonical_overrides ov"
    and "\<And>m. recur = Some m \<Longrightarrow> canonical m"
    and "query_value fuel q D recur ov = Inr out"
  shows "canonical out"
  using assms(3,4)
proof (induction q arbitrary: recur out)
  case (QIterate init step)
  from QIterate.prems(2) obtain init_val where i: "query_value fuel init D None ov = Inr init_val"
    and run: "iterate_ref fuel (\<lambda>r. query_value fuel step D (Some r) ov) init_val
      (distinct_snapshot init_val) = Inr out"
    by (auto simp: result_simps split: if_splits)
  have "canonical init_val" by (rule QIterate.IH(1) [OF _ i]) simp
  then have "osorted init_val" by blast
  with run show ?case by (intro canonical_iterate_ref [OF _ _ run]) simp_all
next
  case (QProject q cols)
  from QProject.prems(2) show ?case by (auto simp: result_simps project_rows_eq split: if_splits)
next
  case (QInherit q col key ctx)
  from QInherit.prems(2) show ?case by (auto simp: result_simps)
next
  case (QMap q f)
  from QMap.prems(2) show ?case by (auto simp: result_simps)
next
  case QRecur
  then show ?case by (cases recur) simp_all
next
  case (QDistinct q)
  from QDistinct.prems(2) obtain m
    where m: "query_value fuel q D recur ov = Inr m" and out: "out = distinct_snapshot m"
    by (auto simp: result_simps)
  have "canonical m" by (rule QDistinct.IH [OF QDistinct.prems(1) m])
  then show ?case by (simp add: out canonicalD)
next
  case (QUnion a b)
  from QUnion.prems(2) obtain l r
    where l: "query_value fuel a D recur ov = Inr l" and out: "out = zunion l r"
    by (auto simp: result_simps)
  have "canonical l" by (rule QUnion.IH(1) [OF QUnion.prems(1) l])
  then show ?case by (simp add: out)
next
  case (QJoin l r lk rk)
  from QJoin.prems(2) show ?case by (auto simp: result_simps dest: canonical_join)
next
  case (QNegate q)
  from QNegate.prems(2) obtain m
    where m: "query_value fuel q D recur ov = Inr m" and out: "out = znegate m"
    by (auto simp: result_simps)
  have "canonical m" by (rule QNegate.IH [OF QNegate.prems(1) m])
  then show ?case by (simp add: out)
next
  case (QFilter q p)
  from QFilter.prems(2) obtain m
    where m: "query_value fuel q D recur ov = Inr m" and out: "out = filter_rows p m"
    by (auto simp: result_simps)
  have "canonical m" by (rule QFilter.IH [OF QFilter.prems(1) m])
  then show ?case by (simp add: out)
next
  case (QReduce q key agg)
  from QReduce.prems(2) show ?case by (auto simp: result_simps dest: canonical_reduce)
next
  case (QRel r)
  from QRel.prems(2) show ?case using canonical_overriding [of D ov, OF D ov] by auto
next
  case (QRangeRel r lo hi)
  from QRangeRel.prems(2) show ?case using canonical_overriding [of D ov, OF D ov] by auto
next
  case (QRangeRelOn r col lo hi)
  from QRangeRelOn.prems(2) show ?case using canonical_overriding [of D ov, OF D ov] by auto
next
  case (QMaterialized plan into prefix cursor_rel key reduce)
  from QMaterialized.prems(2) show ?case by (intro QMaterialized.IH [OF QMaterialized.prems(1)]) simp_all
next
  case (QShared a q)
  from QShared.prems(2) show ?case by (intro QShared.IH [OF QShared.prems(1)]) simp_all
qed

section \<open>Evaluation through a store\<close>

text \<open>The contents of each relation at an edition, as the store reads them.\<close>

definition contents :: "'s trace_ops \<Rightarrow> 's \<Rightarrow> edition \<Rightarrow> rel_id \<Rightarrow> zset" where
  "contents ops s e r = (case ts_read_at ops s r e of Inr rows \<Rightarrow> rows | Inl _ \<Rightarrow> [])"

text \<open>
  What is owed for a materialized copy (\<^verbatim>\<open>derived.rs\<close> keeps it): wherever the cursor row
  says the copy is current at edition \<open>e\<close>, because it has reached \<open>e\<close> or no base relation
  of the plan changed since, the stored rows under the prefix, after the aggregate if there
  is one, are the plan's value.
\<close>

definition cursor_says :: "rows \<Rightarrow> entity \<Rightarrow> edition \<Rightarrow> bool" where
  "cursor_says rows key c \<longleftrightarrow>
     (\<exists>(t, d)\<in>set rows. 0 < d \<and> (\<exists>i. t = [VEnt key, VInt i] \<and> c = edition_of_int i))"

definition prefix_rows :: "tuple \<Rightarrow> zset \<Rightarrow> zset" where
  "prefix_rows prefix m =
     drop_prefix (length prefix)
       (filter (\<lambda>(t, d). length prefix \<le> length t \<and> take (length prefix) t = prefix) m)"

definition copy_ok ::
  "nat \<Rightarrow> (rel_id \<Rightarrow> edition \<Rightarrow> tuple \<Rightarrow> diff) \<Rightarrow> (rel_id \<Rightarrow> zset) \<Rightarrow> edition \<Rightarrow>
   query \<Rightarrow> rel_id \<Rightarrow> tuple \<Rightarrow> rel_id \<Rightarrow> entity \<Rightarrow> (nat list \<times> agg) option \<Rightarrow> bool" where
  "copy_ok fuel w D e plan into prefix cursor_rel key reduce \<longleftrightarrow>
     (\<forall>c. cursor_says (D cursor_rel) key c \<and>
        (e \<le> c \<or> (\<forall>r\<in>set (base_relations plan). \<forall>t. w r e t = w r c t)) \<longrightarrow>
        reduce_stored reduce (prefix_rows prefix (D into)) = query_value fuel plan D None None)"

primrec copies_ok ::
  "nat \<Rightarrow> (rel_id \<Rightarrow> edition \<Rightarrow> tuple \<Rightarrow> diff) \<Rightarrow> (rel_id \<Rightarrow> zset) \<Rightarrow> edition \<Rightarrow> query \<Rightarrow> bool" where
  "copies_ok fuel w D e (QRel r) = True"
| "copies_ok fuel w D e (QRangeRel r lo hi) = True"
| "copies_ok fuel w D e (QRangeRelOn r col lo hi) = True"
| "copies_ok fuel w D e (QMap input f) = copies_ok fuel w D e input"
| "copies_ok fuel w D e (QFilter input p) = copies_ok fuel w D e input"
| "copies_ok fuel w D e (QProject input cols) = copies_ok fuel w D e input"
| "copies_ok fuel w D e (QJoin left right lk rk) =
     (copies_ok fuel w D e left \<and> copies_ok fuel w D e right)"
| "copies_ok fuel w D e (QUnion left right) =
     (copies_ok fuel w D e left \<and> copies_ok fuel w D e right)"
| "copies_ok fuel w D e (QNegate input) = copies_ok fuel w D e input"
| "copies_ok fuel w D e (QDistinct input) = copies_ok fuel w D e input"
| "copies_ok fuel w D e (QReduce input key agg) = copies_ok fuel w D e input"
| "copies_ok fuel w D e QRecur = True"
| "copies_ok fuel w D e (QIterate init step) =
     (copies_ok fuel w D e init \<and> copies_ok fuel w D e step)"
| "copies_ok fuel w D e (QInherit input col key ctx) = copies_ok fuel w D e input"
| "copies_ok fuel w D e (QMaterialized plan into prefix cursor_rel key reduce) =
     (copies_ok fuel w D e plan \<and> copy_ok fuel w D e plan into prefix cursor_rel key reduce)"
| "copies_ok fuel w D e (QShared a inner) = copies_ok fuel w D e inner"

lemma finite_base_relations [simp]: "finite (collect_base_relations q)"
  by (induction q) auto

lemma set_base_relations [simp]: "set (base_relations q) = collect_base_relations q"
  by (simp add: base_relations_def)

lemma find_map_Some: "find_map f xs = Some y \<Longrightarrow> \<exists>x\<in>set xs. f x = Some y"
  by (induction xs) (auto split: option.splits)

lemma cursor_of_Some_iff:
  "cursor_of p = Some c \<longleftrightarrow> (\<exists>x i d. p = ([x, VInt i], d) \<and> 0 < d \<and> c = edition_of_int i)"
  by (cases p rule: cursor_of.cases) auto


lemma from_pairs_restrict:
  assumes "represents rows (restrict P w)" "canonical m" "\<And>t. wsum m t = w t"
  shows "from_pairs rows = filter_rows P m"
  by (rule canonical_ext)
    (use assms in \<open>auto simp: represents_wsum wsum_filter_rows restrict_def\<close>)

lemma represents_restrict_mem:
  assumes "represents rows (restrict P w)" "canonical m" "\<And>t. wsum m t = w t"
  shows "(t, d) \<in> set rows \<longleftrightarrow> (t, d) \<in> set m \<and> P t"
  using assms by (auto simp: represents_def restrict_def canonical_mem)

lemma drop_prefix_cong:
  assumes "\<And>t. wsum rows t = wsum rows' t"
  shows "drop_prefix n rows = drop_prefix n rows'"
  by (rule canonical_ext)
    (auto simp: drop_prefix_def wsum_build wsum_image intro!: lsum_wsum_cong assms)

context trace_store
begin

lemma contents_ok:
  assumes "inv s" "ts_watermark ops s \<le> e"
  shows "ts_read_at ops s r e = Inr (contents ops s e r)" "canonical (contents ops s e r)"
    "wsum (contents ops s e r) t = W s r e t"
  using read_at [OF assms, of r] by (auto simp: contents_def)

lemma rel_node_meaning:
  assumes "inv s" "ts_watermark ops s \<le> e"
  shows "rel_node (ts_reader_at ops s e) ov r = Inr (overriding (contents ops s e) ov r)"
  using contents_ok [OF assms, of r] reader_read [OF assms(1), of e r]
  by (auto simp: rel_node_def overriding_def from_pairs_canonical split: option.splits)

lemma range_node_meaning:
  assumes "inv s" "ts_watermark ops s \<le> e"
  shows "range_node (ts_reader_at ops s e) ov r lo hi =
    Inr (filter_rows (in_range lo hi) (overriding (contents ops s e) ov r))"
  using reader_range [OF assms, of r lo hi]
    from_pairs_restrict [OF _ contents_ok(2,3) [OF assms], of _ "in_range lo hi" r]
  by (auto simp: range_node_def overriding_def split: option.splits)

lemma range_on_node_meaning:
  assumes "inv s" "ts_watermark ops s \<le> e"
  shows "range_on_node (ts_reader_at ops s e) ov r col lo hi =
    Inr (filter_rows (in_range_on col lo hi) (overriding (contents ops s e) ov r))"
  using reader_range_on [OF assms, of r col lo hi]
    from_pairs_restrict [OF _ contents_ok(2,3) [OF assms], of _ "in_range_on col lo hi" r]
  by (auto simp: range_on_node_def overriding_def split: option.splits)

lemma inherit_node_meaning:
  assumes "inv s" "ts_watermark ops s \<le> e"
  shows "inherit_node (ts_reader_at ops s e) ov col key ctx rows =
    Inr (inherit rows col key (overriding (contents ops s e) ov ctx))"
proof (cases "overridden ov ctx")
  case None
  obtain cr where cr: "er_read_containing (ts_reader_at ops s e) ctx 0 1 (distinct_cells rows col) = Inr cr"
    "represents cr (restrict (contains_any 0 1 (distinct_cells rows col)) (W s ctx e))"
    using reader_containing [OF assms] by blast
  have "inherit rows col key cr = inherit rows col key (contents ops s e ctx)"
    by (rule inherit_points)
      (simp add: represents_restrict_mem [OF cr(2) contents_ok(2,3) [OF assms]])
  with None cr show ?thesis by (simp add: inherit_node_def overriding_def)
qed (simp add: inherit_node_def overriding_def)

lemma cursor_at_meaning:
  assumes "inv s" "ts_watermark ops s \<le> e"
  shows "\<exists>c. cursor_at (ts_reader_at ops s e) cursor_rel key = Inr c \<and>
    (\<forall>x. c = Some x \<longrightarrow> cursor_says (contents ops s e cursor_rel) key x)"
proof (cases "key = 0xFFFFFFFFFFFFFFFF")
  case False
  obtain rows where rows: "er_read_range (ts_reader_at ops s e) cursor_rel [VEnt key] [VEnt (key + 1)] = Inr rows"
    "represents rows (restrict (in_range [VEnt key] [VEnt (key + 1)]) (W s cursor_rel e))"
    using reader_range [OF assms] by blast
  have "cursor_says (contents ops s e cursor_rel) key x" if "find_map cursor_of rows = Some x" for x
  proof -
    from find_map_Some [OF that] obtain y i d where y: "([y, VInt i], d) \<in> set rows" "0 < d"
      "x = edition_of_int i"
      by (auto simp: cursor_of_Some_iff)
    then have mem: "([y, VInt i], d) \<in> set (contents ops s e cursor_rel)"
      and "in_range [VEnt key] [VEnt (key + 1)] [y, VInt i]"
      by (simp_all add: represents_restrict_mem [OF rows(2) contents_ok(2,3) [OF assms]])
    then have "y = VEnt key"
      using prefix_span [of "[VEnt key]" "VEnt (key + 1)" "[y, VInt i]"] False by simp
    with y mem show ?thesis by (auto simp: cursor_says_def)
  qed
  with False rows show ?thesis by (simp add: cursor_at_def)
qed (simp add: cursor_at_def)

lemma stored_rows_meaning:
  assumes "inv s" "ts_watermark ops s \<le> e"
  shows "\<exists>rows. (if prefix = [] then er_read (ts_reader_at ops s e) into
            else (case successor (last prefix) of
                    Some next \<Rightarrow> er_read_range (ts_reader_at ops s e) into prefix (butlast prefix @ [next])
                  | None \<Rightarrow> rbind (er_read (ts_reader_at ops s e) into)
                      (\<lambda>rows. Inr (filter (\<lambda>(t, d). length prefix \<le> length t \<and> take (length prefix) t = prefix) rows))))
      = Inr rows \<and> (\<forall>(t, d)\<in>set rows. length prefix \<le> length t) \<and>
        drop_prefix (length prefix) rows = prefix_rows prefix (contents ops s e into)"
proof -
  let ?P = "\<lambda>t. length prefix \<le> length t \<and> take (length prefix) t = prefix"
  have rd: "er_read (ts_reader_at ops s e) into = Inr (contents ops s e into)"
    using reader_read [OF assms(1)] contents_ok(1) [OF assms] by simp
  consider "prefix = []" | y where "prefix \<noteq> []" "successor (last prefix) = Some y"
    | "prefix \<noteq> []" "successor (last prefix) = None" by fastforce
  then show ?thesis
  proof cases
    case 1
    then show ?thesis by (auto simp: rd prefix_rows_def)
  next
    case 2
    obtain rows where rows: "er_read_range (ts_reader_at ops s e) into prefix (butlast prefix @ [y]) = Inr rows"
      "represents rows (restrict (in_range prefix (butlast prefix @ [y])) (W s into e))"
      using reader_range [OF assms] by blast
    have P: "restrict (in_range prefix (butlast prefix @ [y])) (W s into e) = restrict ?P (W s into e)"
      by (simp add: restrict_def fun_eq_iff prefix_span [OF 2])
    have "wsum rows t = wsum (filter (\<lambda>(t, d). ?P t) (contents ops s e into)) t" for t
      using represents_wsum [OF rows(2) [unfolded P], of t] contents_ok(3) [OF assms, of into t]
      by (simp add: wsum_filter restrict_def)
    from drop_prefix_cong [OF this]
    have "drop_prefix (length prefix) rows = prefix_rows prefix (contents ops s e into)"
      by (simp add: prefix_rows_def)
    moreover have "\<forall>(t, d)\<in>set rows. length prefix \<le> length t"
      using represents_restrict_mem [OF rows(2) [unfolded P] contents_ok(2,3) [OF assms]] by auto
    ultimately show ?thesis using 2 rows by simp
  next
    case 3
    then show ?thesis by (auto simp: rd prefix_rows_def)
  qed
qed

lemma stored_view_meaning:
  assumes "inv s" "ts_watermark ops s \<le> e"
  shows "stored_view (ts_reader_at ops s e) plan into prefix cursor_rel key = Inr None \<or>
    stored_view (ts_reader_at ops s e) plan into prefix cursor_rel key =
      Inr (Some (prefix_rows prefix (contents ops s e into))) \<and>
    (\<exists>c. cursor_says (contents ops s e cursor_rel) key c \<and>
      (e \<le> c \<or> (\<forall>r\<in>set (base_relations plan). \<forall>t. W s r e t = W s r c t)))"
proof -
  obtain c where c: "cursor_at (ts_reader_at ops s e) cursor_rel key = Inr c"
    "\<And>x. c = Some x \<Longrightarrow> cursor_says (contents ops s e cursor_rel) key x"
    using cursor_at_meaning [OF assms] by blast
  show ?thesis
  proof (cases c)
    case None
    then show ?thesis using c by (simp add: stored_view_def)
  next
    case (Some x)
    obtain b where b: "er_touched_since (ts_reader_at ops s e) x (base_relations plan) = Inr b"
      "\<not> b \<and> x \<le> e \<longrightarrow> (\<forall>r\<in>set (base_relations plan). \<forall>t. W s r e t = W s r x t)"
      using reader_touched [OF assms(1)] by blast
    show ?thesis
    proof (cases b)
      case True
      then show ?thesis using c b Some by (simp add: stored_view_def)
    next
      case False
      have current: "e \<le> x \<or> (\<forall>r\<in>set (base_relations plan). \<forall>t. W s r e t = W s r x t)"
        using b(2) False by auto
      obtain rows where rows: "(if prefix = [] then er_read (ts_reader_at ops s e) into
            else (case successor (last prefix) of
                    Some next \<Rightarrow> er_read_range (ts_reader_at ops s e) into prefix (butlast prefix @ [next])
                  | None \<Rightarrow> rbind (er_read (ts_reader_at ops s e) into)
                      (\<lambda>rows. Inr (filter (\<lambda>(t, d). length prefix \<le> length t \<and> take (length prefix) t = prefix) rows))))
          = Inr rows" "\<forall>(t, d)\<in>set rows. length prefix \<le> length t"
        "drop_prefix (length prefix) rows = prefix_rows prefix (contents ops s e into)"
        using stored_rows_meaning [OF assms] by blast
      have "\<not> (\<exists>(t, d)\<in>set rows. length t < length prefix)" using rows(2) by auto
      then have "stored_view (ts_reader_at ops s e) plan into prefix cursor_rel key =
          Inr (Some (prefix_rows prefix (contents ops s e into)))"
        using c(1) b(1) False Some rows(1,3) unfolding stored_view_def Let_def by simp
      with current c(2) [OF Some] show ?thesis by blast
    qed
  qed
qed

text \<open>The refinement: the evaluator computes the plan's value on the store's contents.\<close>

lemma eval_ref_meaning:
  assumes "inv s" "ts_watermark ops s \<le> e"
    and "copies_ok fuel (W s) (contents ops s e) e q"
  shows "eval_ref fuel q (ts_reader_at ops s e) recur ov = query_value fuel q (contents ops s e) recur ov"
  using assms(3)
proof (induction q arbitrary: recur ov)
  case (QIterate init step)
  then have "(\<lambda>r. eval_ref fuel step (ts_reader_at ops s e) (Some r) ov) =
      (\<lambda>r. query_value fuel step (contents ops s e) (Some r) ov)"
    by (simp add: fun_eq_iff)
  with QIterate show ?case by simp
next
  case (QMaterialized plan into prefix cursor_rel key reduce)
  have IH: "eval_ref fuel plan (ts_reader_at ops s e) recur ov =
      query_value fuel plan (contents ops s e) recur ov" for recur ov
    using QMaterialized by simp
  show ?case
  proof (cases "recur = None \<and> ov = None")
    case True
    have copy: "copy_ok fuel (W s) (contents ops s e) e plan into prefix cursor_rel key reduce"
      using QMaterialized.prems by simp
    from stored_view_meaning [OF assms(1,2), of plan into prefix cursor_rel key] show ?thesis
    proof
      assume "stored_view (ts_reader_at ops s e) plan into prefix cursor_rel key = Inr None"
      then show ?thesis using True IH by simp
    next
      assume *: "stored_view (ts_reader_at ops s e) plan into prefix cursor_rel key =
          Inr (Some (prefix_rows prefix (contents ops s e into))) \<and>
        (\<exists>c. cursor_says (contents ops s e cursor_rel) key c \<and>
          (e \<le> c \<or> (\<forall>r\<in>set (base_relations plan). \<forall>t. W s r e t = W s r c t)))"
      with copy have "reduce_stored reduce (prefix_rows prefix (contents ops s e into)) =
          query_value fuel plan (contents ops s e) None None"
        unfolding copy_ok_def by blast
      with * True show ?thesis by simp
    qed
  next
    case False
    then have "(if recur = None \<and> ov = None
        then stored_view (ts_reader_at ops s e) plan into prefix cursor_rel key else Inr None) = Inr None"
      by (rule if_not_P)
    then show ?thesis by (simp only: eval_ref.simps rbind.simps option.case IH query_value.simps)
  qed
next
  case (QInherit q col key ctx)
  have "inherit_node (ts_reader_at ops s e) ov col key ctx =
      (\<lambda>m. Inr (inherit m col key (overriding (contents ops s e) ov ctx)))"
    by (rule ext) (rule inherit_node_meaning [OF assms(1,2)])
  with QInherit show ?case by simp
qed (simp_all add: rel_node_meaning range_node_meaning range_on_node_meaning assms(1,2))

lemma snapshot_meaning:
  assumes "inv s" "ts_watermark ops s \<le> e" "copies_ok fuel (W s) (contents ops s e) e q" "arcs_ok env q"
  shows "eval_snapshot fuel q ops s e = query_value fuel q (contents ops s e) None None"
  by (simp add: eval_snapshot_def eval_snapshot_on_ref [OF assms(4)] eval_ref_meaning [OF assms(1-3)])

end

end
