(* ===== verification/Ent_Store.thy ===== *)
theory Ent_Store
  imports Canopy Meaning
begin

text \<open>
  The Ent (\<^verbatim>\<open>grmpl-ent/src/store.rs\<close>): one branch's state and the operations
  of its trace store. Every enfilade of the source is the ordered map of its entries; a
  \<open>Tree\<close> walks in key order under either layout, so a layout decides how a walk prunes
  and not what it returns. Staging and waiting for durability are I/O and do not change
  what the store says, so a commit here is its short critical section: allocate, apply,
  return the edition. The spanfilade, branches and merges are not modelled.
\<close>

section \<open>State\<close>

datatype layout = Ordered | Kd

record shape =
  sh_layout :: layout
  sh_runs :: bool

definition shape_default :: shape where
  "shape_default = \<lparr>sh_layout = Ordered, sh_runs = False\<rparr>"

datatype log_entry = LUpdate tuple diff | LGraft tuple tuple

type_synonym origin = "(nat \<times> edition) option"

datatype patch_record =
    PCommit "precond list" "rel_id list" origin
  | PGraft "rel_id list" "u64 \<times> u64" i64 origin

record rel_roots =
  versions :: "(edition \<times> zset) list"
  log :: "((edition \<times> nat) \<times> log_entry) list"
  orders :: "(nat \<times> zset) list"

definition roots_default :: rel_roots where
  "roots_default = \<lparr>versions = [], log = [], orders = []\<rparr>"

record ent =
  en_current :: edition
  en_watermark :: edition
  en_rels :: "(rel_id \<times> rel_roots) list"
  en_ctx :: "(tuple \<times> val) list"
  en_canopy :: canopy
  en_fired :: "((interest_id \<times> edition) \<times> unit) list"
  en_interests :: "((rel_id \<times> tuple \<times> tuple) \<times> interest_id) list"
  en_registered :: "(interest_id \<times> edition) list"
  en_patches :: "(edition \<times> patch_record) list"
  en_shape :: shape
  en_shapes :: "(rel_id \<times> shape) list"

definition ent_empty :: ent where
  "ent_empty = \<lparr>en_current = 0, en_watermark = 0, en_rels = [], en_ctx = [], en_canopy = canopy_new,
     en_fired = [], en_interests = [], en_registered = [], en_patches = [],
     en_shape = shape_default, en_shapes = []\<rparr>"

definition roots :: "ent \<Rightarrow> rel_id \<Rightarrow> rel_roots option" where
  "roots s rel = om_get (en_rels s) rel"

definition fact_at :: "ent \<Rightarrow> rel_id \<Rightarrow> edition \<Rightarrow> zset option" where
  "fact_at s rel at =
     (case roots s rel of None \<Rightarrow> None | Some r \<Rightarrow> map_option snd (om_last_le at (versions r)))"

definition log_of :: "ent \<Rightarrow> rel_id \<Rightarrow> ((edition \<times> nat) \<times> log_entry) list option" where
  "log_of s rel = map_option log (roots s rel)"

definition shape_of :: "ent \<Rightarrow> rel_id \<Rightarrow> shape" where
  "shape_of s rel = (case om_get (en_shapes s) rel of None \<Rightarrow> en_shape s | Some sh \<Rightarrow> sh)"

definition layout_of :: "ent \<Rightarrow> rel_id \<Rightarrow> layout" where
  "layout_of s rel = sh_layout (shape_of s rel)"

definition written :: "ent \<Rightarrow> rel_id \<Rightarrow> bool" where
  "written s rel \<longleftrightarrow>
     (case roots s rel of None \<Rightarrow> False | Some r \<Rightarrow> versions r \<noteq> [] \<or> log r \<noteq> [])"

definition put_roots :: "rel_id \<Rightarrow> rel_roots \<Rightarrow> ent \<Rightarrow> ent" where
  "put_roots rel r s = s\<lparr>en_rels := om_put rel r (en_rels s)\<rparr>"

definition rel_ids :: "ent \<Rightarrow> rel_id list" where
  "rel_ids s = map fst (en_rels s)"

definition roots_or_default :: "ent \<Rightarrow> rel_id \<Rightarrow> rel_roots" where
  "roots_or_default s rel = (case roots s rel of None \<Rightarrow> roots_default | Some r \<Rightarrow> r)"

section \<open>Arrangements\<close>

text \<open>
  An arrangement holds the facts with one column moved to the front. A column index is
  below \<open>2\<^sup>3\<^sup>2\<close>, the width the directory of arrangements keeps it at.
\<close>

definition rotate_tuple :: "tuple \<Rightarrow> nat \<Rightarrow> tuple option" where
  "rotate_tuple t col =
     (if length t \<le> col then None
      else if col = 0 then Some t
      else Some (t ! col # take col t @ drop (col + 1) t))"

definition unrotate_tuple :: "tuple \<Rightarrow> nat \<Rightarrow> tuple" where
  "unrotate_tuple t col =
     (if col = 0 \<or> length t \<le> col then t
      else take col (tl t) @ t ! 0 # drop (col + 1) t)"

text \<open>One tuple of a tree, at its new weight: removed when the weight is zero.\<close>

definition set_weight :: "tuple \<Rightarrow> diff \<Rightarrow> zset \<Rightarrow> zset" where
  "set_weight t net m = (if net = 0 then om_del t m else om_put t net m)"

definition arrange :: "nat \<Rightarrow> zset \<Rightarrow> zset" where
  "arrange col facts = foldl (\<lambda>arr (k, v).
     case rotate_tuple k col of None \<Rightarrow> arr | Some key \<Rightarrow> om_put key v arr) [] facts"

definition ensure_order :: "rel_id \<Rightarrow> nat \<Rightarrow> ent \<Rightarrow> ent" where
  "ensure_order rel col s =
     (case roots s rel of
        None \<Rightarrow> s
      | Some r \<Rightarrow>
          if om_get (orders r) col \<noteq> None then s
          else
            let arr = (case om_last_le (en_current s) (versions r) of
                None \<Rightarrow> [] | Some (e, facts) \<Rightarrow> arrange col facts)
            in put_roots rel (r\<lparr>orders := om_put col arr (orders r)\<rparr>) s)"

section \<open>Committing\<close>

text \<open>The steps of \<open>fold_fact\<close> on one relation's roots.\<close>

definition step_order :: "tuple \<Rightarrow> diff \<Rightarrow> nat \<times> zset \<Rightarrow> nat \<times> zset" where
  "step_order t net = (\<lambda>(col, arr).
     (col, case rotate_tuple t col of None \<Rightarrow> arr | Some key \<Rightarrow> set_weight key net arr))"

definition fold_roots :: "edition \<Rightarrow> tuple \<Rightarrow> diff \<Rightarrow> rel_roots \<Rightarrow> rel_roots" where
  "fold_roots e t d r =
     (let base = (case om_last_le e (versions r) of None \<Rightarrow> [] | Some (_, facts) \<Rightarrow> facts);
          cur = (case om_get base t of None \<Rightarrow> 0 | Some w \<Rightarrow> w);
          net = cur + d;
          root = set_weight t net base
      in r\<lparr>versions := om_put e root (versions r), orders := map (step_order t net) (orders r)\<rparr>)"

definition fold_fact :: "edition \<Rightarrow> rel_id \<Rightarrow> tuple \<Rightarrow> diff \<Rightarrow> ent \<Rightarrow> ent" where
  "fold_fact e rel t d s = put_roots rel (fold_roots e t d (roots_or_default s rel)) s"

definition append_log :: "edition \<Rightarrow> nat \<Rightarrow> rel_id \<Rightarrow> tuple \<Rightarrow> diff \<Rightarrow> ent \<Rightarrow> ent" where
  "append_log e i rel t d s =
     (let r = roots_or_default s rel
      in put_roots rel (r\<lparr>log := om_put (e, i) (LUpdate t d) (log r)\<rparr>) s)"

fun apply_updates :: "edition \<Rightarrow> nat \<Rightarrow> upd list \<Rightarrow> ent \<Rightarrow> ent" where
  "apply_updates e i [] s = s"
| "apply_updates e i ((rel, t, d) # us) s =
     apply_updates e (Suc i) us (fold_fact e rel t d (append_log e i rel t d s))"

definition fire :: "edition \<Rightarrow> interest_id list \<Rightarrow> ent \<Rightarrow> ent" where
  "fire e ids s = s\<lparr>en_fired := foldl (\<lambda>m i. om_put (i, e) () m) (en_fired s) ids\<rparr>"

definition route_commit :: "edition \<Rightarrow> upd list \<Rightarrow> ent \<Rightarrow> ent" where
  "route_commit e us s =
     (if canopy_is_empty (en_canopy s) then s else fire e (route (en_canopy s) us) s)"

definition apply_commit :: "edition \<Rightarrow> precond list \<Rightarrow> upd list \<Rightarrow> origin \<Rightarrow> ent \<Rightarrow> ent" where
  "apply_commit e pre us orig s =
     (let rels = remdups_adj (sort (map fst us));
          s = s\<lparr>en_patches := om_put e (PCommit pre rels orig) (en_patches s)\<rparr>;
          s = apply_updates e 0 us s;
          s = route_commit e us s
      in s\<lparr>en_current := e\<rparr>)"

definition holds_now :: "ent \<Rightarrow> rel_id \<Rightarrow> tuple \<Rightarrow> bool" where
  "holds_now s rel t =
     (case fact_at s rel (en_current s) of
        None \<Rightarrow> False
      | Some facts \<Rightarrow> (case om_get facts t of None \<Rightarrow> False | Some n \<Rightarrow> n > 0))"

definition ent_commit :: "upd list \<Rightarrow> (ent, edition) op" where
  "ent_commit us s =
     (let e = en_current s + 1 in (Inr e, apply_commit e [] us None s))"

definition ent_commit_if :: "precond list \<Rightarrow> upd list \<Rightarrow> (ent, edition option) op" where
  "ent_commit_if pre us s =
     (if \<exists>(rel, t)\<in>set pre. \<not> holds_now s rel t then (Inr None, s)
      else let e = en_current s + 1 in (Inr (Some e), apply_commit e pre us None s))"

section \<open>Reading\<close>

definition door :: "string \<Rightarrow> failure" where
  "door oper = Err (EStore (oper @ '' below watermark''))"

text \<open>What a walk of the Fact root in force finds.\<close>

definition facts_at :: "ent \<Rightarrow> rel_id \<Rightarrow> edition \<Rightarrow> zset" where
  "facts_at s rel at = (case fact_at s rel at of None \<Rightarrow> [] | Some facts \<Rightarrow> facts)"

definition ent_read_at :: "ent \<Rightarrow> rel_id \<Rightarrow> edition \<Rightarrow> rows result" where
  "ent_read_at s rel at =
     (if at < en_watermark s then Inl (door ''read_at'') else Inr (facts_at s rel at))"

definition range_at :: "ent \<Rightarrow> rel_id \<Rightarrow> edition \<Rightarrow> tuple \<Rightarrow> tuple \<Rightarrow> rows result" where
  "range_at s rel at lo hi =
     (if at < en_watermark s then Inl (door ''range_at'')
      else Inr (om_range lo hi (facts_at s rel at)))"

text \<open>The rows one log entry stands for: a graft's are read back from its edition's root.\<close>

fun log_rows :: "(edition \<times> zset) list \<Rightarrow> (edition \<times> nat) \<times> log_entry \<Rightarrow> update list result" where
  "log_rows vs ((e, i), LUpdate t d) = Inr [\<lparr>u_tuple = t, u_time = time_input e, u_diff = d\<rparr>]"
| "log_rows vs ((e, i), LGraft lo hi) =
     (case om_get vs e of
        None \<Rightarrow> Inl (Err (EStore ''graft at edition has no Fact root''))
      | Some root \<Rightarrow> Inr (map (\<lambda>(t, d). \<lparr>u_tuple = t, u_time = time_input e, u_diff = d\<rparr>)
          (om_range lo hi root)))"

definition ent_scan_updates :: "ent \<Rightarrow> rel_id \<Rightarrow> edition \<Rightarrow> edition \<Rightarrow> update list result" where
  "ent_scan_updates s rel from to =
     (if from < en_watermark s then Inl (door ''scan_updates'')
      else case roots s rel of
        None \<Rightarrow> Inr []
      | Some r \<Rightarrow> rbind (rmapM (log_rows (versions r)) (om_range (from + 1, 0) (to + 1, 0) (log r)))
          (\<lambda>rows. Inr (concat rows)))"

fun touched_rels :: "ent \<Rightarrow> edition \<Rightarrow> edition \<Rightarrow> rel_id list \<Rightarrow> bool" where
  "touched_rels s from to [] = False"
| "touched_rels s from to (rel # rels) =
     (case log_of s rel of
        None \<Rightarrow> touched_rels s from to rels
      | Some l \<Rightarrow> if length (om_range (from + 1, 0) (to + 1, 0) l) > 0 then True
          else touched_rels s from to rels)"

definition ent_touched_since :: "ent \<Rightarrow> edition \<Rightarrow> edition \<Rightarrow> rel_id list \<Rightarrow> bool result" where
  "ent_touched_since s from to rels =
     (if from < en_watermark s then Inr True else Inr (touched_rels s from to rels))"

text \<open>Searches over a tree: a walk in key order of the rows that match.\<close>

definition search_box :: "zset \<Rightarrow> (nat \<times> u64 \<times> u64) list \<Rightarrow> rows" where
  "search_box facts bounds = keep_rows (\<lambda>t. \<forall>(col, lo, hi)\<in>set bounds.
     (case get t col of Some (VEnt e) \<Rightarrow> lo \<le> e \<and> e < hi | _ \<Rightarrow> False)) facts"

definition kd_range_on :: "nat \<Rightarrow> val \<Rightarrow> val \<Rightarrow> zset \<Rightarrow> rows" where
  "kd_range_on col lo hi facts = keep_rows (in_range_on col lo hi) facts"

definition is_ent :: "val \<Rightarrow> bool" where
  "is_ent v = (case v of VEnt _ \<Rightarrow> True | _ \<Rightarrow> False)"

definition stab_rows :: "zset \<Rightarrow> nat \<Rightarrow> nat \<Rightarrow> val list \<Rightarrow> rows option" where
  "stab_rows facts fcol lcol points =
     (if \<forall>p\<in>set points. is_ent p then Some (keep_rows (contains_any fcol lcol points) facts)
      else None)"

definition ent_read_containing ::
  "ent \<Rightarrow> rel_id \<Rightarrow> edition \<Rightarrow> nat \<Rightarrow> nat \<Rightarrow> val list \<Rightarrow> rows result" where
  "ent_read_containing s rel at fcol lcol points =
     (if at < en_watermark s then Inl (door ''read_containing'')
      else case fact_at s rel at of
        None \<Rightarrow> Inr []
      | Some facts \<Rightarrow> Inr (case stab_rows facts fcol lcol points of
            Some rows \<Rightarrow> rows
          | None \<Rightarrow> keep_rows (contains_any fcol lcol points) facts))"

definition unrotate_rows :: "nat \<Rightarrow> rows \<Rightarrow> rows" where
  "unrotate_rows col rows = map (\<lambda>(k, v). (unrotate_tuple k col, v)) rows"

text \<open>
  \<open>read_range_on\<close>. At the current edition it reads an arrangement, built on first use, so
  it returns the state it leaves.
\<close>

definition ent_read_range_on :: "rel_id \<Rightarrow> edition \<Rightarrow> nat \<Rightarrow> val \<Rightarrow> val \<Rightarrow> (ent, rows) op" where
  "ent_read_range_on rel at col lo hi s =
     (if at < en_watermark s then (Inl (door ''read_range_on''), s)
      else if col = 0 then (Inr (om_range [lo] [hi] (facts_at s rel at)), s)
      else if layout_of s rel = Kd then (Inr (kd_range_on col lo hi (facts_at s rel at)), s)
      else if at \<noteq> en_current s then
        (case (lo, hi) of
           (VEnt l, VEnt h) \<Rightarrow> (Inr (search_box (facts_at s rel at) [(col, l, h)]), s)
         | _ \<Rightarrow> (Inr (keep_rows (in_range_on col lo hi) (facts_at s rel at)), s))
      else
        let s' = ensure_order rel col s in
        case (case roots s' rel of None \<Rightarrow> None | Some r \<Rightarrow> om_get (orders r) col) of
          None \<Rightarrow> (Inr [], s')
        | Some arr \<Rightarrow> (Inr (unrotate_rows col (om_range [lo] [hi] arr)), s'))"

definition ent_successor :: "val \<Rightarrow> val option" where
  "ent_successor v =
     (case v of
        VEnt e \<Rightarrow> if e = - 1 then None else Some (VEnt (e + 1))
      | VInt n \<Rightarrow> if sint n = 2 ^ 63 - 1 then None else Some (VInt (n + 1))
      | _ \<Rightarrow> None)"

fun key_spans :: "val list \<Rightarrow> (val \<times> val) list option" where
  "key_spans [] = Some []"
| "key_spans (k # ks) =
     (case (ent_successor k, key_spans ks) of
        (Some n, Some spans) \<Rightarrow> Some ((k, n) # spans)
      | _ \<Rightarrow> None)"

definition probe :: "zset \<Rightarrow> (val \<times> val) list \<Rightarrow> rows" where
  "probe facts spans = concat (map (\<lambda>(lo, hi). om_range [lo] [hi] facts) spans)"

definition sorted_keys :: "val list \<Rightarrow> val list" where
  "sorted_keys keys = remdups_adj (sort keys)"

text \<open>The last resort of \<open>lookup\<close>: one pass over the relation.\<close>

definition lookup_pass :: "zset \<Rightarrow> nat \<Rightarrow> val list \<Rightarrow> rows" where
  "lookup_pass facts col keys =
     (if \<forall>k\<in>set keys. is_ent k
      then keep_rows (\<lambda>t. case get t col of Some (VEnt e) \<Rightarrow> VEnt e \<in> set keys | _ \<Rightarrow> False) facts
      else keep_rows (\<lambda>t. case get t col of Some v \<Rightarrow> v \<in> set keys | None \<Rightarrow> False) facts)"

definition ent_lookup :: "rel_id \<Rightarrow> edition \<Rightarrow> nat \<Rightarrow> val list \<Rightarrow> (ent, rows) op" where
  "ent_lookup rel at col keys0 s =
     (let keys = sorted_keys keys0; spans = key_spans keys;
          pass = (Inr (lookup_pass (facts_at s rel at) col keys), s) in
      if at < en_watermark s then (Inl (door ''lookup''), s)
      else case spans of
        None \<Rightarrow> pass
      | Some spans \<Rightarrow>
          if col = 0 then (Inr (probe (facts_at s rel at) spans), s)
          else if layout_of s rel = Kd then
            (Inr (sort (concat (map (\<lambda>(lo, hi). kd_range_on col lo hi (facts_at s rel at)) spans))), s)
          else if at = en_current s then
            let s' = ensure_order rel col s in
            case (case roots s' rel of None \<Rightarrow> None | Some r \<Rightarrow> om_get (orders r) col) of
              None \<Rightarrow> (Inr [], s')
            | Some arr \<Rightarrow> (Inr (unrotate_rows col (probe arr spans)), s')
          else pass)"

section \<open>Interests, comparison, consolidation\<close>

definition ent_register :: "rel_id \<Rightarrow> tuple \<Rightarrow> tuple \<Rightarrow> ent \<Rightarrow> interest_id \<times> ent" where
  "ent_register rel lo hi s =
     (let (iid, c) = register rel lo hi (en_canopy s) in
      (iid, s\<lparr>en_canopy := c,
        en_interests := om_put (rel, lo, hi) iid (en_interests s),
        en_registered := om_put iid (en_current s) (en_registered s)\<rparr>))"

definition ent_touched_range_since ::
  "edition \<Rightarrow> edition \<Rightarrow> rel_id \<Rightarrow> tuple \<Rightarrow> tuple \<Rightarrow> (ent, bool) op" where
  "ent_touched_range_since from to rel lo hi s =
     (if from < en_watermark s then (Inr True, s)
      else
        let (iid, fresh, s') = (case om_get (en_interests s) (rel, lo, hi) of
              Some iid \<Rightarrow> (iid, False, s)
            | None \<Rightarrow> let (iid, s') = ent_register rel lo hi s in (iid, True, s')) in
        if to \<le> from then (Inr False, s')
        else
          let since = (case om_get (en_registered s') iid of None \<Rightarrow> 0 | Some e \<Rightarrow> e) in
          if fresh \<or> from < since then (ent_touched_since s' from to [rel], s')
          else (Inr (length (om_range (iid, from + 1) (iid, to + 1) (en_fired s')) > 0), s'))"

text \<open>\<open>Tree::diff\<close>: the keys of both versions in order, with what each binds, where they differ.\<close>

definition tree_diff :: "zset \<Rightarrow> zset \<Rightarrow> (tuple \<times> diff option \<times> diff option) list" where
  "tree_diff a b =
     filter (\<lambda>(k, x, y). x \<noteq> y)
       (map (\<lambda>k. (k, om_get a k, om_get b k)) (remdups_adj (sort (map fst a @ map fst b))))"

definition version_compare ::
  "ent \<Rightarrow> rel_id \<Rightarrow> edition \<Rightarrow> edition \<Rightarrow> (tuple \<times> diff option \<times> diff option) list result" where
  "version_compare s rel a b =
     (if a < en_watermark s \<or> b < en_watermark s then Inl (door ''compare'')
      else Inr (tree_diff (facts_at s rel a) (facts_at s rel b)))"

definition weight_or_zero :: "diff option \<Rightarrow> diff" where
  "weight_or_zero w = (case w of None \<Rightarrow> 0 | Some d \<Rightarrow> d)"

definition ent_compare :: "ent \<Rightarrow> rel_id \<Rightarrow> edition \<Rightarrow> edition \<Rightarrow> (tuple \<times> diff \<times> diff) list result" where
  "ent_compare s rel a b =
     rbind (version_compare s rel a b)
       (\<lambda>rows. Inr (map (\<lambda>(t, wa, wb). (t, weight_or_zero wa, weight_or_zero wb)) rows))"

definition retire :: "edition \<Rightarrow> rel_roots \<Rightarrow> rel_roots" where
  "retire wm r =
     (let vs = snd (om_split (wm + 1) (versions r));
          vs = (case om_last_le wm (versions r) of None \<Rightarrow> vs | Some (_, t) \<Rightarrow> om_put wm t vs)
      in \<lparr>versions = vs, log = snd (om_split (wm + 1, 0) (log r)), orders = []\<rparr>)"

definition ent_consolidate :: "edition \<Rightarrow> (ent, edition) op" where
  "ent_consolidate up_to s =
     (let wm = min up_to (en_current s) in
      if wm \<le> en_watermark s then (Inr (en_watermark s), s)
      else
        let s' = foldl (\<lambda>s rel. put_roots rel (retire wm (roots_or_default s rel)) s) s (rel_ids s)
        in (Inr wm, s'\<lparr>en_patches := snd (om_split (wm + 1) (en_patches s')), en_watermark := wm\<rparr>))"

section \<open>Readers\<close>

text \<open>
  \<open>EntReader\<close>: the directory and watermark as of its construction. The two reads that
  re-enter the store go back to it; they are taken here at the state the reader was made in.
\<close>

definition ent_reader_at :: "ent \<Rightarrow> edition \<Rightarrow> edition_reader" where
  "ent_reader_at s at = \<lparr>
     er_edition = at,
     er_read = (\<lambda>rel. ent_read_at s rel at),
     er_read_range = (\<lambda>rel lo hi.
       if at < en_watermark s then Inl (door ''read_range'')
       else Inr (om_range lo hi (facts_at s rel at))),
     er_read_range_on = (\<lambda>rel col lo hi. fst (ent_read_range_on rel at col lo hi s)),
     er_read_containing = (\<lambda>rel fcol lcol points. ent_read_containing s rel at fcol lcol points),
     er_touched_since = (\<lambda>from rels. if at \<le> from then Inr False else ent_touched_since s from at rels)\<rparr>"

definition ent_ops :: "ent trace_ops" where
  "ent_ops = \<lparr>
     ts_current = en_current,
     ts_watermark = en_watermark,
     ts_commit = ent_commit,
     ts_commit_if = ent_commit_if,
     ts_consolidate = ent_consolidate,
     ts_read_at = ent_read_at,
     ts_scan_updates = ent_scan_updates,
     ts_read_range = range_at,
     ts_read_range_on = (\<lambda>s rel at col lo hi. fst (ent_read_range_on rel at col lo hi s)),
     ts_lookup = (\<lambda>s rel at col keys. fst (ent_lookup rel at col keys s)),
     ts_read_containing = ent_read_containing,
     ts_touched_since = ent_touched_since,
     ts_touched_range_since = ent_touched_range_since,
     ts_compare = ent_compare,
     ts_reader_at = ent_reader_at\<rparr>"

section \<open>Counting, searching and shaping\<close>

definition count_at :: "ent \<Rightarrow> rel_id \<Rightarrow> edition \<Rightarrow> tuple \<Rightarrow> tuple \<Rightarrow> nat result" where
  "count_at s rel at lo hi =
     (if at < en_watermark s then Inl (door ''count_at'')
      else Inr (length (om_range lo hi (facts_at s rel at))))"

definition search_at :: "ent \<Rightarrow> rel_id \<Rightarrow> edition \<Rightarrow> (nat \<times> u64 \<times> u64) list \<Rightarrow> rows result" where
  "search_at s rel at bounds =
     (if at < en_watermark s then Inl (door ''search_at'')
      else Inr (search_box (facts_at s rel at) bounds))"

definition rows_at :: "ent \<Rightarrow> rel_id \<Rightarrow> edition \<Rightarrow> nat result" where
  "rows_at s rel at =
     (if at < en_watermark s then Inl (door ''rows_at'') else Inr (length (facts_at s rel at)))"

definition reshape :: "rel_id \<Rightarrow> string \<Rightarrow> (shape \<Rightarrow> shape) \<Rightarrow> (ent, unit) op" where
  "reshape rel oper change s =
     (let sh = change (shape_of s rel) in
      if written s rel then
        if sh = shape_of s rel then (Inr (), s)
        else (Inl (Err (EStore (oper @ '': relation already has versions''))), s)
      else (Inr (), s\<lparr>en_shapes := om_put rel sh (en_shapes s)\<rparr>))"

definition set_layout :: "rel_id \<Rightarrow> layout \<Rightarrow> (ent, unit) op" where
  "set_layout rel l = reshape rel ''set_layout'' (\<lambda>sh. sh\<lparr>sh_layout := l\<rparr>)"

definition set_runs :: "rel_id \<Rightarrow> bool \<Rightarrow> (ent, unit) op" where
  "set_runs rel b = reshape rel ''set_runs'' (\<lambda>sh. sh\<lparr>sh_runs := b\<rparr>)"

definition reshape_default :: "string \<Rightarrow> (shape \<Rightarrow> shape) \<Rightarrow> (ent, unit) op" where
  "reshape_default oper change s =
     (let sh = change (en_shape s) in
      if sh = en_shape s then (Inr (), s)
      else if \<exists>rel\<in>set (rel_ids s). om_get (en_shapes s) rel = None \<and> written s rel
      then (Inl (Err (EStore (oper @ '': relation already has versions''))), s)
      else (Inr (), s\<lparr>en_shape := sh\<rparr>))"

definition set_default_layout :: "layout \<Rightarrow> (ent, unit) op" where
  "set_default_layout l = reshape_default ''set_default_layout'' (\<lambda>sh. sh\<lparr>sh_layout := l\<rparr>)"

definition set_default_runs :: "bool \<Rightarrow> (ent, unit) op" where
  "set_default_runs b = reshape_default ''set_default_runs'' (\<lambda>sh. sh\<lparr>sh_runs := b\<rparr>)"

end
