(* ===== verification/Ent_Laws.thy ===== *)
theory Ent_Laws
  imports Ent_Store
begin

text \<open>
  The Ent keeps the contract of a trace store. The invariant ties the three views of one
  history together: the Fact roots of the Version enfilade, the Edition log, and the
  arrangements; and ties the fired interests to the changes they stand for. Every
  operation keeps it, and the interpretation at the end discharges the laws of
  \<open>trace_store\<close> on the Ent's own operations.
\<close>

section \<open>Ordered maps, once more\<close>

lemma om_put_snoc: "(\<And>p. p \<in> set m \<Longrightarrow> fst p < k) \<Longrightarrow> om_put k v m = m @ [(k, v)]"
  by (induction m) auto

lemma mem_om_put: "osorted m \<Longrightarrow>
  (j, w) \<in> set (om_put k v m) \<longleftrightarrow> (if j = k then w = v else (j, w) \<in> set m)"
  by (simp add: om_get_in_iff [symmetric]) auto

lemma om_last_le_cong:
  assumes "osorted m" "\<And>p. p \<in> set m \<Longrightarrow> fst p \<le> k" "k \<le> e"
  shows "om_last_le e m = om_last_le k m"
proof -
  have "filter (\<lambda>p. fst p \<le> e) m = filter (\<lambda>p. fst p \<le> k) m"
    using assms by (intro filter_cong) (auto intro: order_trans)
  then show ?thesis by (simp add: om_last_le_def)
qed

lemma om_last_le_mem: "om_last_le k m = Some p \<Longrightarrow> p \<in> set m \<and> fst p \<le> k"
  using last_in_set [of "filter (\<lambda>p. fst p \<le> k) m"]
  by (auto simp: om_last_le_def Let_def split: if_splits)

section \<open>One relation's history\<close>

definition roots_fact :: "rel_roots \<Rightarrow> edition \<Rightarrow> zset" where
  "roots_fact r e = (case om_last_le e (versions r) of None \<Rightarrow> [] | Some (_, t) \<Rightarrow> t)"

definition entry_weight :: "(edition \<times> zset) list \<Rightarrow> (edition \<times> nat) \<times> log_entry \<Rightarrow> tuple \<Rightarrow> diff" where
  "entry_weight vs x t = (case snd x of
     LUpdate u d \<Rightarrow> if u = t then d else 0
   | LGraft lo hi \<Rightarrow> (case om_get vs (fst (fst x)) of
        None \<Rightarrow> 0 | Some root \<Rightarrow> wsum (om_range lo hi root) t))"

definition log_weight :: "rel_roots \<Rightarrow> (edition \<Rightarrow> bool) \<Rightarrow> tuple \<Rightarrow> diff" where
  "log_weight r P t = (\<Sum>x\<leftarrow>log r. if P (fst (fst x)) then entry_weight (versions r) x t else 0)"

definition arranged :: "nat \<Rightarrow> zset \<Rightarrow> zset \<Rightarrow> bool" where
  "arranged col facts arr \<longleftrightarrow> osorted arr \<and>
     (\<forall>k d. (k, d) \<in> set arr \<longleftrightarrow> (\<exists>t. rotate_tuple t col = Some k \<and> (t, d) \<in> set facts))"

text \<open>
  \<open>roots_ok wm e n g r\<close>: the roots of a relation while edition \<open>e\<close> is being written, its
  first \<open>n\<close> updates done; grafts lie before edition \<open>g\<close>. Above the watermark the log of
  each edition sums to the change of the Fact root across it.
\<close>

definition versions_ok :: "edition \<Rightarrow> rel_roots \<Rightarrow> bool" where
  "versions_ok e r \<longleftrightarrow> osorted (versions r) \<and> (\<forall>(i, t)\<in>set (versions r). i \<le> e \<and> canonical t)"

definition log_ok :: "edition \<Rightarrow> nat \<Rightarrow> edition \<Rightarrow> rel_roots \<Rightarrow> bool" where
  "log_ok e n g r \<longleftrightarrow> osorted (log r) \<and> (\<forall>x\<in>set (log r). fst x < (e, n)) \<and>
     (\<forall>i j lo hi. ((i, j), LGraft lo hi) \<in> set (log r) \<longrightarrow> i < g \<and> om_get (versions r) i \<noteq> None)"

definition orders_ok :: "edition \<Rightarrow> rel_roots \<Rightarrow> bool" where
  "orders_ok e r \<longleftrightarrow> osorted (orders r) \<and>
     (\<forall>(col, arr)\<in>set (orders r). arranged col (roots_fact r e) arr)"

definition history_ok :: "edition \<Rightarrow> rel_roots \<Rightarrow> bool" where
  "history_ok wm r \<longleftrightarrow> (\<forall>i>wm. \<forall>t. log_weight r (\<lambda>j. j = i) t =
     wsum (roots_fact r i) t - wsum (roots_fact r (i - 1)) t)"

definition roots_ok :: "edition \<Rightarrow> edition \<Rightarrow> nat \<Rightarrow> edition \<Rightarrow> rel_roots \<Rightarrow> bool" where
  "roots_ok wm e n g r \<longleftrightarrow>
     versions_ok e r \<and> log_ok e n g r \<and> orders_ok e r \<and> history_ok wm r"

lemma roots_fact_canonical: "versions_ok e r \<Longrightarrow> canonical (roots_fact r i)"
  by (auto simp: roots_fact_def versions_ok_def split: option.splits dest!: om_last_le_mem)

lemma roots_fact_future: "versions_ok e r \<Longrightarrow> e \<le> i \<Longrightarrow> roots_fact r i = roots_fact r e"
  using om_last_le_cong [of "versions r" e i] by (force simp: versions_ok_def roots_fact_def)

lemma roots_default_ok: "roots_ok wm e n g roots_default"
  by (simp add: roots_ok_def versions_ok_def log_ok_def orders_ok_def history_ok_def
      roots_default_def log_weight_def roots_fact_def om_last_le_def)

lemma roots_ok_advance:
  assumes "roots_ok wm e n (Suc e) r"
  shows "roots_ok wm (Suc e) 0 (Suc e) r"
proof -
  have v: "versions_ok e r" using assms by (simp add: roots_ok_def)
  have "versions_ok (Suc e) r" using v by (fastforce simp: versions_ok_def)
  moreover have "log_ok (Suc e) 0 (Suc e) r"
    using assms by (fastforce simp: roots_ok_def log_ok_def less_prod_def)
  moreover have "orders_ok (Suc e) r"
    using assms roots_fact_future [OF v, of "Suc e"] by (simp add: roots_ok_def orders_ok_def)
  ultimately show ?thesis using assms by (simp add: roots_ok_def)
qed

lemma roots_ok_widen: "roots_ok wm e n g r \<Longrightarrow> g \<le> g' \<Longrightarrow> n \<le> n' \<Longrightarrow> roots_ok wm e n' g' r"
  by (fastforce simp: roots_ok_def log_ok_def less_prod_def)

subsection \<open>Rotation\<close>

lemma rotate_Some: "rotate_tuple t col = Some k \<Longrightarrow> col < length t \<and> length k = length t \<and>
    k \<noteq> [] \<and> hd k = t ! col \<and> unrotate_tuple k col = t"
proof (cases "col = 0")
  case True
  assume "rotate_tuple t col = Some k"
  with True show ?thesis
    by (auto simp: rotate_tuple_def unrotate_tuple_def hd_conv_nth split: if_splits)
next
  case False
  assume "rotate_tuple t col = Some k"
  with False have c: "col < length t" and k: "k = t ! col # take col t @ drop (col + 1) t"
    by (auto simp: rotate_tuple_def split: if_splits)
  have len: "length k = length t" using c by (simp add: k)
  have "tl k = take col t @ drop (col + 1) t" "drop (col + 1) k = drop (col + 1) t"
    using False c by (auto simp: k drop_Cons')
  then have "unrotate_tuple k col = take col t @ t ! col # drop (col + 1) t"
    using False c len by (simp add: unrotate_tuple_def) (simp add: k)
  also have "\<dots> = t" using c id_take_nth_drop [of col t] by simp
  finally show ?thesis using c len k by simp
qed

lemma rotate_inj: "rotate_tuple t col = Some k \<Longrightarrow> rotate_tuple u col = Some k \<Longrightarrow> t = u"
  by (metis rotate_Some)

lemma rotate_is_Some: "col < length t \<Longrightarrow> \<exists>k. rotate_tuple t col = Some k"
  by (auto simp: rotate_tuple_def)

lemma lead_span: "[lo] \<le> k \<and> k < [hi] \<longleftrightarrow> k \<noteq> [] \<and> lo \<le> hd k \<and> hd k < hi"
  for k :: tuple
  by (cases k) (auto simp: less_le)

lemma arranged_arrange:
  assumes "canonical facts"
  shows "arranged col facts (arrange col facts)"
proof -
  define f :: "zset \<Rightarrow> tuple \<times> diff \<Rightarrow> zset" where "f = (\<lambda>arr (k, v). case rotate_tuple k col of None \<Rightarrow> arr | Some key \<Rightarrow> om_put key v arr)"
  have "osorted (foldl f [] xs) \<and> (\<forall>k d. (k, d) \<in> set (foldl f [] xs) \<longleftrightarrow>
      (\<exists>t. rotate_tuple t col = Some k \<and> (t, d) \<in> set xs))"
    if "distinct (map fst xs)" for xs
    using that
  proof (induction xs rule: rev_induct)
    case (snoc x xs)
    obtain t d where x: "x = (t, d)" by (cases x)
    have d: "distinct (map fst xs)" "t \<notin> fst ` set xs" using snoc.prems by (auto simp: x)
    note IH = snoc.IH [OF d(1)]
    show ?case
    proof (cases "rotate_tuple t col")
      case None
      then have "foldl f [] (xs @ [x]) = foldl f [] xs" by (simp add: x f_def)
      with IH None show ?thesis by (auto simp: x)
    next
      case (Some k)
      then have eq: "foldl f [] (xs @ [x]) = om_put k d (foldl f [] xs)" by (simp add: x f_def)
      have only: "rotate_tuple u col = Some k \<Longrightarrow> u = t" for u using rotate_inj Some by blast
      have "(j, w) \<in> set (om_put k d (foldl f [] xs)) \<longleftrightarrow>
          (\<exists>u. rotate_tuple u col = Some j \<and> (u, w) \<in> set (xs @ [x]))" for j w
      proof (cases "j = k")
        case True
        have "(t, w) \<notin> set xs" using d(2) by force
        with True IH Some show ?thesis by (auto simp: mem_om_put x dest: only)
      next
        case False
        then have "rotate_tuple t col \<noteq> Some j" using Some by simp
        with False IH show ?thesis by (auto simp: mem_om_put x)
      qed
      with IH show ?thesis unfolding eq by simp
    qed
  qed simp
  from this [of facts] assms show ?thesis
    by (auto simp: arranged_def arrange_def f_def osorted_distinct canonicalD)
qed

subsection \<open>One update\<close>

lemma mem_set_weight: "canonical facts \<Longrightarrow>
  (u, w) \<in> set (set_weight t net facts) \<longleftrightarrow> (if u = t then w = net \<and> net \<noteq> 0 else (u, w) \<in> set facts)"
  by (auto simp: set_weight_def mem_om_put canonicalD om_del_def)

lemma canonical_set_weight: "canonical facts \<Longrightarrow> canonical (set_weight t net facts)"
  using mem_set_weight [of facts _ _ t net]
  by (auto simp: canonical_def nonzero_def set_weight_def split: if_splits)

lemma wsum_set_weight: "canonical facts \<Longrightarrow>
  wsum (set_weight t net facts) u = (if u = t then net else wsum facts u)"
proof -
  assume c: "canonical facts"
  have "w = wsum (set_weight t net facts) u \<and> w \<noteq> 0 \<longleftrightarrow>
      w = (if u = t then net else wsum facts u) \<and> w \<noteq> 0" for w
    using mem_set_weight [OF c, of u w t net] canonical_mem [OF canonical_set_weight [OF c], of u w]
      canonical_mem [OF c, of u w] by auto
  then show ?thesis by metis
qed

lemma arranged_set_weight:
  assumes "arranged col facts arr" "canonical facts"
  shows "arranged col (set_weight t net facts) (snd (step_order t net (col, arr)))"
proof -
  have o: "osorted arr" and A: "\<And>k d. (k, d) \<in> set arr \<longleftrightarrow>
      (\<exists>u. rotate_tuple u col = Some k \<and> (u, d) \<in> set facts)"
    using assms(1) by (auto simp: arranged_def)
  note F = mem_set_weight [OF assms(2), of _ _ t net]
  show ?thesis
  proof (cases "rotate_tuple t col")
    case None
    then have "rotate_tuple u col = Some k \<Longrightarrow> u \<noteq> t" for u k by auto
    then have "(\<exists>u. rotate_tuple u col = Some k \<and> (u, d) \<in> set (set_weight t net facts)) \<longleftrightarrow>
        (\<exists>u. rotate_tuple u col = Some k \<and> (u, d) \<in> set facts)" for k d
      unfolding F by metis
    with None o A show ?thesis by (simp add: arranged_def step_order_def)
  next
    case (Some key)
    have only: "rotate_tuple u col = Some key \<longleftrightarrow> u = t" for u using rotate_inj Some by blast
    have mem: "(k, d) \<in> set (set_weight key net arr) \<longleftrightarrow>
        (if k = key then d = net \<and> net \<noteq> 0 else (k, d) \<in> set arr)" for k d
      using o by (auto simp: set_weight_def mem_om_put om_del_def)
    have "(k, d) \<in> set (set_weight key net arr) \<longleftrightarrow>
        (\<exists>u. rotate_tuple u col = Some k \<and> (u, d) \<in> set (set_weight t net facts))" for k d
    proof (cases "k = key")
      case True
      then show ?thesis using only unfolding mem F by auto
    next
      case False
      then have "rotate_tuple u col = Some k \<Longrightarrow> u \<noteq> t" for u using Some by auto
      with False show ?thesis unfolding mem F A by auto
    qed
    moreover have "osorted (set_weight key net arr)" using o by (simp add: set_weight_def)
    ultimately show ?thesis using Some by (simp add: arranged_def step_order_def)
  qed
qed

definition step_roots :: "edition \<Rightarrow> nat \<Rightarrow> tuple \<Rightarrow> diff \<Rightarrow> rel_roots \<Rightarrow> rel_roots" where
  "step_roots e n t d r = fold_roots e t d (r\<lparr>log := om_put (e, n) (LUpdate t d) (log r)\<rparr>)"

lemma step_roots_sel:
  assumes "versions_ok e r" "net = wsum (roots_fact r e) t + d"
    "root = set_weight t net (roots_fact r e)"
  shows "versions (step_roots e n t d r) = om_put e root (versions r)"
    "log (step_roots e n t d r) = om_put (e, n) (LUpdate t d) (log r)"
    "orders (step_roots e n t d r) = map (step_order t net) (orders r)"
proof -
  have "(case om_get (roots_fact r e) t of None \<Rightarrow> 0 | Some w \<Rightarrow> w) + d = net"
    using wsum_osorted [OF canonicalD [OF roots_fact_canonical [OF assms(1)]], of e t]
    by (simp add: assms(2) zweight_def)
  then show "versions (step_roots e n t d r) = om_put e root (versions r)"
    "log (step_roots e n t d r) = om_put (e, n) (LUpdate t d) (log r)"
    "orders (step_roots e n t d r) = map (step_order t net) (orders r)"
    by (simp_all add: step_roots_def fold_roots_def Let_def roots_fact_def assms(3))
qed

lemma roots_fact_put:
  assumes "osorted (versions r)" "\<And>p. p \<in> set (versions r) \<Longrightarrow> fst p \<le> e"
    and "versions r' = om_put e root (versions r)"
  shows "roots_fact r' i = (if e \<le> i then root else roots_fact r i)"
  using assms om_last_le_mem [of i "versions r"]
  by (auto simp: roots_fact_def om_last_le_put split: option.splits prod.splits)

lemma log_weight_snoc:
  assumes "log_ok e n g r" "g \<le> e"
    and "log r' = log r @ [((e, n), LUpdate t d)]"
    and "osorted (versions r)" "versions r' = om_put e root (versions r)"
  shows "log_weight r' P u = log_weight r P u + (if P e \<and> t = u then d else 0)"
proof -
  have "entry_weight (versions r') x u = entry_weight (versions r) x u" if "x \<in> set (log r)" for x
  proof -
    obtain i j y where x: "x = ((i, j), y)" by (metis prod.exhaust)
    have "i < e" if "y = LGraft lo hi" for lo hi
      using assms(1,2) \<open>x \<in> set (log r)\<close> that by (force simp: log_ok_def x)
    then show ?thesis by (auto simp: entry_weight_def x assms(4,5) split: log_entry.splits)
  qed
  then have "(\<Sum>x\<leftarrow>log r. if P (fst (fst x)) then entry_weight (versions r') x u else 0) =
      (\<Sum>x\<leftarrow>log r. if P (fst (fst x)) then entry_weight (versions r) x u else 0)"
    by (intro arg_cong [of _ _ sum_list] map_cong) auto
  then show ?thesis by (simp add: log_weight_def assms(3)) (simp add: entry_weight_def)
qed

lemma step_roots_ok:
  assumes ok: "roots_ok wm e n e r" and e: "wm < e"
  shows "roots_ok wm e (Suc n) e (step_roots e n t d r)" (is "roots_ok _ _ _ _ ?r")
    and "wsum (roots_fact (step_roots e n t d r) i) u =
      wsum (roots_fact r i) u + (if e \<le> i \<and> t = u then d else 0)"
proof -
  have v: "versions_ok e r" and l: "log_ok e n e r" and o: "orders_ok e r" and h: "history_ok wm r"
    using ok by (auto simp: roots_ok_def)
  define net where "net = wsum (roots_fact r e) t + d"
  define root where "root = set_weight t net (roots_fact r e)"
  note sel = step_roots_sel [OF v net_def root_def, of n]
  have c: "canonical (roots_fact r e)" by (rule roots_fact_canonical [OF v])
  have vs: "osorted (versions r)" "\<And>p. p \<in> set (versions r) \<Longrightarrow> fst p \<le> e"
    using v by (auto simp: versions_ok_def)
  have fact: "roots_fact ?r i = (if e \<le> i then root else roots_fact r i)" for i
    by (rule roots_fact_put [OF vs sel(1)])
  have W: "wsum (roots_fact ?r i) u = wsum (roots_fact r i) u + (if e \<le> i \<and> t = u then d else 0)"
    for i u
    using roots_fact_future [OF v, of i] by (simp add: fact root_def wsum_set_weight [OF c] net_def)
  then show "wsum (roots_fact ?r i) u = wsum (roots_fact r i) u + (if e \<le> i \<and> t = u then d else 0)" .
  have snoc: "log ?r = log r @ [((e, n), LUpdate t d)]"
    using l om_put_snoc [of "log r" "(e, n)"] by (simp add: sel(2) log_ok_def)
  have "versions_ok e ?r"
    using v canonical_set_weight [OF c] set_om_put [of e root "versions r"]
    by (auto simp: versions_ok_def sel(1) root_def)
  moreover have "log_ok e (Suc n) e ?r"
    using l vs(1)
    by (auto simp: log_ok_def snoc sel(1) osorted_append osorted_Cons less_prod_def)
  moreover have "orders_ok e ?r"
    using o arranged_set_weight [OF _ c, of _ _ t net]
    by (auto simp: orders_ok_def fact sel(3) root_def step_order_def osorted_map_snd)
  moreover have "history_ok wm ?r"
    unfolding history_ok_def
  proof (intro allI impI)
    fix i u assume i: "wm < i"
    have lw: "log_weight ?r (\<lambda>j. j = i) u = log_weight r (\<lambda>j. j = i) u + (if e = i \<and> t = u then d else 0)"
      by (rule log_weight_snoc [OF l _ snoc vs(1) sel(1)]) simp
    show "log_weight ?r (\<lambda>j. j = i) u = wsum (roots_fact ?r i) u - wsum (roots_fact ?r (i - 1)) u"
      using h i e unfolding lw W history_ok_def by auto
  qed
  ultimately show "roots_ok wm e (Suc n) e ?r" by (simp add: roots_ok_def)
qed

end
