(* ===== verification/Ent_Contract.thy ===== *)
theory Ent_Contract
  imports Ent_Laws
begin

text \<open>
  The state-level half of the Ent's correctness: the invariant of a branch, that every
  operation keeps it, and the interpretation of the trace-store contract on the Ent.
\<close>

section \<open>The world and the invariant\<close>

definition ent_world :: "ent \<Rightarrow> rel_id \<Rightarrow> edition \<Rightarrow> tuple \<Rightarrow> diff" where
  "ent_world s r e t = wsum (roots_fact (roots_or_default s r) e) t"

text \<open>
  What the fired interests promise: an interest registered before an edition that changed a
  tuple of its range fired in that edition.
\<close>

definition routed :: "ent \<Rightarrow> rel_id \<Rightarrow> tuple \<Rightarrow> tuple \<Rightarrow> interest_id \<Rightarrow> bool" where
  "routed s rel lo hi iid \<longleftrightarrow>
     ((rel, lo, iid), (hi, endorsement_all)) \<in> set (cn_enf (en_canopy s)) \<and>
     (\<exists>since. om_get (en_registered s) iid = Some since \<and> since \<le> en_current s \<and>
       (\<forall>i t. since < i \<and> en_watermark s < i \<and> in_range lo hi t \<and>
          ent_world s rel i t \<noteq> ent_world s rel (i - 1) t \<longrightarrow> ((iid, i), ()) \<in> set (en_fired s)))"

definition interests_ok :: "ent \<Rightarrow> bool" where
  "interests_ok s \<longleftrightarrow> canopy_ok (en_canopy s) \<and> osorted (en_interests s) \<and>
     osorted (en_registered s) \<and> osorted (en_fired s) \<and>
     (\<forall>rel lo hi iid. om_get (en_interests s) (rel, lo, hi) = Some iid \<longrightarrow> routed s rel lo hi iid)"

definition rels_ok :: "ent \<Rightarrow> edition \<Rightarrow> nat \<Rightarrow> edition \<Rightarrow> bool" where
  "rels_ok s e n g \<longleftrightarrow> osorted (en_rels s) \<and>
     (\<forall>r. roots_ok (en_watermark s) e n g (roots_or_default s r))"

definition ent_ok :: "ent \<Rightarrow> bool" where
  "ent_ok s \<longleftrightarrow> en_watermark s \<le> en_current s \<and>
     (\<exists>n. rels_ok s (en_current s) n (Suc (en_current s))) \<and> interests_ok s"

lemma facts_at_roots: "facts_at s r e = roots_fact (roots_or_default s r) e"
  by (auto simp: facts_at_def fact_at_def roots_fact_def roots_or_default_def roots_default_def
      om_last_le_def split: option.splits)

lemma rels_okD: "rels_ok s e n g \<Longrightarrow> versions_ok e (roots_or_default s r)"
  by (auto simp: rels_ok_def roots_ok_def)

lemma ent_versions_ok: "ent_ok s \<Longrightarrow> versions_ok (en_current s) (roots_or_default s r)"
  by (auto simp: ent_ok_def dest: rels_okD)

lemma facts_at_canonical: "ent_ok s \<Longrightarrow> canonical (facts_at s r e)"
  by (simp add: facts_at_roots roots_fact_canonical [OF ent_versions_ok])

lemma facts_at_wsum: "wsum (facts_at s r e) t = ent_world s r e t"
  by (simp add: facts_at_roots ent_world_def)

lemma facts_at_represents: "ent_ok s \<Longrightarrow> represents (facts_at s r e) (ent_world s r e)"
proof -
  assume "ent_ok s"
  then have "represents (facts_at s r e) (wsum (facts_at s r e))"
    by (rule represents_canonical [OF facts_at_canonical])
  moreover have "wsum (facts_at s r e) = ent_world s r e" by (rule ext) (rule facts_at_wsum)
  ultimately show ?thesis by simp
qed

lemma ent_future: "ent_ok s \<Longrightarrow> en_current s \<le> e \<Longrightarrow> ent_world s r e t = ent_world s r (en_current s) t"
  using roots_fact_future [OF ent_versions_ok, of s e r] by (simp add: ent_world_def)

lemma ent_empty_roots [simp]: "roots_or_default ent_empty r = roots_default"
  by (simp add: roots_or_default_def roots_def ent_empty_def)

lemma ent_empty_ok: "ent_ok ent_empty"
proof -
  have "rels_ok ent_empty 0 0 (Suc 0)"
    by (simp add: rels_ok_def roots_default_ok) (simp add: ent_empty_def)
  moreover have "interests_ok ent_empty"
    by (simp add: interests_ok_def) (simp add: ent_empty_def canopy_new_ok)
  moreover have "en_watermark ent_empty \<le> en_current ent_empty" "en_current ent_empty = 0"
    by (simp_all add: ent_empty_def)
  ultimately show ?thesis unfolding ent_ok_def by auto
qed

lemma ent_empty_world [simp]: "ent_world ent_empty r e t = 0"
  by (simp add: ent_world_def roots_fact_def om_last_le_def) (simp add: roots_default_def)

lemma roots_or_default_put: "osorted (en_rels s) \<Longrightarrow>
  roots_or_default (put_roots rel r s) rel' = (if rel' = rel then r else roots_or_default s rel')"
  by (simp add: roots_or_default_def roots_def put_roots_def)

lemma put_roots_sel [simp]:
  "en_current (put_roots rel r s) = en_current s" "en_watermark (put_roots rel r s) = en_watermark s"
  "en_canopy (put_roots rel r s) = en_canopy s" "en_fired (put_roots rel r s) = en_fired s"
  "en_interests (put_roots rel r s) = en_interests s"
  "en_registered (put_roots rel r s) = en_registered s"
  "en_patches (put_roots rel r s) = en_patches s" "en_ctx (put_roots rel r s) = en_ctx s"
  "en_shape (put_roots rel r s) = en_shape s" "en_shapes (put_roots rel r s) = en_shapes s"
  "en_rels (put_roots rel r s) = om_put rel r (en_rels s)"
  by (simp_all add: put_roots_def)

section \<open>Commits\<close>

text \<open>The fields a commit's updates leave alone.\<close>

definition same_frame :: "ent \<Rightarrow> ent \<Rightarrow> bool" where
  "same_frame s s' \<longleftrightarrow> en_current s' = en_current s \<and> en_watermark s' = en_watermark s \<and>
     en_canopy s' = en_canopy s \<and> en_fired s' = en_fired s \<and> en_interests s' = en_interests s \<and>
     en_registered s' = en_registered s \<and> en_ctx s' = en_ctx s \<and> en_patches s' = en_patches s \<and>
     en_shape s' = en_shape s \<and> en_shapes s' = en_shapes s"

lemma apply_one:
  assumes "osorted (en_rels s)" "s' = fold_fact e rel t d (append_log e n rel t d s)"
  shows "osorted (en_rels s')" "same_frame s s'"
    "roots_or_default s' r = (if r = rel then step_roots e n t d (roots_or_default s rel)
       else roots_or_default s r)"
  using assms
  by (simp_all add: fold_fact_def append_log_def Let_def roots_or_default_put step_roots_def same_frame_def)

lemma apply_updates_ok:
  assumes "rels_ok s e n e" "en_watermark s < e"
  shows "\<exists>m. rels_ok (apply_updates e n us s) e m e" (is ?ok)
    and "same_frame s (apply_updates e n us s)" (is ?frame)
    and "ent_world (apply_updates e n us s) r i t =
      ent_world s r i t + (if e \<le> i then upd_weight us r t else 0)" (is ?world)
proof -
  have "?ok \<and> ?frame \<and> ?world"
    using assms
  proof (induction e n us s rule: apply_updates.induct)
    case (1 e i s)
    then show ?case by (auto simp: same_frame_def)
  next
    case (2 e n rel u d us s)
    define s1 where "s1 = fold_fact e rel u d (append_log e n rel u d s)"
    have o: "osorted (en_rels s)" using 2(2) by (simp add: rels_ok_def)
    note one = apply_one [OF o s1_def]
    have wm: "en_watermark s1 = en_watermark s" using one(2) by (simp add: same_frame_def)
    have roots: "roots_ok (en_watermark s) e n e (roots_or_default s r)" for r
      using 2(2) by (simp add: rels_ok_def)
    note step = step_roots_ok [OF roots 2(3)]
    have ok1: "rels_ok s1 e (Suc n) e"
      using one(1) step(1) roots_ok_widen [OF roots, of e "Suc n"]
      by (auto simp: rels_ok_def wm one(3))
    have W1: "ent_world s1 r i t = ent_world s r i t + (if e \<le> i \<and> r = rel \<and> u = t then d else 0)"
      for r i t
      using step(2) by (simp add: ent_world_def one(3))
    have "\<exists>m. rels_ok (apply_updates e (Suc n) us s1) e m e"
      "same_frame s1 (apply_updates e (Suc n) us s1)"
      "ent_world (apply_updates e (Suc n) us s1) r i t =
        ent_world s1 r i t + (if e \<le> i then upd_weight us r t else 0)"
      using 2(1) [folded s1_def, OF ok1] 2(3) wm by auto
    then show ?case
      using one(2) by (auto simp: s1_def [symmetric] W1 same_frame_def)
  qed
  then show ?ok ?frame ?world by auto
qed

lemma foldl_fire: "osorted m \<Longrightarrow> osorted (foldl (\<lambda>m i. om_put (i, e) () m) m ids) \<and>
  set (foldl (\<lambda>m i. om_put (i, e) () m) m ids) = set m \<union> (\<lambda>i. ((i, e), ())) ` set ids"
proof (induction ids arbitrary: m)
  case (Cons i ids)
  have "set (om_put (i, e) () m) = insert ((i, e), ()) (set m)"
    using mem_om_put [OF Cons.prems, of _ _ "(i, e)" "()"] by (auto split: if_splits)
  then show ?case using Cons.IH [of "om_put (i, e) () m"] Cons.prems by auto
qed simp

lemma fire_sel [simp]:
  "en_current (fire e ids s) = en_current s" "en_watermark (fire e ids s) = en_watermark s"
  "en_canopy (fire e ids s) = en_canopy s" "en_rels (fire e ids s) = en_rels s"
  "en_interests (fire e ids s) = en_interests s" "en_registered (fire e ids s) = en_registered s"
  by (simp_all add: fire_def)

lemma route_commit_sel:
  assumes "osorted (en_fired s)" "s' = route_commit e us s"
  shows "en_current s' = en_current s" "en_watermark s' = en_watermark s"
    "en_canopy s' = en_canopy s" "en_rels s' = en_rels s"
    "en_interests s' = en_interests s" "en_registered s' = en_registered s"
    "osorted (en_fired s')"
    "set (en_fired s') = set (en_fired s) \<union> (\<lambda>i. ((i, e), ())) ` set (route (en_canopy s) us)"
proof -
  have none: "route (en_canopy s) us = []" if "cn_enf (en_canopy s) = []"
    unfolding route_def route_endorsed_def that by (induction us) (auto simp: stab_flat_def)
  show "en_current s' = en_current s" "en_watermark s' = en_watermark s"
    "en_canopy s' = en_canopy s" "en_rels s' = en_rels s"
    "en_interests s' = en_interests s" "en_registered s' = en_registered s"
    by (simp_all add: assms(2) route_commit_def)
  show "osorted (en_fired s')"
    "set (en_fired s') = set (en_fired s) \<union> (\<lambda>i. ((i, e), ())) ` set (route (en_canopy s) us)"
    using foldl_fire [OF assms(1), of e "route (en_canopy s) us"] none assms(1)
    by (auto simp: assms(2) route_commit_def canopy_is_empty_def fire_def)
qed

lemma upd_weight_nonzero: "upd_weight us r t \<noteq> 0 \<Longrightarrow> \<exists>d. (r, t, d) \<in> set us"
  by (induction us) (auto split: if_splits)

lemma routed_commit:
  assumes "routed s rel lo hi iid" "ent_ok s" "e = Suc (en_current s)"
    and W: "advances (ent_world s) (en_current s) us (ent_world s')"
    and sel: "en_canopy s' = en_canopy s" "en_registered s' = en_registered s"
      "en_watermark s' = en_watermark s" "en_current s' = e"
    and fired: "set (en_fired s') = set (en_fired s) \<union> (\<lambda>i. ((i, e), ())) ` set (route (en_canopy s) us)"
  shows "routed s' rel lo hi iid"
proof -
  obtain since where in_c: "((rel, lo, iid), (hi, endorsement_all)) \<in> set (cn_enf (en_canopy s))"
    and reg: "om_get (en_registered s) iid = Some since" "since \<le> en_current s"
    and old: "\<And>i t. since < i \<Longrightarrow> en_watermark s < i \<Longrightarrow> in_range lo hi t \<Longrightarrow>
      ent_world s rel i t \<noteq> ent_world s rel (i - 1) t \<Longrightarrow> ((iid, i), ()) \<in> set (en_fired s)"
    using assms(1) unfolding routed_def by blast
  have W': "ent_world s' rel i t = ent_world s rel i t + (if e \<le> i then upd_weight us rel t else 0)" for i t
    using W ent_future [OF assms(2), of i rel t] by (auto simp: advances_def assms(3))
  have "((iid, i), ()) \<in> set (en_fired s')"
    if i: "since < i" "en_watermark s < i" "in_range lo hi t"
      "ent_world s' rel i t \<noteq> ent_world s' rel (i - 1) t" for i t
  proof (cases "i = e \<and> upd_weight us rel t \<noteq> 0")
    case True
    then obtain d where d: "(rel, t, d) \<in> set us" using upd_weight_nonzero by blast
    have "lo \<le> t" "t < hi" using i(3) by (auto simp: in_range_def)
    then have "iid \<in> set (route (en_canopy s) us)" unfolding set_route using d in_c by blast
    with True show ?thesis by (simp add: fired)
  next
    case False
    have "ent_world s rel i t \<noteq> ent_world s rel (i - 1) t"
      using i(4) False by (auto simp: W' split: if_splits)
    with old [OF i(1,2,3)] show ?thesis by (simp add: fired)
  qed
  then show ?thesis
    unfolding routed_def sel using in_c reg assms(3) by (metis le_SucI)
qed

lemma apply_commit_ok:
  assumes "ent_ok s" and e_def: "e = Suc (en_current s)" and s'_def: "s' = apply_commit e pre us orig s"
  shows "ent_ok s'" "en_current s' = e" "en_watermark s' = en_watermark s"
    "advances (ent_world s) (en_current s) us (ent_world s')"
proof -
  define s1 where "s1 = s\<lparr>en_patches := om_put e (PCommit pre (remdups_adj (sort (map fst us))) orig) (en_patches s)\<rparr>"
  define s2 where "s2 = apply_updates e 0 us s1"
  define s3 where "s3 = route_commit e us s2"
  have s': "s' = s3\<lparr>en_current := e\<rparr>"
    by (simp add: s'_def apply_commit_def Let_def s1_def s2_def s3_def)
  have wm: "en_watermark s < e" using assms(1) by (simp add: ent_ok_def e_def)
  have s1: "en_watermark s1 = en_watermark s" "en_canopy s1 = en_canopy s" "en_fired s1 = en_fired s"
    "en_interests s1 = en_interests s" "en_registered s1 = en_registered s" "en_rels s1 = en_rels s"
    "roots_or_default s1 = roots_or_default s"
    by (simp_all add: s1_def roots_or_default_def [abs_def] roots_def)
  obtain n where "rels_ok s (en_current s) n (Suc (en_current s))"
    using assms(1) by (auto simp: ent_ok_def)
  then have "rels_ok s1 e 0 e"
    using roots_ok_advance [of "en_watermark s" "en_current s" n] by (simp add: rels_ok_def s1 e_def)
  note up = apply_updates_ok [OF this, of us, folded s2_def]
  have wm1: "en_watermark s1 < e" using wm by (simp add: s1)
  obtain m where m: "rels_ok s2 e m e" using up(1) wm1 by blast
  have frame: "same_frame s1 s2" using up(2) wm1 by blast
  have s2: "en_watermark s2 = en_watermark s" "en_canopy s2 = en_canopy s" "en_fired s2 = en_fired s"
    "en_interests s2 = en_interests s" "en_registered s2 = en_registered s"
    using frame by (simp_all add: same_frame_def s1)
  have W2: "ent_world s2 r i t = ent_world s r i t + (if e \<le> i then upd_weight us r t else 0)"
    for r i t
    using up(3) [of r i t] wm1 by (simp add: ent_world_def s1)
  have io: "canopy_ok (en_canopy s)" "osorted (en_interests s)" "osorted (en_registered s)"
    "osorted (en_fired s)" "\<And>rel lo hi iid. om_get (en_interests s) (rel, lo, hi) = Some iid \<Longrightarrow>
      routed s rel lo hi iid"
    using assms(1) by (auto simp: ent_ok_def interests_ok_def)
  have "osorted (en_fired s2)" using io(4) by (simp add: s2)
  note r3 = route_commit_sel [OF this s3_def]
  have sel: "en_canopy s' = en_canopy s" "en_registered s' = en_registered s"
    "en_watermark s' = en_watermark s" "en_current s' = e" "en_interests s' = en_interests s"
    "en_rels s' = en_rels s2" "roots_or_default s' = roots_or_default s2" "osorted (en_fired s')"
    "set (en_fired s') = set (en_fired s) \<union> (\<lambda>i. ((i, e), ())) ` set (route (en_canopy s) us)"
    using r3 by (simp_all add: s' s2 roots_or_default_def [abs_def] roots_def)
  show "en_current s' = e" "en_watermark s' = en_watermark s" by (rule sel)+
  have "ent_world s' r i t = ent_world s2 r i t" for r i t by (simp add: ent_world_def sel)
  then show W': "advances (ent_world s) (en_current s) us (ent_world s')"
    unfolding advances_def
  proof (intro allI)
    fix r i t
    assume "\<And>r i t. ent_world s' r i t = ent_world s2 r i t"
    then show "ent_world s' r i t = (if i \<le> en_current s then ent_world s r i t
        else ent_world s r (en_current s) t + upd_weight us r t)"
      using ent_future [OF assms(1), of i r t] by (auto simp: W2 e_def)
  qed
  have "rels_ok s' e m (Suc e)"
    using m roots_ok_widen [of "en_watermark s" e m e _ "Suc e" m] by (simp add: rels_ok_def sel s2)
  moreover have "interests_ok s'"
    unfolding interests_ok_def sel
    using io sel(8) routed_commit [OF io(5) assms(1,2) W' sel(1-4) sel(9)] by blast
  ultimately show "ent_ok s'" using wm unfolding ent_ok_def sel by auto
qed

lemma ent_holds_now: "ent_ok s \<Longrightarrow> holds_now s r t \<longleftrightarrow> 0 < ent_world s r (en_current s) t"
proof -
  assume ok: "ent_ok s"
  have "ent_world s r (en_current s) t = zweight (facts_at s r (en_current s)) t"
    using wsum_osorted [OF canonicalD [OF facts_at_canonical [OF ok]]] by (simp add: facts_at_wsum [symmetric])
  then show ?thesis
    by (auto simp: holds_now_def facts_at_def zweight_def split: option.splits)
qed

lemma ent_holds_all: "ent_ok s \<Longrightarrow>
  holds_all (ent_world s) (en_current s) pre \<longleftrightarrow> \<not> (\<exists>(rel, t)\<in>set pre. \<not> holds_now s rel t)"
  by (auto simp: holds_all_def ent_holds_now)

section \<open>Reads\<close>

lemma represents_om_range: "represents rows w \<Longrightarrow> represents (om_range lo hi rows) (restrict (in_range lo hi) w)"
  using represents_keep_rows [of rows w "in_range lo hi"]
  by (simp add: keep_rows_def om_range_def in_range_def case_prod_unfold)

lemma represents_cong: "represents rows w \<Longrightarrow> (\<And>t. w t = w' t) \<Longrightarrow> represents rows w'"
  by (simp add: represents_def)

text \<open>Column zero is a key range, and an entity search is a column range.\<close>

lemma lead_range: "in_range [lo] [hi] t \<longleftrightarrow> in_range_on 0 lo hi t"
  by (auto simp: in_range_def in_range_on_def lead_span get_def hd_conv_nth)

lemma search_box_ent:
  "search_box facts [(col, l, h)] = keep_rows (in_range_on col (VEnt l) (VEnt h)) facts"
proof -
  have "(case get t col of Some (VEnt e) \<Rightarrow> l \<le> e \<and> e < h | _ \<Rightarrow> False) \<longleftrightarrow>
      in_range_on col (VEnt l) (VEnt h) t" for t
  proof (cases "get t col")
    case (Some v)
    have "VEnt l \<le> v \<and> v < VEnt h \<Longrightarrow> \<exists>e. v = VEnt e"
      by (cases v) (auto simp: less_val_def)
    with Some show ?thesis
      by (cases v) (auto simp: in_range_on_def less_eq_val_def less_val_def)
  qed (simp add: in_range_on_def)
  then show ?thesis by (simp add: search_box_def)
qed

text \<open>Reading through an arrangement.\<close>

lemma arranged_rows:
  assumes "arranged col facts arr" "represents facts w"
  shows "represents (unrotate_rows col (filter (\<lambda>p. P (hd (fst p))) arr))
    (restrict (\<lambda>t. case get t col of None \<Rightarrow> False | Some v \<Rightarrow> P v) w)"
proof -
  let ?rows = "filter (\<lambda>p. P (hd (fst p))) arr"
  have o: "osorted arr" and A: "\<And>k d. (k, d) \<in> set arr \<longleftrightarrow>
      (\<exists>u. rotate_tuple u col = Some k \<and> (u, d) \<in> set facts)"
    using assms(1) by (auto simp: arranged_def)
  have "inj_on (\<lambda>k. unrotate_tuple k col) (fst ` set ?rows)"
  proof (rule inj_onI)
    fix a b assume a: "a \<in> fst ` set ?rows" and b: "b \<in> fst ` set ?rows"
      and eq: "unrotate_tuple a col = unrotate_tuple b col"
    from a A obtain u where u: "rotate_tuple u col = Some a" by auto
    from b A obtain v where v: "rotate_tuple v col = Some b" by auto
    from rotate_Some [OF u] rotate_Some [OF v] eq have "u = v" by simp
    with u v show "a = b" by simp
  qed
  moreover have "distinct (map fst ?rows)" by (rule osorted_distinct) (simp add: o)
  moreover have fst_eq: "map fst (unrotate_rows col ?rows) = map (\<lambda>k. unrotate_tuple k col) (map fst ?rows)"
    by (simp add: unrotate_rows_def case_prod_beta)
  ultimately have "distinct (map fst (unrotate_rows col ?rows))"
    unfolding fst_eq distinct_map by simp
  moreover have "(t, d) \<in> set (unrotate_rows col ?rows) \<longleftrightarrow>
      d = restrict (\<lambda>t. case get t col of None \<Rightarrow> False | Some v \<Rightarrow> P v) w t \<and> d \<noteq> 0" for t d
  proof
    assume "(t, d) \<in> set (unrotate_rows col ?rows)"
    then obtain k where k: "(k, d) \<in> set arr" "P (hd k)" "t = unrotate_tuple k col"
      by (auto simp: unrotate_rows_def)
    then obtain u where u: "rotate_tuple u col = Some k" "(u, d) \<in> set facts" using A by blast
    with rotate_Some [OF u(1)] k assms(2)
    show "d = restrict (\<lambda>t. case get t col of None \<Rightarrow> False | Some v \<Rightarrow> P v) w t \<and> d \<noteq> 0"
      by (simp add: represents_def restrict_def get_def)
  next
    assume r: "d = restrict (\<lambda>t. case get t col of None \<Rightarrow> False | Some v \<Rightarrow> P v) w t \<and> d \<noteq> 0"
    then have c: "col < length t" "P (t ! col)" "(t, d) \<in> set facts"
      using assms(2) by (auto simp: represents_def restrict_def get_def split: if_splits)
    from rotate_is_Some [OF c(1)] obtain k where k: "rotate_tuple t col = Some k" by blast
    with c rotate_Some [OF k] have "(k, d) \<in> set ?rows" using A by auto
    moreover have "t = unrotate_tuple k col" using rotate_Some [OF k] by simp
    ultimately show "(t, d) \<in> set (unrotate_rows col ?rows)" by (force simp: unrotate_rows_def)
  qed
  ultimately show ?thesis by (simp add: represents_def)
qed

lemma arranged_nonempty: "arranged col facts arr \<Longrightarrow> (k, d) \<in> set arr \<Longrightarrow> k \<noteq> []"
  using rotate_Some by (fastforce simp: arranged_def)

lemma arranged_span: "arranged col facts arr \<Longrightarrow>
  om_range [lo] [hi] arr = filter (\<lambda>p. lo \<le> hd (fst p) \<and> hd (fst p) < hi) arr"
  unfolding om_range_def lead_span by (rule filter_cong) (auto dest: arranged_nonempty)

subsection \<open>Building an arrangement changes no answer\<close>

lemma ensure_order_ok:
  assumes "ent_ok s" "s' = ensure_order rel col s"
  shows "ent_ok s'" "ent_world s' = ent_world s" "en_current s' = en_current s"
    "en_watermark s' = en_watermark s" "facts_at s' = facts_at s"
    "roots s' rel = None \<longleftrightarrow> roots s rel = None"
    "roots s' rel = Some r \<Longrightarrow> \<exists>arr. om_get (orders r) col = Some arr \<and>
      arranged col (facts_at s rel (en_current s)) arr"
proof -
  obtain n where rk: "rels_ok s (en_current s) n (Suc (en_current s))"
    using assms(1) by (auto simp: ent_ok_def)
  then have o: "osorted (en_rels s)" by (simp add: rels_ok_def)
  have main: "ent_ok s' \<and> ent_world s' = ent_world s \<and> en_current s' = en_current s \<and>
    en_watermark s' = en_watermark s \<and> facts_at s' = facts_at s \<and>
    (roots s' rel = None \<longleftrightarrow> roots s rel = None) \<and>
    (\<forall>r. roots s' rel = Some r \<longrightarrow> (\<exists>arr. om_get (orders r) col = Some arr \<and>
      arranged col (facts_at s rel (en_current s)) arr))"
  proof (cases "roots s rel")
    case None
    then have "s' = s" by (simp add: assms(2) ensure_order_def)
    with None assms(1) show ?thesis by simp
  next
    case (Some r)
    then have rd: "roots_or_default s rel = r" by (simp add: roots_or_default_def)
    then have ok: "roots_ok (en_watermark s) (en_current s) n (Suc (en_current s)) r"
      using rk by (auto simp: rels_ok_def)
    then have ord: "osorted (orders r)" "\<And>c arr. (c, arr) \<in> set (orders r) \<Longrightarrow>
        arranged c (roots_fact r (en_current s)) arr"
      by (auto simp: roots_ok_def orders_ok_def)
    have fact: "facts_at s rel (en_current s) = roots_fact r (en_current s)"
      by (simp add: facts_at_roots rd)
    show ?thesis
    proof (cases "om_get (orders r) col")
      case (Some arr)
      with \<open>roots s rel = Some r\<close> have "s' = s" by (simp add: assms(2) ensure_order_def)
      moreover have "arranged col (roots_fact r (en_current s)) arr"
        using ord(2) [OF om_get_set [OF Some]] .
      ultimately show ?thesis using \<open>roots s rel = Some r\<close> Some assms(1) fact by simp
    next
      case None
      define arr where "arr = arrange col (roots_fact r (en_current s))"
      define r' where "r' = r\<lparr>orders := om_put col arr (orders r)\<rparr>"
      have s': "s' = put_roots rel r' s"
        using \<open>roots s rel = Some r\<close> None
        by (simp add: assms(2) ensure_order_def r'_def arr_def roots_fact_def arrange_def
            split: option.splits)
      have same: "roots_fact r' = roots_fact r" by (simp add: roots_fact_def [abs_def] r'_def)
      have canon: "canonical (roots_fact r (en_current s))"
        using ok by (auto simp: roots_ok_def intro: roots_fact_canonical)
      note arr = arranged_arrange [OF canon, of col, folded arr_def]
      have sel: "versions r' = versions r" "log r' = log r" "orders r' = om_put col arr (orders r)"
        by (simp_all add: r'_def)
      have lw: "log_weight r' = log_weight r" by (intro ext) (simp only: log_weight_def sel)
      have "orders_ok (en_current s) r'"
        using ord arr set_om_put [of col arr "orders r"] by (auto simp: orders_ok_def same sel)
      then have "roots_ok (en_watermark s) (en_current s) n (Suc (en_current s)) r'"
        using ok lw by (simp add: roots_ok_def versions_ok_def log_ok_def history_ok_def same sel)
      then have "rels_ok s' (en_current s) n (Suc (en_current s))"
        using rk by (simp add: rels_ok_def s' roots_or_default_put o)
      moreover have W: "ent_world s' = ent_world s"
        by (simp add: fun_eq_iff ent_world_def s' roots_or_default_put o same rd)
      moreover have "interests_ok s'"
        using assms(1) W unfolding ent_ok_def interests_ok_def routed_def by (simp add: s')
      moreover have "facts_at s' = facts_at s"
        by (simp add: fun_eq_iff facts_at_roots s' roots_or_default_put o same rd)
      moreover have "roots s' rel = Some r'" by (simp add: s' roots_def o)
      moreover have "om_get (orders r') col = Some arr" using ord(1) by (simp add: r'_def)
      ultimately show ?thesis
        using assms(1) arr \<open>roots s rel = Some r\<close> by (auto simp: ent_ok_def s' fact)
    qed
  qed
  then show "ent_ok s'" "ent_world s' = ent_world s" "en_current s' = en_current s"
    "en_watermark s' = en_watermark s" "facts_at s' = facts_at s"
    "roots s' rel = None \<longleftrightarrow> roots s rel = None"
    "roots s' rel = Some r \<Longrightarrow> \<exists>arr. om_get (orders r) col = Some arr \<and>
      arranged col (facts_at s rel (en_current s)) arr" by blast+
qed

end
