(* ===== verification/Ent_Trace.thy ===== *)
theory Ent_Trace
  imports Ent_Contract
begin

text \<open>
  The Ent as a trace store: each read, the routing questions, the version compare and
  consolidation against the world of \<open>ent_world\<close>, and the interpretation of
  \<open>trace_store\<close> they add up to.
\<close>

section \<open>Restricted reads\<close>

lemma ent_read_range_on_ok:
  assumes ok: "ent_ok s" and e: "en_watermark s \<le> at"
  shows "\<exists>rows s'. ent_read_range_on rel at col lo hi s = (Inr rows, s') \<and>
    represents rows (restrict (in_range_on col lo hi) (ent_world s rel at)) \<and>
    ent_ok s' \<and> ent_world s' = ent_world s \<and> en_current s' = en_current s \<and>
    en_watermark s' = en_watermark s"
proof -
  note rep = facts_at_represents [OF ok, of rel at]
  have wm: "\<not> at < en_watermark s" using e by simp
  have keep: "represents (keep_rows (in_range_on col lo hi) (facts_at s rel at))
      (restrict (in_range_on col lo hi) (ent_world s rel at))"
    by (rule represents_keep_rows [OF rep])
  have lead: "represents (om_range [lo] [hi] (facts_at s rel at))
      (restrict (in_range_on 0 lo hi) (ent_world s rel at))"
    using represents_om_range [OF rep, of "[lo]" "[hi]"]
    by (rule represents_cong) (simp add: restrict_def lead_range)
  consider "col = 0" | "col \<noteq> 0" "layout_of s rel = Kd"
    | "col \<noteq> 0" "layout_of s rel \<noteq> Kd" "at \<noteq> en_current s"
    | "col \<noteq> 0" "layout_of s rel \<noteq> Kd" "at = en_current s" by blast
  then show ?thesis
  proof cases
    case 1
    with lead ok wm show ?thesis by (simp add: ent_read_range_on_def)
  next
    case 2
    with keep ok wm show ?thesis by (simp add: ent_read_range_on_def kd_range_on_def)
  next
    case 3
    have "ent_read_range_on rel at col lo hi s =
        (Inr (keep_rows (in_range_on col lo hi) (facts_at s rel at)), s)"
      using 3 wm by (auto simp: ent_read_range_on_def search_box_ent split: val.splits)
    with keep ok show ?thesis by blast
  next
    case 4
    define s' where "s' = ensure_order rel col s"
    note s' = ensure_order_ok [OF ok s'_def]
    have eq: "ent_read_range_on rel at col lo hi s =
        (case (case roots s' rel of None \<Rightarrow> None | Some r \<Rightarrow> om_get (orders r) col) of
          None \<Rightarrow> (Inr [], s') | Some arr \<Rightarrow> (Inr (unrotate_rows col (om_range [lo] [hi] arr)), s'))"
      unfolding ent_read_range_on_def Let_def s'_def [symmetric] using 4 wm by simp
    show ?thesis
    proof (cases "roots s' rel")
      case None
      then have "roots s rel = None" using s'(6) by simp
      then have "facts_at s rel at = []" by (simp add: facts_at_def fact_at_def)
      then have "represents [] (restrict (in_range_on col lo hi) (ent_world s rel at))"
        using keep by (simp add: keep_rows_def)
      with None s'(1-4) show ?thesis by (simp add: eq)
    next
      case (Some r)
      obtain arr where arr: "om_get (orders r) col = Some arr"
        "arranged col (facts_at s rel (en_current s)) arr" using s'(7) [OF Some] by blast
      have "represents (unrotate_rows col (om_range [lo] [hi] arr))
          (restrict (in_range_on col lo hi) (ent_world s rel at))"
        unfolding arranged_span [OF arr(2)]
        by (rule represents_cong [OF arranged_rows [OF arr(2) facts_at_represents [OF ok]]])
          (simp add: restrict_def in_range_on_def 4)
      with Some arr(1) s'(1-4) show ?thesis by (simp add: eq)
    qed
  qed
qed

lemma ent_successor_eq: "ent_successor v = successor v"
  by (cases v) (simp_all add: ent_successor_def)

lemma key_spans_Some: "key_spans keys = Some spans \<Longrightarrow>
  map fst spans = keys \<and> (\<forall>(lo, hi)\<in>set spans. successor lo = Some hi)"
  by (induction keys arbitrary: spans) (auto simp: ent_successor_eq split: option.splits)

lemma span_one: "successor k = Some n \<Longrightarrow> k \<le> v \<and> v < n \<longleftrightarrow> v = k"
  by (rule successor_gap)

lemma sorted_keys_set: "set (sorted_keys keys) = set keys" and
  sorted_keys_distinct: "distinct (sorted_keys keys)"
proof -
  show "set (sorted_keys keys) = set keys" by (simp add: sorted_keys_def)
  have "sorted xs \<Longrightarrow> sorted_wrt (<) (remdups_adj xs)" for xs :: "val list"
    by (induction xs rule: remdups_adj.induct) (auto simp: order_le_less)
  from this [of "sort keys"] show "distinct (sorted_keys keys)"
    by (simp add: sorted_keys_def strict_sorted_iff)
qed

text \<open>Reads of disjoint spans together are the rows whose cell is one of the keys.\<close>

lemma represents_concat:
  assumes "distinct ks" "\<And>k. k \<in> set ks \<Longrightarrow> represents (f k) (restrict (\<lambda>t. get t col = Some k) w)"
  shows "represents (concat (map f ks)) (restrict (has_key col ks) w)"
  using assms
proof (induction ks)
  case Nil
  then show ?case by (auto simp: represents_def restrict_def has_key_def split: option.splits)
next
  case (Cons k ks)
  have 1: "represents (f k) (restrict (\<lambda>t. get t col = Some k) w)" using Cons.prems by simp
  have 2: "represents (concat (map f ks)) (restrict (has_key col ks) w)"
    using Cons.IH Cons.prems by simp
  have cell1: "get t col = Some k" if "(t, d) \<in> set (f k)" for t d
    using 1 that by (auto simp: represents_def restrict_def split: if_splits)
  have cell2: "has_key col ks t" if "(t, d) \<in> set (concat (map f ks))" for t d
    using 2 that unfolding represents_def restrict_def by metis
  have k: "\<not> has_key col ks t" if "get t col = Some k" for t
    using that Cons.prems by (simp add: has_key_def)
  have "distinct (map fst (f k @ concat (map f ks)))"
  proof -
    have "fst ` set (f k) \<inter> fst ` set (concat (map f ks)) = {}"
    proof (intro equals0I)
      fix t assume "t \<in> fst ` set (f k) \<inter> fst ` set (concat (map f ks))"
      then obtain d d' where "(t, d) \<in> set (f k)" "(t, d') \<in> set (concat (map f ks))"
        by (elim IntE imageE) (simp only: prod.collapse, metis prod.collapse)
      with cell1 cell2 k show False by blast
    qed
    with 1 2 show ?thesis by (simp add: represents_def)
  qed
  moreover have "(t, d) \<in> set (f k @ concat (map f ks)) \<longleftrightarrow>
      d = restrict (has_key col (k # ks)) w t \<and> d \<noteq> 0" for t d
  proof -
    have "(t, d) \<in> set (f k) \<longleftrightarrow> d = restrict (\<lambda>t. get t col = Some k) w t \<and> d \<noteq> 0"
      using 1 by (simp add: represents_def)
    moreover have "(t, d) \<in> set (concat (map f ks)) \<longleftrightarrow> d = restrict (has_key col ks) w t \<and> d \<noteq> 0"
      using 2 by (simp add: represents_def)
    moreover have "has_key col (k # ks) t \<longleftrightarrow> get t col = Some k \<or> has_key col ks t"
      by (auto simp: has_key_def split: option.splits)
    ultimately show ?thesis using k [of t] by (auto simp: restrict_def)
  qed
  ultimately show ?case by (simp add: represents_def)
qed

lemma concat_spans:
  assumes "map fst spans = keys" "\<forall>(lo, hi)\<in>set spans. successor lo = Some hi"
  shows "concat (map (\<lambda>(lo, hi). g lo hi) spans) =
    concat (map (\<lambda>k. g k (the (successor k))) keys)"
proof -
  have "map (\<lambda>(lo, hi). g lo hi) spans = map (\<lambda>p. g (fst p) (the (successor (fst p)))) spans"
    using assms(2) by (intro map_cong) auto
  then show ?thesis unfolding assms(1) [symmetric] map_map comp_def by (rule arg_cong)
qed

lemma represents_sort: "represents rows w \<Longrightarrow> represents (sort rows) w"
proof -
  assume r: "represents rows w"
  then show ?thesis by (simp add: represents_def distinct_map)
qed

lemma key_is_span: "get t col = Some k \<longleftrightarrow> in_range_on col k (the (successor k)) t"
  if "successor k \<noteq> None"
  using that span_one [of k "the (successor k)"] by (auto simp: in_range_on_def split: option.splits)

lemma ent_lookup_ok:
  assumes ok: "ent_ok s" and e: "en_watermark s \<le> at"
  shows "\<exists>rows s'. ent_lookup rel at col keys s = (Inr rows, s') \<and>
    represents rows (restrict (has_key col keys) (ent_world s rel at)) \<and>
    ent_ok s' \<and> ent_world s' = ent_world s \<and> en_current s' = en_current s \<and>
    en_watermark s' = en_watermark s"
proof -
  define ks where "ks = sorted_keys keys"
  have hk: "has_key col ks = has_key col keys"
    by (auto simp: has_key_def ks_def sorted_keys_set fun_eq_iff split: option.splits)
  have dk: "distinct ks" by (simp add: ks_def sorted_keys_distinct)
  note rep = facts_at_represents [OF ok, of rel at]
  have wm: "\<not> at < en_watermark s" using e by simp
  have pass: "represents (lookup_pass (facts_at s rel at) col ks)
      (restrict (has_key col keys) (ent_world s rel at))"
  proof -
    have "lookup_pass (facts_at s rel at) col ks = keep_rows (has_key col ks) (facts_at s rel at)"
      by (auto simp: lookup_pass_def keep_rows_def has_key_def is_ent_def
          intro!: filter_cong split: option.splits val.splits)
    then show ?thesis using represents_keep_rows [OF rep] by (simp add: hk)
  qed
  show ?thesis
  proof (cases "key_spans ks")
    case None
    with pass ok wm show ?thesis by (simp add: ent_lookup_def ks_def [symmetric] Let_def)
  next
    case (Some spans)
    note sp = key_spans_Some [OF Some, THEN conjunct1] key_spans_Some [OF Some, THEN conjunct2]
    have succ: "successor k \<noteq> None" if "k \<in> set ks" for k using sp that by force
    have cell: "restrict (in_range_on col k (the (successor k))) w = restrict (\<lambda>t. get t col = Some k) w"
      if "k \<in> set ks" for k w
      using key_is_span [OF succ [OF that]] by (simp add: restrict_def fun_eq_iff)
    consider "col = 0" | "col \<noteq> 0" "layout_of s rel = Kd"
      | "col \<noteq> 0" "layout_of s rel \<noteq> Kd" "at \<noteq> en_current s"
      | "col \<noteq> 0" "layout_of s rel \<noteq> Kd" "at = en_current s" by blast
    then show ?thesis
    proof cases
      case 1
      have "represents (om_range [k] [the (successor k)] (facts_at s rel at))
          (restrict (\<lambda>t. get t col = Some k) (ent_world s rel at))" if "k \<in> set ks" for k
        using represents_om_range [OF rep, of "[k]" "[the (successor k)]"] cell [OF that]
        by (simp add: 1 lead_range [abs_def] restrict_def [abs_def])
      then have "represents (probe (facts_at s rel at) spans)
          (restrict (has_key col keys) (ent_world s rel at))"
        unfolding probe_def concat_spans [OF sp] hk [symmetric] by (rule represents_concat [OF dk])
      with 1 Some ok wm show ?thesis by (simp add: ent_lookup_def ks_def [symmetric] Let_def)
    next
      case 2
      have "represents (kd_range_on col k (the (successor k)) (facts_at s rel at))
          (restrict (\<lambda>t. get t col = Some k) (ent_world s rel at))" if "k \<in> set ks" for k
        using represents_keep_rows [OF rep] cell [OF that] by (metis kd_range_on_def)
      then have "represents (concat (map (\<lambda>(lo, hi). kd_range_on col lo hi (facts_at s rel at)) spans))
          (restrict (has_key col keys) (ent_world s rel at))"
        unfolding concat_spans [OF sp] hk [symmetric] by (rule represents_concat [OF dk])
      from represents_sort [OF this] 2 Some ok wm
      show ?thesis by (simp add: ent_lookup_def ks_def [symmetric] Let_def)
    next
      case 3
      with pass Some ok wm show ?thesis by (simp add: ent_lookup_def ks_def [symmetric] Let_def)
    next
      case 4
      define s' where "s' = ensure_order rel col s"
      note s' = ensure_order_ok [OF ok s'_def]
      have eq: "ent_lookup rel at col keys s =
          (case (case roots s' rel of None \<Rightarrow> None | Some r \<Rightarrow> om_get (orders r) col) of
            None \<Rightarrow> (Inr [], s') | Some arr \<Rightarrow> (Inr (unrotate_rows col (probe arr spans)), s'))"
        unfolding ent_lookup_def Let_def ks_def [symmetric] s'_def [symmetric]
        using 4 wm Some by simp
      show ?thesis
      proof (cases "roots s' rel")
        case None
        then have "facts_at s rel at = []" using s'(6) by (simp add: facts_at_def fact_at_def)
        then have "represents [] (restrict (has_key col keys) (ent_world s rel at))"
          using represents_keep_rows [OF rep, of "has_key col keys"] by (simp add: keep_rows_def)
        with None s'(1-4) show ?thesis by (simp add: eq)
      next
        case (Some r)
        obtain arr where arr: "om_get (orders r) col = Some arr"
          "arranged col (facts_at s rel (en_current s)) arr" using s'(7) [OF Some] by blast
        have "represents (unrotate_rows col (om_range [k] [the (successor k)] arr))
            (restrict (\<lambda>t. get t col = Some k) (ent_world s rel at))" if "k \<in> set ks" for k
          unfolding arranged_span [OF arr(2)] cell [OF that, symmetric]
          by (rule represents_cong [OF arranged_rows [OF arr(2) facts_at_represents [OF ok]]])
            (simp add: restrict_def in_range_on_def 4)
        from represents_concat [OF dk this]
        have "represents (unrotate_rows col (probe arr spans))
            (restrict (has_key col keys) (ent_world s rel at))"
          unfolding probe_def concat_spans [OF sp] hk
          by (simp add: unrotate_rows_def map_concat comp_def)
        with Some arr(1) s'(1-4) show ?thesis by (simp add: eq)
      qed
    qed
  qed
qed

lemma ent_read_containing_ok:
  assumes ok: "ent_ok s" and e: "en_watermark s \<le> at"
  shows "\<exists>rows. ent_read_containing s rel at fcol lcol points = Inr rows \<and>
    represents rows (restrict (contains_any fcol lcol points) (ent_world s rel at))"
proof -
  have "ent_read_containing s rel at fcol lcol points =
      Inr (keep_rows (contains_any fcol lcol points) (facts_at s rel at))"
    using e by (auto simp: ent_read_containing_def facts_at_def stab_rows_def keep_rows_def
        split: option.splits)
  then show ?thesis using represents_keep_rows [OF facts_at_represents [OF ok]] by blast
qed

section \<open>The Edition log\<close>

lemma log_weight_split:
  assumes "\<And>i. \<not> (P i \<and> Q i)"
  shows "log_weight r (\<lambda>i. P i \<or> Q i) t = log_weight r P t + log_weight r Q t"
proof -
  have "(\<Sum>x\<leftarrow>l. if P (f x) \<or> Q (f x) then g x else 0) =
      (\<Sum>x\<leftarrow>l. if P (f x) then g x else 0) + (\<Sum>x\<leftarrow>l. if Q (f x) then g x else 0)"
    for l :: "((edition \<times> nat) \<times> log_entry) list" and f and g :: "_ \<Rightarrow> int"
    using assms by (induction l) auto
  then show ?thesis by (simp add: log_weight_def)
qed

lemma log_weight_none: "(\<And>x. x \<in> set (log r) \<Longrightarrow> \<not> P (fst (fst x))) \<Longrightarrow> log_weight r P t = 0"
proof -
  assume none: "\<And>x. x \<in> set (log r) \<Longrightarrow> \<not> P (fst (fst x))"
  have "log_weight r P t = (\<Sum>x\<leftarrow>log r. 0)"
    unfolding log_weight_def using none by (intro arg_cong [of _ _ sum_list] map_cong) auto
  then show ?thesis by simp
qed

lemma log_weight_interval:
  assumes "history_ok wm r" "wm \<le> from" "from \<le> to"
  shows "log_weight r (\<lambda>i. from < i \<and> i \<le> to) t = wsum (roots_fact r to) t - wsum (roots_fact r from) t"
  using assms(3)
proof (induction to rule: dec_induct)
  case base
  then show ?case by (simp add: log_weight_none)
next
  case (step to)
  have "(\<lambda>i. from < i \<and> i \<le> Suc to) = (\<lambda>i. (from < i \<and> i \<le> to) \<or> i = Suc to)"
    using step.hyps by auto
  moreover have "log_weight r (\<lambda>i. i = Suc to) t =
      wsum (roots_fact r (Suc to)) t - wsum (roots_fact r to) t"
    using assms(1,2) step.hyps by (simp add: history_ok_def)
  ultimately show ?case using step.IH by (simp add: log_weight_split)
qed

lemma log_span: "om_range (from + 1, 0) (to + 1, 0) l = filter (\<lambda>x. from < fst (fst x) \<and> fst (fst x) \<le> to) l"
  for l :: "((edition \<times> nat) \<times> 'v) list"
  unfolding om_range_def by (rule filter_cong) (auto simp: less_eq_prod_def less_prod_def)

lemma log_rows_ok:
  assumes "log_ok e n g r" "x \<in> set (log r)"
  shows "\<exists>us. log_rows (versions r) x = Inr us \<and>
    (\<forall>t. wsum (update_pairs us) t = entry_weight (versions r) x t)"
proof -
  obtain i j y where x: "x = ((i, j), y)" by (metis prod.exhaust)
  show ?thesis
  proof (cases y)
    case (LUpdate t d)
    then show ?thesis by (simp add: x entry_weight_def update_pairs_def)
  next
    case (LGraft lo hi)
    with assms x obtain root where "om_get (versions r) i = Some root"
      by (fastforce simp: log_ok_def)
    with LGraft show ?thesis
      by (simp add: x entry_weight_def update_pairs_def comp_def case_prod_beta)
  qed
qed

lemma log_rows_all:
  assumes "log_ok e n g r"
  shows "\<exists>uss. rmapM (log_rows (versions r)) (filter (\<lambda>x. P (fst (fst x))) (log r)) = Inr uss \<and>
    (\<forall>t. wsum (update_pairs (concat uss)) t = log_weight r P t)"
proof -
  have "\<exists>uss. rmapM (log_rows (versions r)) (filter (\<lambda>x. P (fst (fst x))) l) = Inr uss \<and>
    (\<forall>t. wsum (update_pairs (concat uss)) t =
      (\<Sum>x\<leftarrow>l. if P (fst (fst x)) then entry_weight (versions r) x t else 0))"
    if "set l \<subseteq> set (log r)" for l
    using that
  proof (induction l)
    case (Cons x l)
    obtain us where us: "log_rows (versions r) x = Inr us"
      "\<And>t. wsum (update_pairs us) t = entry_weight (versions r) x t"
      using log_rows_ok [OF assms, of x] Cons.prems by auto
    obtain uss where uss: "rmapM (log_rows (versions r)) (filter (\<lambda>x. P (fst (fst x))) l) = Inr uss"
      "\<And>t. wsum (update_pairs (concat uss)) t =
        (\<Sum>x\<leftarrow>l. if P (fst (fst x)) then entry_weight (versions r) x t else 0)"
      using Cons by auto
    show ?case
    proof (cases "P (fst (fst x))")
      case True
      have "wsum (update_pairs (us @ concat uss)) t = wsum (update_pairs us) t + wsum (update_pairs (concat uss)) t" for t
        by (simp add: update_pairs_def)
      with True us uss show ?thesis by simp
    next
      case False
      with uss show ?thesis by simp
    qed
  qed (simp add: update_pairs_def)
  from this [of "log r"] show ?thesis by (simp add: log_weight_def)
qed

lemma ent_roots_ok: "ent_ok s \<Longrightarrow> \<exists>n. roots_ok (en_watermark s) (en_current s) n (Suc (en_current s)) (roots_or_default s r)"
  by (auto simp: ent_ok_def rels_ok_def)

lemma ent_scan_ok:
  assumes ok: "ent_ok s" and le: "en_watermark s \<le> from" "from \<le> to"
  shows "\<exists>ups. ent_scan_updates s rel from to = Inr ups \<and>
    (\<forall>t. wsum (update_pairs ups) t = ent_world s rel to t - ent_world s rel from t)"
proof -
  define r where "r = roots_or_default s rel"
  obtain n where n: "roots_ok (en_watermark s) (en_current s) n (Suc (en_current s)) r"
    using ent_roots_ok [OF ok] r_def by blast
  then have l: "log_ok (en_current s) n (Suc (en_current s)) r" and h: "history_ok (en_watermark s) r"
    by (auto simp: roots_ok_def)
  obtain uss where uss: "rmapM (log_rows (versions r)) (om_range (from + 1, 0) (to + 1, 0) (log r)) = Inr uss"
    "\<And>t. wsum (update_pairs (concat uss)) t = log_weight r (\<lambda>i. from < i \<and> i \<le> to) t"
    using log_rows_all [OF l, of "\<lambda>i. from < i \<and> i \<le> to"] unfolding log_span by blast
  have "ent_scan_updates s rel from to = Inr (concat uss)"
  proof (cases "roots s rel")
    case None
    then have "r = roots_default" by (simp add: r_def roots_or_default_def)
    with uss(1) None le show ?thesis
      by (auto simp: ent_scan_updates_def roots_default_def om_range_def)
  next
    case (Some r')
    then have "r = r'" by (simp add: r_def roots_or_default_def)
    with uss(1) Some le show ?thesis by (simp add: ent_scan_updates_def)
  qed
  then show ?thesis
    using uss(2) log_weight_interval [OF h le] by (simp add: ent_world_def r_def)
qed

lemma touched_rels_quiet:
  assumes ok: "ent_ok s" and le: "en_watermark s \<le> from" "from \<le> to"
    and quiet: "\<not> touched_rels s from to rels" and "r \<in> set rels"
  shows "ent_world s r to t = ent_world s r from t"
proof -
  define r' where "r' = roots_or_default s r"
  have "filter (\<lambda>x. from < fst (fst x) \<and> fst (fst x) \<le> to) (log r') = []"
    using quiet \<open>r \<in> set rels\<close>
  proof (induction rels)
    case (Cons q rels)
    show ?case
    proof (cases "roots s q")
      case None
      with Cons show ?thesis
        by (auto simp: log_of_def r'_def roots_or_default_def roots_default_def)
    next
      case (Some p)
      with Cons show ?thesis
        unfolding touched_rels.simps log_of_def log_span
        by (auto simp: r'_def roots_or_default_def filter_empty_conv split: if_splits)
    qed
  qed simp
  then have none: "\<forall>x\<in>set (log r'). \<not> (from < fst (fst x) \<and> fst (fst x) \<le> to)"
    by (simp add: filter_empty_conv)
  have "log_weight r' (\<lambda>i. from < i \<and> i \<le> to) t = 0"
    by (rule log_weight_none) (use none in auto)
  moreover obtain n where "roots_ok (en_watermark s) (en_current s) n (Suc (en_current s)) r'"
    using ent_roots_ok [OF ok] r'_def by blast
  ultimately show ?thesis
    using log_weight_interval [of "en_watermark s" r' "from" to t] le
    by (simp add: ent_world_def r'_def [symmetric] roots_ok_def)
qed

lemma ent_touched_ok: "ent_ok s \<Longrightarrow>
  \<exists>b. ent_touched_since s from to rels = Inr b \<and>
    (\<not> b \<and> from \<le> to \<longrightarrow> (\<forall>r\<in>set rels. \<forall>t. ent_world s r to t = ent_world s r from t))"
  using touched_rels_quiet [of s "from" to rels] by (auto simp: ent_touched_since_def)

section \<open>Key-range interests\<close>

lemma unfired_quiet:
  assumes ok: "ent_ok s" and i: "om_get (en_interests s) (rel, lo, hi) = Some iid"
    and since: "om_get (en_registered s) iid = Some since" "since \<le> from"
    and le: "en_watermark s \<le> from" "from \<le> to"
    and quiet: "om_range (iid, from + 1) (iid, to + 1) (en_fired s) = []" and t: "in_range lo hi t"
  shows "ent_world s rel to t = ent_world s rel from t"
proof -
  have "routed s rel lo hi iid" using ok i by (auto simp: ent_ok_def interests_ok_def)
  then have fires: "\<And>i t. since < i \<Longrightarrow> en_watermark s < i \<Longrightarrow> in_range lo hi t \<Longrightarrow>
      ent_world s rel i t \<noteq> ent_world s rel (i - 1) t \<Longrightarrow> ((iid, i), ()) \<in> set (en_fired s)"
    using since(1) unfolding routed_def by auto
  have "from + k \<le> to \<Longrightarrow> ent_world s rel (from + k) t = ent_world s rel from t" for k
  proof (induction k)
    case (Suc k)
    have "((iid, Suc (from + k)), ()) \<notin> set (en_fired s)"
    proof
      assume "((iid, Suc (from + k)), ()) \<in> set (en_fired s)"
      then have "((iid, Suc (from + k)), ()) \<in> set (om_range (iid, from + 1) (iid, to + 1) (en_fired s))"
        using Suc.prems by auto
      with quiet show False by simp
    qed
    with fires [of "Suc (from + k)" t] t since(2) le(1)
    have "ent_world s rel (Suc (from + k)) t = ent_world s rel (from + k) t" by auto
    with Suc show ?case by simp
  qed simp
  from this [of "to - from"] le(2) show ?thesis by simp
qed

end
