(* ===== verification/Delta.thy ===== *)
theory Delta
  imports Meaning
begin

text \<open>
  Incremental evaluation (the delta half of \<^verbatim>\<open>grmpl-diff/src/query.rs\<close>): the change of a
  plan's value over an interval of editions, computed from the updates, the version compare
  and keyed lookups of the store. \<^verbatim>\<open>Delta_Laws\<close> shows it equal to the difference of the two
  snapshots.
\<close>

section \<open>Base relations and row shapes\<close>

datatype span = Tuples tuple tuple | Column nat val val

record base_rel =
  br_rel :: rel_id
  br_span :: "span option"

definition admits :: "base_rel \<Rightarrow> tuple \<Rightarrow> bool" where
  "admits b t = (case br_span b of None \<Rightarrow> True
     | Some (Tuples lo hi) \<Rightarrow> lo \<le> t \<and> t < hi
     | Some (Column col lo hi) \<Rightarrow> (case get t col of None \<Rightarrow> False | Some v \<Rightarrow> lo \<le> v \<and> v < hi))"

fun base_of :: "query \<Rightarrow> base_rel option" where
  "base_of (QRel r) = Some \<lparr>br_rel = r, br_span = None\<rparr>"
| "base_of (QRangeRel r lo hi) = Some \<lparr>br_rel = r, br_span = Some (Tuples lo hi)\<rparr>"
| "base_of (QRangeRelOn r col lo hi) = Some \<lparr>br_rel = r, br_span = Some (Column col lo hi)\<rparr>"
| "base_of (QShared a inner) = base_of inner"
| "base_of q = None"

definition PROBE_LIMIT :: nat where
  "PROBE_LIMIT = 1024"

text \<open>\<open>keys.iter().cloned()\<close> over a \<open>BTreeSet\<close> of the cells in a column.\<close>

definition matching ::
  "nat \<Rightarrow> query \<Rightarrow> nat list \<Rightarrow> zset \<Rightarrow> nat list \<Rightarrow> 's trace_ops \<Rightarrow> 's \<Rightarrow> edition \<Rightarrow> zset result" where
  "matching fuel side side_key delta delta_key ops s at =
     (case (base_of side, side_key, delta_key) of
        (Some base, col # _, dcol # _) \<Rightarrow>
          let keys = distinct_cells delta dcol in
          if length keys \<le> PROBE_LIMIT
          then rbind (ts_lookup ops s (br_rel base) at col keys) (\<lambda>rows.
                 Inr (from_pairs (filter (\<lambda>(t, d). admits base t) rows)))
          else eval_snapshot fuel side ops s at
      | _ \<Rightarrow> eval_snapshot fuel side ops s at)"

datatype row_step = SFilter "tuple \<Rightarrow> bool" | SProject "nat list"

record row_shape =
  rs_base :: base_rel
  rs_steps :: "row_step list"

fun run_steps :: "row_step list \<Rightarrow> tuple \<Rightarrow> tuple option result" where
  "run_steps [] t = Inr (Some t)"
| "run_steps (SFilter p # steps) t = (if \<not> p t then Inr None else run_steps steps t)"
| "run_steps (SProject cols # steps) t = rbind (project_tuple t cols) (run_steps steps)"

definition row_image :: "row_shape \<Rightarrow> tuple \<Rightarrow> tuple option result" where
  "row_image rows t = (if \<not> admits (rs_base rows) t then Inr None else run_steps (rs_steps rows) t)"

text \<open>The steps from the outermost inwards.\<close>

fun source_rev :: "row_step list \<Rightarrow> nat \<Rightarrow> nat option" where
  "source_rev [] col = Some col"
| "source_rev (SFilter p # steps) col = source_rev steps col"
| "source_rev (SProject cols # steps) col =
     (case get cols col of None \<Rightarrow> None | Some c \<Rightarrow> source_rev steps c)"

definition source :: "row_shape \<Rightarrow> nat \<Rightarrow> nat option" where
  "source rows col = source_rev (rev (rs_steps rows)) col"

definition push_step :: "row_step \<Rightarrow> row_shape \<Rightarrow> row_shape" where
  "push_step st rows = rows\<lparr>rs_steps := rs_steps rows @ [st]\<rparr>"

definition bare_rows :: "base_rel option \<Rightarrow> row_shape option" where
  "bare_rows b = map_option (\<lambda>b. \<lparr>rs_base = b, rs_steps = []\<rparr>) b"

fun rows_of :: "query \<Rightarrow> row_shape option" where
  "rows_of (QFilter input pred) = map_option (push_step (SFilter pred)) (rows_of input)"
| "rows_of (QProject input cols) = map_option (push_step (SProject cols)) (rows_of input)"
| "rows_of (QShared a inner) = rows_of inner"
| "rows_of q = bare_rows (base_of q)"

definition group_of :: "tuple \<Rightarrow> nat list \<Rightarrow> val list option" where
  "group_of t key = those (map (get t) key)"

section \<open>The change of an aggregate\<close>

fun strip_set :: "query \<Rightarrow> query" where
  "strip_set (QDistinct inner) = strip_set inner"
| "strip_set (QShared a inner) = strip_set inner"
| "strip_set q = q"

text \<open>
  The changed groups, and how each image's weight at \<open>from\<close> differs from its weight at
  \<open>to\<close>. \<open>None\<close> is the early return on a row too short for the key.
\<close>

fun changed_groups ::
  "row_shape \<Rightarrow> nat list \<Rightarrow> (tuple \<times> diff \<times> diff) list \<Rightarrow> val list set \<Rightarrow> zset \<Rightarrow>
   (val list set \<times> zset) option result" where
  "changed_groups rows key [] groups back = Inr (Some (groups, back))"
| "changed_groups rows key ((t, w_from, w_to) # rest) groups back =
     rbind (row_image rows t) (\<lambda>im. case im of
       None \<Rightarrow> changed_groups rows key rest groups back
     | Some u \<Rightarrow>
         (case group_of u key of None \<Rightarrow> Inr None
          | Some g \<Rightarrow> changed_groups rows key rest (insert g groups) (zadd back u (w_from - w_to))))"

fun group_rows ::
  "row_shape \<Rightarrow> nat list \<Rightarrow> val list set \<Rightarrow> rows \<Rightarrow> zset \<Rightarrow> zset option result" where
  "group_rows rows key groups [] at_to = Inr (Some at_to)"
| "group_rows rows key groups ((t, w) # rest) at_to =
     rbind (row_image rows t) (\<lambda>im. case im of
       None \<Rightarrow> group_rows rows key groups rest at_to
     | Some u \<Rightarrow>
         (case group_of u key of None \<Rightarrow> Inr None
          | Some g \<Rightarrow> group_rows rows key groups rest (if g \<in> groups then zadd at_to u w else at_to)))"

text \<open>The changed groups folded at both ends: at \<open>from\<close> with the old weights put back.\<close>

definition refold :: "nat list \<Rightarrow> agg \<Rightarrow> zset \<Rightarrow> zset \<Rightarrow> zset option result" where
  "refold key agg at_to back =
     (let at_from = zmerge at_to back in
      rbind (reduce_snapshot at_to key agg) (\<lambda>new.
      rbind (reduce_snapshot at_from key agg) (\<lambda>old.
        Inr (Some (strip_zeros (zmerge new (znegate old)))))))"

definition reduce_by_key ::
  "query \<Rightarrow> nat list \<Rightarrow> agg \<Rightarrow> 's trace_ops \<Rightarrow> 's \<Rightarrow> edition \<Rightarrow> edition \<Rightarrow> zset option result" where
  "reduce_by_key input key agg ops s from to =
     (case (rows_of (strip_set input), key) of
        (Some rows, lead # _) \<Rightarrow>
          (case source rows lead of None \<Rightarrow> Inr None
           | Some col \<Rightarrow>
               rbind (ts_compare ops s (br_rel (rs_base rows)) from to) (\<lambda>changes.
               rbind (changed_groups rows key changes {} []) (\<lambda>cg. case cg of None \<Rightarrow> Inr None
               | Some (groups, back) \<Rightarrow>
                   let leads = sorted_list_of_set (hd ` groups) in
                   if leads = [] then Inr (Some [])
                   else if PROBE_LIMIT < length leads then Inr None
                   else
                     rbind (ts_lookup ops s (br_rel (rs_base rows)) to col leads) (\<lambda>found.
                     rbind (group_rows rows key groups found []) (\<lambda>gr. case gr of None \<Rightarrow> Inr None
                     | Some at_to \<Rightarrow> refold key agg at_to back)))))
      | _ \<Rightarrow> Inr None)"

section \<open>Routing\<close>

primrec collect_rels :: "query \<Rightarrow> rel_id list" where
  "collect_rels (QRel r) = [r]"
| "collect_rels (QRangeRel r lo hi) = [r]"
| "collect_rels (QRangeRelOn r col lo hi) = [r]"
| "collect_rels (QMap input f) = collect_rels input"
| "collect_rels (QFilter input p) = collect_rels input"
| "collect_rels (QProject input cols) = collect_rels input"
| "collect_rels (QNegate a) = collect_rels a"
| "collect_rels (QDistinct a) = collect_rels a"
| "collect_rels (QReduce input key agg) = collect_rels input"
| "collect_rels (QJoin left right lk rk) = collect_rels left @ collect_rels right"
| "collect_rels (QUnion left right) = collect_rels left @ collect_rels right"
| "collect_rels (QIterate init step) = collect_rels init @ collect_rels step"
| "collect_rels (QShared a inner) = collect_rels inner"
| "collect_rels (QMaterialized plan into prefix cursor_rel key reduce) = collect_rels plan"
| "collect_rels (QInherit input col key ctx) = collect_rels input @ [ctx]"
| "collect_rels QRecur = []"

definition quiet :: "query \<Rightarrow> 's trace_ops \<Rightarrow> 's \<Rightarrow> edition \<Rightarrow> edition \<Rightarrow> bool result" where
  "quiet q ops s from to =
     (let rels = remdups_adj (sort (collect_rels q)) in
      rbind (ts_touched_since ops s from to rels) (\<lambda>touched. Inr (\<not> touched)))"

section \<open>The change of a materialized copy\<close>

definition copy_current ::
  "'s trace_ops \<Rightarrow> 's \<Rightarrow> rel_id \<Rightarrow> entity \<Rightarrow> rel_id list \<Rightarrow> edition \<Rightarrow> bool result" where
  "copy_current ops s cursor_rel key rels at =
     rbind (cursor_at (ts_reader_at ops s at) cursor_rel key) (\<lambda>c. case c of
       None \<Rightarrow> Inr False
     | Some c \<Rightarrow> if at \<le> c then Inr True
                  else rbind (ts_touched_since ops s c at rels) (\<lambda>touched. Inr (\<not> touched)))"

definition sign_change :: "diff \<Rightarrow> diff \<Rightarrow> diff" where
  "sign_change w_from w_to = (if 0 < w_to then 1 else 0) - (if 0 < w_from then 1 else 0)"

definition stored_delta ::
  "'s trace_ops \<Rightarrow> 's \<Rightarrow> query \<Rightarrow> rel_id \<Rightarrow> tuple \<Rightarrow> rel_id \<Rightarrow> entity \<Rightarrow> edition \<Rightarrow> edition \<Rightarrow>
   zset option result" where
  "stored_delta ops s plan into prefix cursor_rel key from to =
     (let rels = base_relations plan; n = length prefix in
      rbind (copy_current ops s cursor_rel key rels from) (\<lambda>ok. if \<not> ok then Inr None else
      rbind (copy_current ops s cursor_rel key rels to) (\<lambda>ok. if \<not> ok then Inr None else
      rbind (ts_compare ops s into from to) (\<lambda>changes.
        Inr (Some (zadd_all []
          (map (\<lambda>(t, w_from, w_to). (drop n t, sign_change w_from w_to))
            (filter (\<lambda>(t, w_from, w_to). n \<le> length t \<and> take n t = prefix) changes))))))))"

section \<open>The change of a plan\<close>

definition scan_kept ::
  "'s trace_ops \<Rightarrow> 's \<Rightarrow> rel_id \<Rightarrow> (tuple \<Rightarrow> bool) \<Rightarrow> edition \<Rightarrow> edition \<Rightarrow> zset result" where
  "scan_kept ops s rel keep from to =
     rbind (ts_scan_updates ops s rel from to) (\<lambda>ups.
       Inr (from_pairs (update_pairs (filter (\<lambda>u. keep (u_tuple u)) ups))))"

text \<open>\<open>to \<union> negate(from)\<close>, consolidated.\<close>

definition difference :: "zset \<Rightarrow> zset \<Rightarrow> zset" where
  "difference to_val from_val = strip_zeros (zmerge to_val (znegate from_val))"

definition join_delta ::
  "nat \<Rightarrow> query \<Rightarrow> query \<Rightarrow> nat list \<Rightarrow> nat list \<Rightarrow> 's trace_ops \<Rightarrow> 's \<Rightarrow> edition \<Rightarrow> zset \<Rightarrow> zset \<Rightarrow>
   zset result" where
  "join_delta fuel left right lk rk ops s to da db =
     rbind (if da = [] then Inr []
            else rbind (matching fuel right rk da lk ops s to) (\<lambda>b_to. join_multisets da lk b_to rk)) (\<lambda>out.
     rbind (if db = [] then Inr out
            else rbind (matching fuel left lk db rk ops s to) (\<lambda>a_to.
                 rbind (join_multisets a_to lk db rk) (\<lambda>j. Inr (zmerge out j)))) (\<lambda>out.
     rbind (if da = [] \<or> db = [] then Inr out
            else rbind (join_multisets da lk db rk) (\<lambda>j. Inr (zmerge out (znegate j)))) (\<lambda>out.
     Inr (strip_zeros out))))"

definition distinct_delta :: "base_rel \<Rightarrow> 's trace_ops \<Rightarrow> 's \<Rightarrow> edition \<Rightarrow> edition \<Rightarrow> zset result" where
  "distinct_delta base ops s from to =
     rbind (ts_compare ops s (br_rel base) from to) (\<lambda>changes.
       Inr (strip_zeros (zadd_all []
         (map (\<lambda>(t, w_from, w_to). (t, sign_change w_from w_to))
           (filter (\<lambda>(t, w_from, w_to). admits base t) changes)))))"

primrec eval_delta ::
  "nat \<Rightarrow> query \<Rightarrow> 's trace_ops \<Rightarrow> 's \<Rightarrow> edition \<Rightarrow> edition \<Rightarrow> zset result" where
  "eval_delta fuel (QRel r) ops s from to =
     rbind (ts_scan_updates ops s r from to) (\<lambda>ups. Inr (from_pairs (update_pairs ups)))"
| "eval_delta fuel (QRangeRel rel lo hi) ops s from to = scan_kept ops s rel (in_range lo hi) from to"
| "eval_delta fuel (QRangeRelOn rel col lo hi) ops s from to =
     scan_kept ops s rel (in_range_on col lo hi) from to"
| "eval_delta fuel (QMap input f) ops s from to =
     rbind (eval_delta fuel input ops s from to) (\<lambda>d. Inr (map_rows f d))"
| "eval_delta fuel (QFilter input pred) ops s from to =
     rbind (eval_delta fuel input ops s from to) (\<lambda>d. Inr (filter_rows pred d))"
| "eval_delta fuel (QProject input cols) ops s from to =
     rbind (eval_delta fuel input ops s from to) (\<lambda>d. project_rows cols d)"
| "eval_delta fuel (QJoin left right lk rk) ops s from to =
     rbind (eval_delta fuel left ops s from to) (\<lambda>da.
     rbind (eval_delta fuel right ops s from to) (\<lambda>db. join_delta fuel left right lk rk ops s to da db))"
| "eval_delta fuel (QUnion a b) ops s from to =
     rbind (eval_delta fuel a ops s from to) (\<lambda>out.
     rbind (eval_delta fuel b ops s from to) (\<lambda>rhs. Inr (zunion out rhs)))"
| "eval_delta fuel (QNegate a) ops s from to =
     rbind (eval_delta fuel a ops s from to) (\<lambda>d. Inr (znegate d))"
| "eval_delta fuel (QDistinct a) ops s from to =
     (case base_of a of Some base \<Rightarrow> distinct_delta base ops s from to
      | None \<Rightarrow>
          rbind (quiet (QDistinct a) ops s from to) (\<lambda>unchanged. if unchanged then Inr [] else
          rbind (eval_snapshot fuel a ops s to) (\<lambda>to_val.
          rbind (eval_snapshot fuel a ops s from) (\<lambda>from_val.
          Inr (difference (distinct_snapshot to_val) (distinct_snapshot from_val))))))"
| "eval_delta fuel (QReduce input key agg) ops s from to =
     rbind (quiet (QReduce input key agg) ops s from to) (\<lambda>unchanged. if unchanged then Inr [] else
     rbind (reduce_by_key input key agg ops s from to) (\<lambda>by_key. case by_key of Some out \<Rightarrow> Inr out
     | None \<Rightarrow>
         rbind (eval_snapshot fuel input ops s to) (\<lambda>to_val.
         rbind (reduce_snapshot to_val key agg) (\<lambda>to_set.
         rbind (eval_snapshot fuel input ops s from) (\<lambda>from_val.
         rbind (reduce_snapshot from_val key agg) (\<lambda>from_set.
         Inr (difference to_set from_set)))))))"
| "eval_delta fuel (QIterate init step) ops s from to =
     rbind (quiet (QIterate init step) ops s from to) (\<lambda>unchanged. if unchanged then Inr [] else
     rbind (eval_snapshot fuel (QIterate init step) ops s to) (\<lambda>to_val.
     rbind (eval_snapshot fuel (QIterate init step) ops s from) (\<lambda>from_val.
     Inr (difference to_val from_val))))"
| "eval_delta fuel QRecur ops s from to = Inr []"
| "eval_delta fuel (QShared a inner) ops s from to = eval_delta fuel inner ops s from to"
| "eval_delta fuel (QInherit input col key ctx) ops s from to =
     rbind (ts_touched_since ops s from to [ctx]) (\<lambda>touched.
       if touched then
         rbind (eval_snapshot fuel (QInherit input col key ctx) ops s to) (\<lambda>to_val.
         rbind (eval_snapshot fuel (QInherit input col key ctx) ops s from) (\<lambda>from_val.
         Inr (difference to_val from_val)))
       else
         rbind (eval_delta fuel input ops s from to) (\<lambda>d.
         rbind (ts_read_containing ops s ctx to 0 1 (distinct_cells d col)) (\<lambda>ctx_rows.
         Inr (inherit d col key ctx_rows))))"
| "eval_delta fuel (QMaterialized plan into prefix cursor_rel key reduce) ops s from to =
     rbind (if reduce = None then stored_delta ops s plan into prefix cursor_rel key from to
            else Inr None) (\<lambda>stored.
       case stored of Some d \<Rightarrow> Inr d | None \<Rightarrow> eval_delta fuel plan ops s from to)"

end
