(* ===== verification/Delta_Laws.thy ===== *)
theory Delta_Laws
  imports Delta
begin

text \<open>
  The incremental evaluator computes the change of a plan's value: where the snapshots at
  both ends of an interval exist, \<open>eval_delta\<close> returns, and its weights are those of the
  later snapshot less those of the earlier one.
\<close>

definition is_delta :: "zset \<Rightarrow> zset \<Rightarrow> zset \<Rightarrow> bool" where
  "is_delta d a b \<longleftrightarrow> canonical d \<and> (\<forall>t. wsum d t = wsum b t - wsum a t)"

lemma is_deltaD: "is_delta d a b \<Longrightarrow> wsum d t = wsum b t - wsum a t"
  "is_delta d a b \<Longrightarrow> canonical d"
  by (simp_all add: is_delta_def)

named_theorems delta_intro \<open>each operator carries deltas to deltas\<close>

lemma is_delta_same: "is_delta [] a a"
  by (simp add: is_delta_def)

lemma is_delta_difference: "canonical b \<Longrightarrow> is_delta (difference b a) a b"
  by (simp add: is_delta_def difference_def canonicalD zset wsum_znegate)

lemma lsum_delta: "is_delta d a b \<Longrightarrow> lsum d f = lsum b f - lsum a f"
  by (rule lsum_linear) (rule is_deltaD)

lemma is_delta_map [delta_intro]: "is_delta d a b \<Longrightarrow> is_delta (map_rows f d) (map_rows f a) (map_rows f b)"
  unfolding is_delta_def [of "map_rows f d"] by (simp add: wsum_map_rows lsum_delta)

lemma is_delta_filter [delta_intro]:
  "is_delta d a b \<Longrightarrow> is_delta (filter_rows p d) (filter_rows p a) (filter_rows p b)"
  by (simp add: is_delta_def wsum_filter_rows)

lemma is_delta_negate [delta_intro]: "is_delta d a b \<Longrightarrow> is_delta (znegate d) (znegate a) (znegate b)"
  by (simp add: is_delta_def wsum_znegate)

lemma is_delta_union [delta_intro]:
  "is_delta d a b \<Longrightarrow> is_delta d' a' b' \<Longrightarrow> canonical a \<Longrightarrow> canonical b \<Longrightarrow>
   is_delta (zunion d d') (zunion a a') (zunion b b')"
  by (simp add: is_delta_def wsum_zunion)

lemma is_delta_inherit [delta_intro]:
  "is_delta d a b \<Longrightarrow> is_delta (inherit d col key ctx) (inherit a col key ctx) (inherit b col key ctx)"
  unfolding is_delta_def [of "inherit d col key ctx"] by (simp add: wsum_inherit lsum_delta)

text \<open>A row of the change is a row of one of the ends, so it is as wide as they are.\<close>

lemma all_fit_delta:
  assumes "is_delta d a b" "canonical a" "canonical b" "all_fit cols a" "all_fit cols b"
  shows "all_fit cols d"
proof -
  have "wsum d t \<noteq> 0 \<Longrightarrow> wsum a t \<noteq> 0 \<or> wsum b t \<noteq> 0" for t
    using is_deltaD(1) [OF assms(1), of t] by auto
  then show ?thesis
    using assms is_deltaD(2) [OF assms(1)] by (auto simp: all_fit_weight)
qed

section \<open>Joins\<close>

lemma join_ends:
  assumes da: "is_delta da a a'" and db: "is_delta db b b'"
  shows "join_weight da lk b' rk u + join_weight a' lk db rk u - join_weight da lk db rk u =
    join_weight a' lk b' rk u - join_weight a lk b rk u"
proof -
  note l = join_weight_left [OF is_deltaD(1) [OF da]] and r = join_weight_right [OF is_deltaD(1) [OF db]]
  show ?thesis by (simp add: l r)
qed

lemma join_weight_Nil [simp]: "join_weight [] lk r rk u = 0" "join_weight l lk [] rk u = 0"
  by (simp_all add: join_weight_def) (induction l, auto)

text \<open>What a restricted read of one side owes the join: every row that matches the change.\<close>

definition serves :: "zset \<Rightarrow> nat list \<Rightarrow> zset \<Rightarrow> nat list \<Rightarrow> zset \<Rightarrow> bool" where
  "serves part side_key delta delta_key full \<longleftrightarrow> canonical part \<and>
     (\<exists>P. (\<forall>t. wsum part t = (if P t then wsum full t else 0)) \<and>
        (\<forall>dt\<in>fst ` set delta. \<forall>t. wsum full t \<noteq> 0 \<longrightarrow> pick side_key t = pick delta_key dt \<longrightarrow> P t))"

lemma serves_fit: "serves part sk delta dk full \<Longrightarrow> canonical full \<Longrightarrow> all_fit cols full \<Longrightarrow> all_fit cols part"
  unfolding serves_def by (auto simp: all_fit_weight split: if_splits) metis

lemma serves_right: "serves part rk l lk r \<Longrightarrow> join_weight l lk part rk u = join_weight l lk r rk u"
  by (auto simp: serves_def intro!: join_weight_matching_right)

lemma serves_left:
  assumes "serves part lk r rk l"
  shows "join_weight part lk r rk u = join_weight l lk r rk u"
proof -
  from assms obtain P where P: "\<forall>t. wsum part t = (if P t then wsum l t else 0)"
    "\<forall>dt\<in>fst ` set r. \<forall>t. wsum l t \<noteq> 0 \<longrightarrow> pick lk t = pick rk dt \<longrightarrow> P t"
    by (auto simp: serves_def)
  show ?thesis by (rule join_weight_matching_left [where P = P]) (use P in auto)
qed

lemma serves_full: "canonical full \<Longrightarrow> serves full sk delta dk full"
  by (auto simp: serves_def intro!: exI [of _ "\<lambda>_. True"])

lemma join_delta_steps:
  assumes da: "is_delta da a a'" and db: "is_delta db b b'"
    and can: "canonical a" "canonical b" "canonical a'" "canonical b'"
    and fit: "all_fit lk a" "all_fit lk a'" "all_fit rk b" "all_fit rk b'"
    and mr: "da \<noteq> [] \<Longrightarrow> \<exists>p. matching fuel right rk da lk ops s to = Inr p \<and> serves p rk da lk b'"
    and ml: "db \<noteq> [] \<Longrightarrow> \<exists>p. matching fuel left lk db rk ops s to = Inr p \<and> serves p lk db rk a'"
  shows "\<exists>out. join_delta fuel left right lk rk ops s to da db = Inr out \<and> canonical out \<and>
    (\<forall>u. wsum out u = join_weight a' lk b' rk u - join_weight a lk b rk u)"
proof -
  have fda: "all_fit lk da" by (rule all_fit_delta [OF da]) (use can fit in auto)
  have fdb: "all_fit rk db" by (rule all_fit_delta [OF db]) (use can fit in auto)
  obtain o1 where o1: "(if da = [] then Inr []
        else rbind (matching fuel right rk da lk ops s to) (\<lambda>b_to. join_multisets da lk b_to rk)) = Inr o1"
    "canonical o1" "\<And>u. wsum o1 u = join_weight da lk b' rk u"
  proof (cases "da = []")
    case False
    from mr [OF False] obtain p where p: "matching fuel right rk da lk ops s to = Inr p" "serves p rk da lk b'"
      by blast
    have "all_fit rk p" by (rule serves_fit [OF p(2)]) (use can fit in auto)
    from join_multisets_Inr [OF this fda] serves_right [OF p(2)] p(1) False that show ?thesis by auto
  qed (use that in auto)
  obtain o2 where o2: "(if db = [] then Inr o1
            else rbind (matching fuel left lk db rk ops s to) (\<lambda>a_to.
                 rbind (join_multisets a_to lk db rk) (\<lambda>j. Inr (zmerge o1 j)))) = Inr o2"
    "osorted o2" "\<And>u. wsum o2 u = wsum o1 u + join_weight a' lk db rk u"
  proof (cases "db = []")
    case False
    from ml [OF False] obtain p where p: "matching fuel left lk db rk ops s to = Inr p" "serves p lk db rk a'"
      by blast
    have "all_fit lk p" by (rule serves_fit [OF p(2)]) (use can fit in auto)
    from join_multisets_Inr [OF fdb this] serves_left [OF p(2)] p(1) False o1(2) that show ?thesis
      by (auto simp: wsum_zmerge canonicalD)
  qed (use that o1(2) in auto)
  obtain o3 where o3: "(if da = [] \<or> db = [] then Inr o2
            else rbind (join_multisets da lk db rk) (\<lambda>j. Inr (zmerge o2 (znegate j)))) = Inr o3"
    "osorted o3" "\<And>u. wsum o3 u = wsum o2 u - join_weight da lk db rk u"
  proof (cases "da = [] \<or> db = []")
    case False
    from join_multisets_Inr [OF fdb fda] False o2(2) that show ?thesis
      by (auto simp: wsum_zmerge wsum_znegate)
  qed (use that o2(2) in auto)
  have "join_delta fuel left right lk rk ops s to da db = Inr (strip_zeros o3)"
    unfolding join_delta_def o1(1) rbind.simps o2(1) o3(1) ..
  moreover have "wsum (strip_zeros o3) u = join_weight a' lk b' rk u - join_weight a lk b rk u" for u
    using join_ends [OF da db, of lk rk u] by (simp add: o1(3) o2(3) o3(3))
  ultimately show ?thesis using o3(2) by auto
qed

section \<open>Comparing two versions\<close>

lemma compares_distinct: "compares rows wa wb \<Longrightarrow> distinct (map fst rows)"
  by (simp add: compares_def osorted_distinct)

text \<open>The compare, as signed rows, is the change of the relation.\<close>

lemma wsum_map_third: "wsum (map (\<lambda>(t, a, b). (t, f a b)) rows) u = (\<Sum>(t, a, b)\<leftarrow>rows. if t = u then f a b else 0)"
  by (induction rows) auto

lemma compares_wsum:
  assumes "compares rows wa wb"
  shows "wsum (map (\<lambda>(t, a, b). (t, f a b)) (filter (\<lambda>(t, a, b). P t) rows)) u =
    (if P u \<and> wa u \<noteq> wb u then f (wa u) (wb u) else 0)"
proof -
  let ?ps = "map (\<lambda>(t, a, b). (t, f a b)) (filter (\<lambda>(t, a, b). P t) rows)"
  have fst: "map fst ?ps = map fst (filter (\<lambda>(t, a, b). P t) rows)" by auto
  have d: "distinct (map fst ?ps)"
    unfolding fst using compares_distinct [OF assms] by (rule distinct_map_filter)
  show ?thesis
  proof (cases "P u \<and> wa u \<noteq> wb u")
    case True
    then have "(u, wa u, wb u) \<in> set rows" using assms by (simp add: compares_def)
    with True have "(u, f (wa u) (wb u)) \<in> set ?ps" by force
    from wsum_distinct [OF d this] True show ?thesis by simp
  next
    case False
    then have "u \<notin> fst ` set ?ps" using assms by (auto simp: compares_def)
    then have "wsum ?ps u = 0" by (rule wsum_notin)
    with False show ?thesis by (simp only: if_False)
  qed
qed

lemma canonical_zadd_all:
  "canonical m \<Longrightarrow> distinct (map fst ps) \<Longrightarrow> fst ` set ps \<inter> fst ` set m = {} \<Longrightarrow> canonical (zadd_all m ps)"
proof (induction ps arbitrary: m)
  case (Cons p ps)
  obtain t d where p: "p = (t, d)" by (cases p)
  have t: "zweight m t = 0" using Cons.prems(3) by (auto simp: p zweight_def om_get_notin)
  have sub: "set (om_put t d m) \<subseteq> insert (t, d) (set m)" by (rule set_om_put)
  have z: "zadd m t d = (if d = 0 then m else om_put t d m)" by (simp add: zadd_def t)
  have "canonical (zadd m t d)"
  proof (cases "d = 0")
    case False
    have "nonzero (om_put t d m)"
      unfolding nonzero_def
    proof (intro ballI, clarify)
      fix u assume "(u, 0) \<in> set (om_put t d m)"
      then have "(u, 0) \<in> set m" using sub False by blast
      then show False using Cons.prems(1) by (auto simp: canonical_def nonzero_def)
    qed
    then show ?thesis using False Cons.prems(1) by (simp add: z canonical_def)
  next
    case True
    then show ?thesis unfolding z using Cons.prems(1) by simp
  qed
  moreover have "fst ` set (zadd m t d) \<subseteq> insert t (fst ` set m)"
    using sub by (auto simp: z)
  moreover have "t \<notin> fst ` set ps" "fst ` set ps \<inter> fst ` set m = {}"
    using Cons.prems(2,3) by (auto simp: p)
  ultimately have "canonical (zadd m t d)" "fst ` set ps \<inter> fst ` set (zadd m t d) = {}"
    by blast+
  then show ?case using Cons.IH Cons.prems(2) by (simp add: p)
qed simp

lemma sign_change_eq: "sign_change a b = ind (0 < b) - ind (0 < a)"
  by (simp add: sign_change_def ind_def)

lemma sign_change_same [simp]: "sign_change a a = 0"
  by (simp add: sign_change_def)


section \<open>Row-wise plans\<close>

lemma lsum_zero [simp]: "lsum m (\<lambda>_. 0) = 0"
  by (induction m) auto

text \<open>What a row-wise plan makes of a base row, where no index is out of range.\<close>

definition row_fun :: "row_shape \<Rightarrow> tuple \<Rightarrow> tuple option" where
  "row_fun rows t = (case row_image rows t of Inr o' \<Rightarrow> o' | Inl _ \<Rightarrow> None)"

definition images_ok :: "row_shape \<Rightarrow> zset \<Rightarrow> bool" where
  "images_ok rows m \<longleftrightarrow> (\<forall>t\<in>fst ` set m. \<exists>u. row_image rows t = Inr u)"

lemma run_steps_append:
  "run_steps (xs @ ys) t =
     rbind (run_steps xs t) (\<lambda>o'. case o' of None \<Rightarrow> Inr None | Some u \<Rightarrow> run_steps ys u)"
  by (induction xs t rule: run_steps.induct) (auto simp: rbind_assoc intro!: rbind_cong)

lemma row_image_push:
  "row_image (push_step st rows) t =
     rbind (row_image rows t) (\<lambda>o'. case o' of None \<Rightarrow> Inr None | Some u \<Rightarrow> run_steps [st] u)"
  by (simp add: row_image_def push_step_def run_steps_append)

lemma push_step_base [simp]: "rs_base (push_step st rows) = rs_base rows"
  by (simp add: push_step_def)

lemma images_ok_push: "images_ok (push_step st rows) m \<Longrightarrow> images_ok rows m"
  unfolding images_ok_def row_image_push by (auto simp: result_simps)

lemma row_fun_push:
  assumes "row_image (push_step st rows) t = Inr o'"
  shows "row_fun (push_step st rows) t =
    (case row_fun rows t of None \<Rightarrow> None
     | Some u \<Rightarrow> (case run_steps [st] u of Inr o' \<Rightarrow> o' | Inl _ \<Rightarrow> None))"
  using assms unfolding row_fun_def row_image_push
  by (auto simp: result_simps split: option.splits sum.splits)

lemma lsum_image_rows:
  "lsum (image_rows f m) g = lsum m (\<lambda>t. case f t of None \<Rightarrow> 0 | Some u \<Rightarrow> g u)"
  by (induction m) (auto simp: image_rows_def split: option.splits)

lemma wsum_image_rows_ne: "wsum (image_rows f m) u \<noteq> 0 \<Longrightarrow> \<exists>t\<in>fst ` set m. f t = Some u"
  by (induction m) (auto simp: image_rows_def split: option.splits if_splits)

lemma base_of_value:
  assumes "base_of q = Some b" and "\<And>r. canonical (D r)"
  shows "query_value fuel q D recur None = Inr (filter_rows (admits b) (D (br_rel b)))"
  using assms(1)
proof (induction q arbitrary: b rule: base_of.induct)
  case (1 r)
  then show ?case by (auto simp: overriding_def overridden_def filter_rows_def admits_def)
qed (auto simp: overriding_def overridden_def admits_def [abs_def] in_range_def [abs_def]
      in_range_on_def [abs_def])

definition rows_value :: "row_shape \<Rightarrow> zset \<Rightarrow> zset \<Rightarrow> bool" where
  "rows_value rows base m \<longleftrightarrow> canonical m \<and> (\<forall>u. wsum m u = wsum (image_rows (row_fun rows) base) u)"

lemma rows_value_key: "rows_value rows base m \<Longrightarrow> u \<in> fst ` set m \<Longrightarrow> \<exists>t\<in>fst ` set base. row_fun rows t = Some u"
  unfolding rows_value_def by (auto simp: canonical_key dest: wsum_image_rows_ne)

lemma rows_value_filter:
  assumes "rows_value rows base m" "images_ok (push_step (SFilter p) rows) base"
  shows "rows_value (push_step (SFilter p) rows) base (filter_rows p m)"
proof -
  have f: "row_fun (push_step (SFilter p) rows) t =
      (case row_fun rows t of None \<Rightarrow> None | Some u \<Rightarrow> if p u then Some u else None)"
    if "t \<in> fst ` set base" for t
    using assms(2) that row_fun_push [of "SFilter p" rows t] by (fastforce simp: images_ok_def split: option.splits)
  have "wsum (image_rows (row_fun (push_step (SFilter p) rows)) base) u =
      (if p u then wsum (image_rows (row_fun rows) base) u else 0)" for u
  proof -
    have "wsum (image_rows (row_fun (push_step (SFilter p) rows)) base) u =
        lsum base (\<lambda>t. if p u then ind (row_fun rows t = Some u) else 0)"
      unfolding wsum_image_rows by (rule lsum_cong) (auto simp: f ind_def split: option.splits)
    then show ?thesis by (simp add: wsum_image_rows)
  qed
  then show ?thesis using assms(1) by (simp add: rows_value_def wsum_filter_rows)
qed

lemma rows_value_project:
  assumes "rows_value rows base m" "images_ok (push_step (SProject cols) rows) base"
  shows "all_fit cols m" "rows_value (push_step (SProject cols) rows) base (map_rows (pick cols) m)"
proof -
  have f: "(case row_fun rows t of None \<Rightarrow> True | Some u \<Rightarrow> fits cols u) \<and>
      row_fun (push_step (SProject cols) rows) t = map_option (pick cols) (row_fun rows t)"
    if t: "t \<in> fst ` set base" for t
  proof -
    obtain o' where o': "row_image (push_step (SProject cols) rows) t = Inr o'"
      using assms(2) t by (auto simp: images_ok_def)
    then obtain o1 where o1: "row_image rows t = Inr o1" by (auto simp: row_image_push result_simps)
    show ?thesis
      using o' o1 by (cases o1) (auto simp: row_image_push row_fun_def project_tuple_eq split: if_splits)
  qed
  have "fits cols u" if u: "u \<in> fst ` set m" for u
  proof -
    from rows_value_key [OF assms(1) u] obtain t where t: "t \<in> fst ` set base" "row_fun rows t = Some u" ..
    with f [OF t(1)] show ?thesis by simp
  qed
  then show "all_fit cols m" unfolding all_fit_def by blast
  have "wsum (map_rows (pick cols) m) u = wsum (image_rows (row_fun (push_step (SProject cols) rows)) base) u" for u
  proof -
    have "wsum (map_rows (pick cols) m) u = lsum m (\<lambda>t. ind (pick cols t = u))" by (rule wsum_map_rows)
    also have "\<dots> = lsum (image_rows (row_fun rows) base) (\<lambda>t. ind (pick cols t = u))"
      by (rule lsum_wsum_cong) (use assms(1) in \<open>simp add: rows_value_def\<close>)
    also have "\<dots> = lsum base (\<lambda>t. ind (row_fun (push_step (SProject cols) rows) t = Some u))"
      unfolding lsum_image_rows by (rule lsum_cong) (auto simp: f split: option.splits)
    finally show ?thesis by (simp add: wsum_image_rows)
  qed
  then show "rows_value (push_step (SProject cols) rows) base (map_rows (pick cols) m)"
    by (simp add: rows_value_def)
qed

lemma rows_value_base:
  assumes "canonical base"
  shows "rows_value \<lparr>rs_base = b, rs_steps = []\<rparr> base (filter_rows (admits b) base)"
proof -
  have "wsum (image_rows (row_fun \<lparr>rs_base = b, rs_steps = []\<rparr>) base) u = (if admits b u then wsum base u else 0)" for u
    by (induction base) (auto simp: image_rows_def row_fun_def row_image_def)
  then show ?thesis using assms by (simp add: rows_value_def wsum_filter_rows)
qed

text \<open>A row-wise plan's value is its base relation, each row replaced by its image.\<close>

lemma rows_of_value:
  assumes "rows_of q = Some rows" and D: "\<And>r. canonical (D r)"
    and "images_ok rows (D (br_rel (rs_base rows)))"
  shows "\<exists>m. query_value fuel q D None None = Inr m \<and> rows_value rows (D (br_rel (rs_base rows))) m"
  using assms(1,3)
proof (induction q arbitrary: rows rule: rows_of.induct [case_names 1 2 3 rel range range_on n1 n2 n3 n4 n5 n6 n7 n8 n9 n10])
  case (1 input pred)
  then obtain rows' where r: "rows_of input = Some rows'" "rows = push_step (SFilter pred) rows'" by auto
  then have ok: "images_ok rows' (D (br_rel (rs_base rows')))"
    using 1(3) images_ok_push [of "SFilter pred" rows'] by simp
  from 1(1) [OF r(1) ok] show ?case using rows_value_filter 1(3) r(2) by fastforce
next
  case (2 input cols)
  then obtain rows' where r: "rows_of input = Some rows'" "rows = push_step (SProject cols) rows'" by auto
  then have ok: "images_ok rows' (D (br_rel (rs_base rows')))"
    using 2(3) images_ok_push [of "SProject cols" rows'] by simp
  from 2(1) [OF r(1) ok] show ?case using rows_value_project 2(3) r(2) by (fastforce simp: project_rows_eq)
next
  case (3 a inner)
  then show ?case by simp
next
  case (rel r)
  then show ?case using base_of_value [OF _ D, of "QRel r"] rows_value_base [OF D] by (auto simp: bare_rows_def)
next
  case (range r lo hi)
  then show ?case using base_of_value [OF _ D, of "QRangeRel r lo hi"] rows_value_base [OF D]
    by (fastforce simp: bare_rows_def)
next
  case (range_on r col lo hi)
  then show ?case using base_of_value [OF _ D, of "QRangeRelOn r col lo hi"] rows_value_base [OF D]
    by (fastforce simp: bare_rows_def)
qed (simp_all add: bare_rows_def)

end
