(* ===== verification/Delta_Correct.thy ===== *)
theory Delta_Correct
  imports Delta_Laws
begin

text \<open>
  The two halves of the argument that need a store or a whole plan: the per-key change of an
  aggregate, and the induction over plans that gives \<open>eval_delta_correct\<close>.
\<close>

section \<open>The change of an aggregate, group by group\<close>

lemma those_get: "those (map (get u) key) = (if fits key u then Some (pick key u) else None)"
  by (induction key) (auto simp: fits_def pick_def get_def)

lemma group_of_eq: "group_of u key = (if fits key u then Some (pick key u) else None)"
  by (simp add: group_of_def those_get)

lemma row_fun_Inr: "row_image rows t = Inr o' \<Longrightarrow> row_fun rows t = o'"
  by (simp add: row_fun_def)

definition key_rows :: "row_shape \<Rightarrow> nat list \<Rightarrow> tuple set \<Rightarrow> bool" where
  "key_rows rows key ts \<longleftrightarrow> (\<forall>t\<in>ts. \<forall>u. row_fun rows t = Some u \<longrightarrow> fits key u)"

lemma changed_groups_spec:
  assumes "osorted bk" and "\<forall>t\<in>fst ` set ch. \<exists>o'. row_image rows t = Inr o'"
  shows "changed_groups rows key ch G bk = Inr None \<or>
    (\<exists>bk'. changed_groups rows key ch G bk =
        Inr (Some (G \<union> {pick key u |u t. t \<in> fst ` set ch \<and> row_fun rows t = Some u}, bk')) \<and>
      osorted bk' \<and> key_rows rows key (fst ` set ch) \<and>
      (\<forall>u. wsum bk' u = wsum bk u +
         wsum (image_rows (row_fun rows) (map (\<lambda>(t, a, b). (t, a - b)) ch)) u))"
  using assms
proof (induction ch arbitrary: G bk)
  case Nil
  then show ?case by (simp add: image_rows_def key_rows_def)
next
  case (Cons c ch)
  obtain t a b where c: "c = (t, a, b)" by (cases c) auto
  obtain o' where o': "row_image rows t = Inr o'" using Cons.prems(2) by (auto simp: c)
  have ok: "\<forall>t\<in>fst ` set ch. \<exists>o'. row_image rows t = Inr o'" using Cons.prems(2) by simp
  show ?case
  proof (cases o')
    case None
    from Cons.IH [OF Cons.prems(1) ok, of G] show ?thesis
    proof
      assume "\<exists>bk'. changed_groups rows key ch G bk =
          Inr (Some (G \<union> {pick key u |u t. t \<in> fst ` set ch \<and> row_fun rows t = Some u}, bk')) \<and>
        osorted bk' \<and> key_rows rows key (fst ` set ch) \<and>
        (\<forall>u. wsum bk' u = wsum bk u +
           wsum (image_rows (row_fun rows) (map (\<lambda>(t, a, b). (t, a - b)) ch)) u)"
      moreover have "{pick key u |u t. t \<in> fst ` set (c # ch) \<and> row_fun rows t = Some u} =
          {pick key u |u t. t \<in> fst ` set ch \<and> row_fun rows t = Some u}"
        using None row_fun_Inr [OF o'] by (auto simp: c)
      ultimately show ?thesis
        using None o' row_fun_Inr [OF o'] by (simp add: c key_rows_def image_rows_def)
    qed (use None o' in \<open>simp add: c\<close>)
  next
    case (Some v)
    note f = row_fun_Inr [OF o', unfolded Some]
    show ?thesis
    proof (cases "fits key v")
      case True
      let ?bk = "zadd bk v (a - b)"
      have "osorted ?bk" using Cons.prems(1) by simp
      from Cons.IH [OF this ok, of "insert (pick key v) G"] show ?thesis
      proof
        assume "\<exists>bk'. changed_groups rows key ch (insert (pick key v) G) ?bk =
            Inr (Some (insert (pick key v) G \<union> {pick key u |u t. t \<in> fst ` set ch \<and> row_fun rows t = Some u}, bk')) \<and>
          osorted bk' \<and> key_rows rows key (fst ` set ch) \<and>
          (\<forall>u. wsum bk' u = wsum ?bk u +
             wsum (image_rows (row_fun rows) (map (\<lambda>(t, a, b). (t, a - b)) ch)) u)"
        moreover have "insert (pick key v) G \<union> {pick key u |u t. t \<in> fst ` set ch \<and> row_fun rows t = Some u} =
            G \<union> {pick key u |u t. t \<in> fst ` set (c # ch) \<and> row_fun rows t = Some u}"
          using f by (auto simp: c)
        ultimately show ?thesis
          using Some o' f True Cons.prems(1)
          by (auto simp: c key_rows_def image_rows_def group_of_eq wsum_zadd)
      qed (use Some o' True in \<open>simp add: c group_of_eq\<close>)
    qed (use Some o' in \<open>simp add: c group_of_eq\<close>)
  qed
qed

lemma group_rows_spec:
  assumes "osorted acc" and "\<forall>t\<in>fst ` set found. \<exists>o'. row_image rows t = Inr o'"
  shows "group_rows rows key G found acc = Inr None \<or>
    (\<exists>acc'. group_rows rows key G found acc = Inr (Some acc') \<and> osorted acc' \<and>
      key_rows rows key (fst ` set found) \<and>
      (\<forall>u. wsum acc' u = wsum acc u +
         (if pick key u \<in> G then wsum (image_rows (row_fun rows) found) u else 0)))"
  using assms
proof (induction found arbitrary: acc)
  case Nil
  then show ?case by (simp add: image_rows_def key_rows_def)
next
  case (Cons c found)
  obtain t w where c: "c = (t, w)" by (cases c) auto
  obtain o' where o': "row_image rows t = Inr o'" using Cons.prems(2) by (auto simp: c)
  have ok: "\<forall>t\<in>fst ` set found. \<exists>o'. row_image rows t = Inr o'" using Cons.prems(2) by simp
  note f = row_fun_Inr [OF o']
  show ?case
  proof (cases o')
    case None
    with Cons.IH [OF Cons.prems(1) ok] o' f show ?thesis by (auto simp: c key_rows_def image_rows_def)
  next
    case (Some v)
    have "osorted (if pick key v \<in> G then zadd acc v w else acc)" using Cons.prems(1) by simp
    from Cons.IH [OF this ok] show ?thesis
      using Some o' f Cons.prems(1)
      by (cases "fits key v") (auto simp: c key_rows_def image_rows_def group_of_eq wsum_zadd split: if_splits)
  qed
qed

lemma restricted_groups:
  assumes "osorted x" "osorted m" "groups_ok m key agg"
    and w: "\<And>u. wsum x u = (if fits key u \<and> pick key u \<in> G then wsum m u else 0)"
  shows "groups_ok x key agg" "emits x key agg u \<longleftrightarrow> butlast u \<in> G \<and> emits m key agg u"
proof -
  have fit: "0 < wsum m t \<Longrightarrow> fits key t" for t
    using assms(3) by (simp add: groups_ok_def set_positives assms(2))
  have mem: "members x key k = (if k \<in> G then members m key k else [])" for k
  proof (cases "k \<in> G")
    case True
    have "members x key k = members m key k"
      by (rule members_eqI [OF assms(1,2)]) (use True fit w in auto)
    with True show ?thesis by simp
  next
    case False
    then show ?thesis by (auto simp: members_def filter_empty_conv set_positives assms(1) w)
  qed
  show "groups_ok x key agg"
    using assms(3) unfolding groups_ok_def by (auto simp: set_positives assms(1,2) w mem split: if_splits)
  show "emits x key agg u \<longleftrightarrow> butlast u \<in> G \<and> emits m key agg u"
    by (auto simp: emits_def mem split: if_splits)
qed

lemma reduce_parts:
  assumes can: "canonical mf" "canonical mt"
    and red: "reduce_snapshot mf key agg = Inr rf" "reduce_snapshot mt key agg = Inr rt"
    and o': "osorted at_to" "osorted bk"
    and w: "\<And>u. wsum at_to u = (if fits key u \<and> pick key u \<in> G then wsum mt u else 0)"
    and bk: "\<And>u. wsum bk u = wsum mf u - wsum mt u"
    and moved: "\<And>u. wsum bk u \<noteq> 0 \<Longrightarrow> fits key u \<and> pick key u \<in> G"
  shows "\<exists>new old. reduce_snapshot at_to key agg = Inr new \<and>
    reduce_snapshot (zmerge at_to bk) key agg = Inr old \<and>
    is_delta (strip_zeros (zmerge new (znegate old))) rf rt"
proof -
  have g: "groups_ok mf key agg" "groups_ok mt key agg" using red by (auto simp flip: reduce_snapshot_ok)
  have of': "osorted (zmerge at_to bk)" using o' by simp
  have wf: "wsum (zmerge at_to bk) u = (if fits key u \<and> pick key u \<in> G then wsum mf u else 0)" for u
    using moved [of u] by (auto simp: wsum_zmerge o' w bk)
  note T = restricted_groups [OF o'(1) canonicalD [OF can(2)] g(2) w]
  note F = restricted_groups [OF of' canonicalD [OF can(1)] g(1) wf]
  obtain new where new: "reduce_snapshot at_to key agg = Inr new" "canonical new"
    "\<And>u. wsum new u = ind (emits at_to key agg u)"
    using reduce_snapshot_Inr [OF T(1)] by blast
  obtain old where old: "reduce_snapshot (zmerge at_to bk) key agg = Inr old"
    "\<And>u. wsum old u = ind (emits (zmerge at_to bk) key agg u)"
    using reduce_snapshot_Inr [OF F(1)] by blast
  have wrf: "wsum rf u = ind (emits mf key agg u)" and wrt: "wsum rt u = ind (emits mt key agg u)" for u
    using reduce_snapshot_Inr [OF g(1)] reduce_snapshot_Inr [OF g(2)] red by auto
  have same: "emits mt key agg u \<longleftrightarrow> emits mf key agg u" if "butlast u \<notin> G" for u
  proof -
    have "members mt key (butlast u) = members mf key (butlast u)"
    proof (rule members_eqI)
      fix t assume "pick key t = butlast u"
      then have "wsum bk t = 0" using moved [of t] that by auto
      then show "0 < wsum mt t \<longleftrightarrow> 0 < wsum mf t" by (simp add: bk)
    qed (use can in auto)
    then show ?thesis by (simp add: emits_def)
  qed
  have "is_delta (strip_zeros (zmerge new (znegate old))) rf rt"
    unfolding is_delta_def
  proof (intro conjI allI)
    show "canonical (strip_zeros (zmerge new (znegate old)))" using new(2) by (simp add: canonicalD)
    fix u
    have "wsum (strip_zeros (zmerge new (znegate old))) u =
        ind (butlast u \<in> G \<and> emits mt key agg u) - ind (butlast u \<in> G \<and> emits mf key agg u)"
      using new(2) by (simp add: canonicalD wsum_zmerge wsum_znegate new(3) old(2) T(2) F(2))
    also have "\<dots> = wsum rt u - wsum rf u" using same [of u] by (auto simp: wrf wrt ind_def)
    finally show "wsum (strip_zeros (zmerge new (znegate old))) u = wsum rt u - wsum rf u" .
  qed
  with new(1) old(1) show ?thesis by blast
qed

text \<open>The base column that a column of the image comes from.\<close>

lemma get_pick: "get (pick cols t) i = (case get cols i of None \<Rightarrow> None | Some c \<Rightarrow> Some (t ! c))"
  by (auto simp: get_def pick_def)

lemma source_step:
  "run_steps steps t = Inr (Some u) \<Longrightarrow> source_rev (rev steps @ rest) col = Some c \<Longrightarrow> col < length u \<Longrightarrow>
   \<exists>c'. source_rev rest c' = Some c \<and> get t c' = get u col"
proof (induction steps t arbitrary: rest rule: run_steps.induct)
  case (1 t)
  then show ?case by auto
next
  case (2 p steps t)
  from 2(1) [of "SFilter p # rest"] 2(2-4) show ?case by (auto split: if_splits)
next
  case (3 cols steps t)
  from 3(2) obtain v where v: "project_tuple t cols = Inr v" "run_steps steps v = Inr (Some u)"
    by (auto simp: result_simps)
  from 3(1) [OF v(1) v(2), of "SProject cols # rest"] 3(3,4) obtain c' where
    c': "source_rev (SProject cols # rest) c' = Some c" "get v c' = get u col" by auto
  from v(1) have p: "fits cols t" "v = pick cols t" by (auto simp: project_tuple_eq split: if_splits)
  from c'(1) obtain d where d: "get cols c' = Some d" "source_rev rest d = Some c"
    by (auto split: option.splits)
  have "d < length t" using p(1) d(1) by (auto simp: fits_def get_Some_iff)
  then have "get t d = get v c'" using d(1) by (simp add: p(2) get_pick) (simp add: get_def)
  with d(2) c'(2) show ?case by auto
qed

lemma source_get:
  assumes "row_fun rows t = Some u" "source rows col = Some c" "col < length u"
  shows "get t c = get u col"
proof -
  from assms(1) have "run_steps (rs_steps rows) t = Inr (Some u)"
    by (auto simp: row_fun_def row_image_def split: sum.splits if_splits)
  from source_step [OF this, of "[]" col c] assms(2,3) show ?thesis by (simp add: source_def)
qed


section \<open>Plans a change can be computed for\<close>

text \<open>
  Where a per-key change is computed, the image of each base row is taken on its own, so no
  row may be too short for the projections under the aggregate. (The snapshot takes images
  after equal rows are summed, and a row that cancels is never looked at.)
\<close>

definition rows_fit :: "(rel_id \<Rightarrow> zset) \<Rightarrow> query \<Rightarrow> bool" where
  "rows_fit D input =
     (case rows_of (strip_set input) of None \<Rightarrow> True
      | Some rows \<Rightarrow> images_ok rows (D (br_rel (rs_base rows))))"

primrec delta_ready :: "(rel_id \<Rightarrow> zset) \<Rightarrow> query \<Rightarrow> bool" where
  "delta_ready D (QRel r) = True"
| "delta_ready D (QRangeRel r lo hi) = True"
| "delta_ready D (QRangeRelOn r col lo hi) = True"
| "delta_ready D (QMap input f) = delta_ready D input"
| "delta_ready D (QFilter input p) = delta_ready D input"
| "delta_ready D (QProject input cols) = delta_ready D input"
| "delta_ready D (QJoin left right lk rk) = (delta_ready D left \<and> delta_ready D right)"
| "delta_ready D (QUnion left right) = (delta_ready D left \<and> delta_ready D right)"
| "delta_ready D (QNegate input) = delta_ready D input"
| "delta_ready D (QDistinct input) = delta_ready D input"
| "delta_ready D (QReduce input key agg) = (rows_fit D input \<and> delta_ready D input)"
| "delta_ready D QRecur = True"
| "delta_ready D (QIterate init step) = True"
| "delta_ready D (QInherit input col key ctx) = delta_ready D input"
| "delta_ready D (QMaterialized plan into prefix cursor_rel key reduce) = delta_ready D plan"
| "delta_ready D (QShared a inner) = delta_ready D inner"

lemma set_collect_rels: "set (collect_rels q) = collect_base_relations q"
  by (induction q) auto

lemma strip_set_value:
  assumes "query_value fuel q D None None = Inr m" and D: "\<And>r. canonical (D r)"
  shows "\<exists>m'. query_value fuel (strip_set q) D None None = Inr m' \<and>
    (\<forall>key agg. reduce_snapshot m key agg = reduce_snapshot m' key agg)"
  using assms(1)
  by (induction q arbitrary: m rule: strip_set.induct) (fastforce simp: result_simps)+

lemma wsum_prefix_rows: "wsum (prefix_rows prefix m) u = wsum m (prefix @ u)"
proof -
  let ?P = "\<lambda>t. length prefix \<le> length t \<and> take (length prefix) t = prefix"
  have "wsum (prefix_rows prefix m) u = lsum (filter (\<lambda>(t, d). ?P t) m) (\<lambda>t. ind (drop (length prefix) t = u))"
    by (simp add: prefix_rows_def drop_prefix_def wsum_image)
  also have "\<dots> = wsum m (prefix @ u)"
  proof (induction m)
    case (Cons p m)
    have "?P (fst p) \<and> drop (length prefix) (fst p) = u \<longleftrightarrow> fst p = prefix @ u"
      by (metis append_eq_conv_conj append_take_drop_id le_add1 length_append)
    then show ?case using Cons by (cases p) (auto simp: ind_def)
  qed simp
  finally show ?thesis .
qed

lemma canonical_prefix_rows: "canonical (prefix_rows prefix m)"
  by (simp add: prefix_rows_def drop_prefix_def)

lemma restrict_ne: "restrict P w t \<noteq> 0 \<Longrightarrow> w t \<noteq> 0"
  by (auto simp: restrict_def split: if_splits)

lemma represents_ne: "represents rows w \<Longrightarrow> (t, d) \<in> set rows \<Longrightarrow> w t \<noteq> 0"
  by (simp add: represents_def)

context trace_store
begin

lemma ends_le: "ts_watermark ops s \<le> from \<Longrightarrow> from \<le> to \<Longrightarrow> ts_watermark ops s \<le> to"
  by (rule order_trans)

lemma contents_eqI:
  assumes "inv s" "ts_watermark ops s \<le> a" "ts_watermark ops s \<le> b" "\<And>t. W s r a t = W s r b t"
  shows "contents ops s a r = contents ops s b r"
  by (rule canonical_ext) (simp_all add: contents_ok assms)

lemma value_canonical:
  assumes "inv s" "ts_watermark ops s \<le> e" "query_value fuel q (contents ops s e) None None = Inr m"
  shows "canonical m"
  by (rule canonical_query_value [OF contents_ok(2) [OF assms(1,2)] _ _ assms(3)])
    (simp_all add: canonical_overrides_def overridden_def)

lemma quiet_ok:
  assumes "inv s" "ts_watermark ops s \<le> from" "from \<le> to"
  shows "\<exists>b. quiet q ops s from to = Inr b \<and>
    (b \<longrightarrow> query_value fuel q (contents ops s to) None None = query_value fuel q (contents ops s from) None None)"
proof -
  let ?rels = "remdups_adj (sort (collect_rels q))"
  obtain b where b: "ts_touched_since ops s from to ?rels = Inr b"
    "\<not> b \<and> from \<le> to \<longrightarrow> (\<forall>r\<in>set ?rels. \<forall>t. W s r to t = W s r from t)"
    using touched_since [OF assms(1)] by blast
  have "query_value fuel q (contents ops s to) None None = query_value fuel q (contents ops s from) None None"
    if "\<not> b"
  proof (rule query_value_cong)
    fix r assume "r \<in> collect_base_relations q"
    then show "contents ops s to r = contents ops s from r"
      using b(2) that assms by (intro contents_eqI) (auto simp: set_collect_rels)
  qed
  then show ?thesis using b(1) by (simp add: quiet_def)
qed

lemma matching_ok:
  assumes i: "inv s" "ts_watermark ops s \<le> at"
    and ok: "copies_ok fuel (W s) (contents ops s at) at side" "arcs_ok env side"
    and v: "query_value fuel side (contents ops s at) None None = Inr full"
    and fit: "all_fit side_key full" "all_fit delta_key delta"
  shows "\<exists>p. matching fuel side side_key delta delta_key ops s at = Inr p \<and>
    serves p side_key delta delta_key full"
proof -
  note D = contents_ok(2) [OF i]
  have full: "canonical full"
    by (rule canonical_query_value [OF D _ _ v]) (simp_all add: canonical_overrides_def overridden_def)
  have whole: "eval_snapshot fuel side ops s at = Inr full"
    using snapshot_meaning [OF i ok] v by simp
  consider base col cols dcol dcols where "base_of side = Some base" "side_key = col # cols"
      "delta_key = dcol # dcols" "length (distinct_cells delta dcol) \<le> PROBE_LIMIT"
    | "matching fuel side side_key delta delta_key ops s at = eval_snapshot fuel side ops s at"
    by (cases "base_of side"; cases side_key; cases delta_key;
        cases "length (distinct_cells delta (hd delta_key)) \<le> PROBE_LIMIT")
      (auto simp: matching_def Let_def)
  then show ?thesis
  proof cases
    case 1
    let ?keys = "distinct_cells delta dcol"
    obtain rows where rows: "ts_lookup ops s (br_rel base) at col ?keys = Inr rows"
      "represents rows (restrict (has_key col ?keys) (W s (br_rel base) at))"
      using lookup [OF i] by blast
    let ?p = "from_pairs (filter (\<lambda>(t, d). admits base t) rows)"
    have fv: "full = filter_rows (admits base) (contents ops s at (br_rel base))"
      using base_of_value [OF 1(1) D] v by simp
    have w: "wsum ?p t = (if has_key col ?keys t then wsum full t else 0)" for t
      by (simp add: wsum_filter represents_wsum [OF rows(2)] fv wsum_filter_rows contents_ok(3) [OF i] restrict_def)
    have "has_key col ?keys t"
      if "dt \<in> fst ` set delta" "wsum full t \<noteq> 0" "pick side_key t = pick delta_key dt" for dt t
    proof -
      have "fits side_key t" using fit(1) that(2) by (simp add: all_fit_weight full)
      moreover have dt: "fits delta_key dt" using fit(2) that(1) unfolding all_fit_def by blast
      ultimately have "get t col = Some (t ! col)" "get dt dcol = Some (t ! col)"
        using that(3) by (auto simp: 1 fits_def pick_def get_def)
      with distinct_cells_mem [OF that(1)] show ?thesis by (simp add: has_key_def)
    qed
    then have "serves ?p side_key delta delta_key full" using w by (auto simp: serves_def)
    with 1 rows(1) show ?thesis by (simp add: matching_def Let_def)
  next
    case 2
    then show ?thesis using whole serves_full [OF full] by auto
  qed
qed

lemma scan_kept_ok:
  assumes "inv s" "ts_watermark ops s \<le> from" "from \<le> to"
  shows "\<exists>d. scan_kept ops s r P from to = Inr d \<and>
    is_delta d (filter_rows P (contents ops s from r)) (filter_rows P (contents ops s to r))"
proof -
  obtain ups where ups: "ts_scan_updates ops s r from to = Inr ups"
    "\<And>t. wsum (update_pairs ups) t = W s r to t - W s r from t"
    using scan_updates [OF assms] by blast
  have "update_pairs (filter (\<lambda>u. P (u_tuple u)) ups) = filter (\<lambda>(t, d). P t) (update_pairs ups)"
    by (induction ups) (auto simp: update_pairs_def)
  then show ?thesis
    using ups contents_ok(3) [OF assms(1)] assms ends_le [OF assms(2,3)]
    by (simp add: scan_kept_def is_delta_def wsum_filter wsum_filter_rows)
qed

lemma distinct_delta_ok:
  assumes "inv s" "ts_watermark ops s \<le> from" "from \<le> to"
  shows "\<exists>d. distinct_delta base ops s from to = Inr d \<and>
    is_delta d (distinct_snapshot (filter_rows (admits base) (contents ops s from (br_rel base))))
      (distinct_snapshot (filter_rows (admits base) (contents ops s to (br_rel base))))"
proof -
  note hi = ends_le [OF assms(2,3)]
  note D = contents_ok(2) [OF assms(1,2)] contents_ok(2) [OF assms(1) hi]
  obtain ch where ch: "ts_compare ops s (br_rel base) from to = Inr ch"
    "compares ch (W s (br_rel base) from) (W s (br_rel base) to)"
    using compare [OF assms(1,2) hi] by blast
  let ?d = "strip_zeros (zadd_all [] (map (\<lambda>(t, w_from, w_to). (t, sign_change w_from w_to))
      (filter (\<lambda>(t, w_from, w_to). admits base t) ch)))"
  have w: "wsum ?d u = (if admits base u \<and> W s (br_rel base) from u \<noteq> W s (br_rel base) to u
      then sign_change (W s (br_rel base) from u) (W s (br_rel base) to u) else 0)" for u
    unfolding wsum_build by (rule compares_wsum [OF ch(2)])
  have "is_delta ?d (distinct_snapshot (filter_rows (admits base) (contents ops s from (br_rel base))))
      (distinct_snapshot (filter_rows (admits base) (contents ops s to (br_rel base))))"
    unfolding is_delta_def w
    by (auto simp: wsum_distinct_snapshot canonicalD canonical_filter_rows D wsum_filter_rows
        contents_ok(3) assms hi sign_change_eq)
  then show ?thesis using ch(1) by (auto simp: distinct_delta_def)
qed

lemma copy_current_ok:
  assumes "inv s" "ts_watermark ops s \<le> at"
  shows "\<exists>b. copy_current ops s cursor_rel key (base_relations plan) at = Inr b \<and>
    (b \<longrightarrow> (\<exists>c. cursor_says (contents ops s at cursor_rel) key c \<and>
       (at \<le> c \<or> (\<forall>r\<in>set (base_relations plan). \<forall>t. W s r at t = W s r c t))))"
proof -
  obtain c where c: "cursor_at (ts_reader_at ops s at) cursor_rel key = Inr c"
    "\<And>x. c = Some x \<Longrightarrow> cursor_says (contents ops s at cursor_rel) key x"
    using cursor_at_meaning [OF assms] by blast
  show ?thesis
  proof (cases c)
    case None
    then show ?thesis using c by (intro exI [of _ False]) (simp add: copy_current_def)
  next
    case (Some x)
    obtain b where "ts_touched_since ops s x at (base_relations plan) = Inr b"
      "\<not> b \<and> x \<le> at \<longrightarrow> (\<forall>r\<in>set (base_relations plan). \<forall>t. W s r at t = W s r x t)"
      using touched_since [OF assms(1)] by blast
    with Some c(1) c(2) [OF Some] show ?thesis by (auto simp: copy_current_def)
  qed
qed

lemma stored_delta_ok:
  assumes i: "inv s" "ts_watermark ops s \<le> from" "from \<le> to"
    and copies: "copy_ok fuel (W s) (contents ops s from) from plan into prefix cursor_rel key None"
      "copy_ok fuel (W s) (contents ops s to) to plan into prefix cursor_rel key None"
    and v: "query_value fuel plan (contents ops s from) None None = Inr a"
      "query_value fuel plan (contents ops s to) None None = Inr b"
  shows "\<exists>o'. stored_delta ops s plan into prefix cursor_rel key from to = Inr o' \<and>
    (\<forall>d. o' = Some d \<longrightarrow> is_delta d a b)"
proof -
  note hi = ends_le [OF i(2,3)]
  obtain bf bt where b: "copy_current ops s cursor_rel key (base_relations plan) from = Inr bf"
      "copy_current ops s cursor_rel key (base_relations plan) to = Inr bt"
    and cur: "bf \<longrightarrow> (\<exists>c. cursor_says (contents ops s from cursor_rel) key c \<and>
       (from \<le> c \<or> (\<forall>r\<in>set (base_relations plan). \<forall>t. W s r from t = W s r c t)))"
      "bt \<longrightarrow> (\<exists>c. cursor_says (contents ops s to cursor_rel) key c \<and>
       (to \<le> c \<or> (\<forall>r\<in>set (base_relations plan). \<forall>t. W s r to t = W s r c t)))"
    using copy_current_ok [OF i(1,2), of cursor_rel key plan] copy_current_ok [OF i(1) hi, of cursor_rel key plan]
    by blast
  show ?thesis
  proof (cases "bf \<and> bt")
    case True
    then have ab: "a = distinct_snapshot (prefix_rows prefix (contents ops s from into))"
      "b = distinct_snapshot (prefix_rows prefix (contents ops s to into))"
      using copies cur v unfolding copy_ok_def by (auto simp: reduce_stored_def)
    obtain ch where ch: "ts_compare ops s into from to = Inr ch" "compares ch (W s into from) (W s into to)"
      using compare [OF i(1,2) hi] by blast
    let ?n = "length prefix"
    let ?P = "\<lambda>t. ?n \<le> length t \<and> take ?n t = prefix"
    let ?kept = "filter (\<lambda>(t, w_from, w_to). ?P t) ch"
    let ?ps = "map (\<lambda>(t, w_from, w_to). (drop ?n t, sign_change w_from w_to)) ?kept"
    let ?d = "zadd_all [] ?ps"
    have inj: "inj_on (\<lambda>t. drop ?n t) {t. ?P t}"
      by (auto simp: inj_on_def) (metis append_take_drop_id)
    have "distinct (map fst ?kept)" using compares_distinct [OF ch(2)] by (rule distinct_map_filter)
    moreover have "map fst ?ps = map (\<lambda>t. drop ?n t) (map fst ?kept)" by auto
    moreover have "set (map fst ?kept) \<subseteq> {t. ?P t}" by auto
    ultimately have d: "distinct (map fst ?ps)"
      using inj_on_subset [OF inj] by (simp only: distinct_map)
    have can: "canonical ?d" by (rule canonical_zadd_all) (use d in auto)
    have w: "wsum ?d u = sign_change (W s into from (prefix @ u)) (W s into to (prefix @ u))" for u
    proof -
      have "wsum ?ps u = wsum (map (\<lambda>(t, w_from, w_to). (t, sign_change w_from w_to)) ?kept) (prefix @ u)"
      proof (induction ch)
        case (Cons p ch)
        have "?P (fst p) \<Longrightarrow> drop ?n (fst p) = u \<longleftrightarrow> fst p = prefix @ u"
          by (metis append_eq_conv_conj append_take_drop_id)
        then show ?case using Cons by (cases p) auto
      qed simp
      also have "\<dots> = (if ?P (prefix @ u) \<and> W s into from (prefix @ u) \<noteq> W s into to (prefix @ u)
          then sign_change (W s into from (prefix @ u)) (W s into to (prefix @ u)) else 0)"
        by (rule compares_wsum [OF ch(2)])
      finally show ?thesis by auto
    qed
    have "wsum ?d u = wsum b u - wsum a u" for u
      unfolding w
      by (simp add: ab wsum_distinct_snapshot canonicalD canonical_prefix_rows wsum_prefix_rows
          contents_ok(3) i hi sign_change_eq)
    with can have "is_delta ?d a b" by (simp only: is_delta_def) blast
    with True b ch(1) show ?thesis by (simp add: stored_delta_def Let_def)
  next
    case False
    with b show ?thesis by (cases bf) (simp_all add: stored_delta_def Let_def)
  qed
qed

lemma reduce_by_key_ok:
  assumes i: "inv s" "ts_watermark ops s \<le> from" "from \<le> to"
    and fit: "rows_fit (contents ops s from) input" "rows_fit (contents ops s to) input"
    and v: "query_value fuel input (contents ops s from) None None = Inr mf"
      "query_value fuel input (contents ops s to) None None = Inr mt"
    and red: "reduce_snapshot mf key agg = Inr rf" "reduce_snapshot mt key agg = Inr rt"
  shows "\<exists>o'. reduce_by_key input key agg ops s from to = Inr o' \<and> (\<forall>d. o' = Some d \<longrightarrow> is_delta d rf rt)"
proof -
  note hi = ends_le [OF i(2,3)]
  note D = contents_ok(2) [OF i(1,2)] contents_ok(2) [OF i(1) hi]
  consider "reduce_by_key input key agg ops s from to = Inr None"
    | rows lead rest col where "rows_of (strip_set input) = Some rows" "key = lead # rest"
        "source rows lead = Some col"
    by (cases "rows_of (strip_set input)"; cases key;
        cases "source (the (rows_of (strip_set input))) (hd key)") (auto simp: reduce_by_key_def)
  then show ?thesis
  proof cases
    case 1
    then show ?thesis by simp
  next
    case 2
    let ?rel = "br_rel (rs_base rows)"
    let ?f = "row_fun rows"
    have ok: "images_ok rows (contents ops s from ?rel)" "images_ok rows (contents ops s to ?rel)"
      using fit 2(1) by (simp_all add: rows_fit_def)
    obtain bf where bf: "query_value fuel (strip_set input) (contents ops s from) None None = Inr bf"
      "rows_value rows (contents ops s from ?rel) bf"
      using rows_of_value [where D = "contents ops s from", OF 2(1) D(1) ok(1)] by blast
    obtain bt where bt: "query_value fuel (strip_set input) (contents ops s to) None None = Inr bt"
      "rows_value rows (contents ops s to ?rel) bt"
      using rows_of_value [where D = "contents ops s to", OF 2(1) D(2) ok(2)] by blast
    have redf: "reduce_snapshot bf key agg = Inr rf"
      using strip_set_value [where D = "contents ops s from", OF v(1) D(1)] bf(1) red(1) by auto
    have redt: "reduce_snapshot bt key agg = Inr rt"
      using strip_set_value [where D = "contents ops s to", OF v(2) D(2)] bt(1) red(2) by auto
    obtain ch where ch: "ts_compare ops s ?rel from to = Inr ch" "compares ch (W s ?rel from) (W s ?rel to)"
      using compare [OF i(1,2) hi] by blast
    have Wf: "wsum (contents ops s from ?rel) t = W s ?rel from t"
      and Wt: "wsum (contents ops s to ?rel) t = W s ?rel to t" for t
      by (simp_all add: contents_ok(3) i hi)
    have img: "\<exists>o'. row_image rows t = Inr o'" if "W s ?rel from t \<noteq> 0 \<or> W s ?rel to t \<noteq> 0" for t
      using that ok canonical_key [OF D(1), of t ?rel] canonical_key [OF D(2), of t ?rel]
      unfolding images_ok_def Wf Wt by blast
    have "\<forall>t\<in>fst ` set ch. \<exists>o'. row_image rows t = Inr o'"
      using ch(2) by (intro ballI img) (auto simp: compares_def)
    from changed_groups_spec [OF osorted_Nil this, of key "{}"] show ?thesis
    proof
      assume "changed_groups rows key ch {} [] = Inr None"
      then show ?thesis using 2 ch(1) by (simp add: reduce_by_key_def)
    next
      let ?G = "{pick key u |u t. t \<in> fst ` set ch \<and> ?f t = Some u}"
      let ?chw = "map (\<lambda>(t, a, b). (t, a - b)) ch"
      assume "\<exists>bk. changed_groups rows key ch {} [] = Inr (Some ({} \<union> ?G, bk)) \<and> osorted bk \<and>
        key_rows rows key (fst ` set ch) \<and> (\<forall>u. wsum bk u = wsum [] u + wsum (image_rows ?f ?chw) u)"
      then obtain bk where cg0: "changed_groups rows key ch {} [] = Inr (Some (?G, bk))" and obk: "osorted bk"
        and kr: "key_rows rows key (fst ` set ch)"
        and wbk: "\<And>u. wsum bk u = wsum (image_rows ?f ?chw) u" by auto
      define G where G: "G = ?G"
      note cg = cg0 [folded G]
      have chw: "wsum ?chw t = W s ?rel from t - W s ?rel to t" for t
        using compares_wsum [OF ch(2), of "\<lambda>a b. a - b" "\<lambda>_. True" t] by (auto simp: split_def)
      have bk: "wsum bk u = wsum bf u - wsum bt u" for u
        using bf(2) bt(2) lsum_linear [of ?chw "contents ops s from ?rel" "contents ops s to ?rel"
            "\<lambda>t. ind (?f t = Some u)"] chw Wf Wt
        by (simp add: wbk rows_value_def wsum_image_rows)
      have moved: "fits key u \<and> pick key u \<in> G" if "wsum bk u \<noteq> 0" for u
      proof -
        from that have "wsum (image_rows ?f ?chw) u \<noteq> 0" unfolding wbk .
        from wsum_image_rows_ne [OF this] obtain t where t: "t \<in> fst ` set ?chw" "?f t = Some u"
          by blast
        then have "t \<in> fst ` set ch" by (auto simp: image_image split_def)
        with t(2) kr show ?thesis unfolding key_rows_def G by blast
      qed
      have finG: "finite G"
      proof -
        have "G \<subseteq> (\<lambda>t. pick key (the (?f t))) ` fst ` set ch" unfolding G by force
        then show ?thesis by (rule finite_subset) simp
      qed
      let ?leads = "sorted_list_of_set (hd ` G)"
      consider "?leads = []" | "?leads \<noteq> []" "PROBE_LIMIT < length ?leads"
        | "?leads \<noteq> []" "\<not> PROBE_LIMIT < length ?leads" by blast
      then show ?thesis
      proof cases
        case l: 1
        then have "G = {}" using finG by simp
        then have "wsum bf u = wsum bt u" for u using moved [of u] bk [of u] by auto
        then have "bf = bt"
          using bf(2) bt(2) by (intro canonical_ext) (auto simp: rows_value_def)
        then have "rf = rt" using redf redt by simp
        moreover have "reduce_by_key input key agg ops s from to = Inr (Some [])"
          using 2 ch(1) cg l by (simp add: reduce_by_key_def Let_def)
        ultimately show ?thesis by (simp add: is_delta_same)
      next
        case l: 2
        then show ?thesis using 2 ch(1) cg by (simp add: reduce_by_key_def Let_def)
      next
        case l: 3
        obtain found where found: "ts_lookup ops s ?rel to col ?leads = Inr found"
          "represents found (restrict (has_key col ?leads) (W s ?rel to))"
          using lookup [OF i(1) hi] by blast
        have fimg: "\<forall>t\<in>fst ` set found. \<exists>o'. row_image rows t = Inr o'"
        proof (intro ballI img)
          fix t assume "t \<in> fst ` set found"
          then obtain d where "(t, d) \<in> set found" by auto
          then have "restrict (has_key col ?leads) (W s ?rel to) t \<noteq> 0"
            by (rule represents_ne [OF found(2)])
          then show "W s ?rel from t \<noteq> 0 \<or> W s ?rel to t \<noteq> 0"
            by (rule restrict_ne [THEN disjI2])
        qed
        have run: "reduce_by_key input key agg ops s from to =
            rbind (group_rows rows key G found []) (\<lambda>gr. case gr of None \<Rightarrow> Inr None
                     | Some at_to \<Rightarrow> refold key agg at_to bk)"
          using 2(1,3) ch(1) cg l found(1) unfolding 2(2) by (simp add: reduce_by_key_def Let_def)
        from group_rows_spec [OF osorted_Nil fimg, of key G] show ?thesis
        proof
          assume "group_rows rows key G found [] = Inr None"
          then show ?thesis by (simp add: run)
        next
          assume "\<exists>acc'. group_rows rows key G found [] = Inr (Some acc') \<and> osorted acc' \<and>
            key_rows rows key (fst ` set found) \<and>
            (\<forall>u. wsum acc' u = wsum [] u + (if pick key u \<in> G then wsum (image_rows ?f found) u else 0))"
          then obtain at_to where gr: "group_rows rows key G found [] = Inr (Some at_to)" "osorted at_to"
            and krf: "key_rows rows key (fst ` set found)"
            and wat: "\<And>u. wsum at_to u = (if pick key u \<in> G then wsum (image_rows ?f found) u else 0)"
            by auto
          have w: "wsum at_to u = (if fits key u \<and> pick key u \<in> G then wsum bt u else 0)" for u
          proof (cases "fits key u \<and> pick key u \<in> G")
            case True
            have lead: "lead < length u" "u ! lead = hd (pick key u)"
              using True 2(2) by (auto simp: fits_def pick_def)
            have "u ! lead \<in> set ?leads" using True finG lead(2) by auto
            then have hk: "has_key col ?leads t" if "?f t = Some u" for t
              using source_get [OF that 2(3) lead(1)] lead(1) by (simp add: has_key_def get_def)
            have "wsum found t = restrict (has_key col ?leads) (W s ?rel to) t" for t
              by (rule represents_wsum) (rule found(2))
            then have "lsum found (\<lambda>t. ind (?f t = Some u)) =
                lsum (filter (\<lambda>(t, d). has_key col ?leads t) (contents ops s to ?rel)) (\<lambda>t. ind (?f t = Some u))"
              by (intro lsum_wsum_cong) (simp add: wsum_filter restrict_def Wt)
            also have "\<dots> = lsum (contents ops s to ?rel) (\<lambda>t. ind (?f t = Some u))"
              by (rule lsum_filter) (use hk in \<open>auto simp: ind_def\<close>)
            also have "\<dots> = wsum bt u" using bt(2) by (simp add: rows_value_def wsum_image_rows)
            finally show ?thesis using True by (simp add: wat wsum_image_rows)
          next
            case False
            have "wsum (image_rows ?f found) u = 0" if "pick key u \<in> G"
            proof (rule ccontr)
              assume "wsum (image_rows ?f found) u \<noteq> 0"
              then have "fits key u" using krf wsum_image_rows_ne by (fastforce simp: key_rows_def)
              with that False show False by blast
            qed
            with False show ?thesis by (auto simp: wat)
          qed
          from reduce_parts [OF _ _ redf redt gr(2) obk w bk moved] bf(2) bt(2)
          obtain new old where "reduce_snapshot at_to key agg = Inr new"
            "reduce_snapshot (zmerge at_to bk) key agg = Inr old"
            "is_delta (strip_zeros (zmerge new (znegate old))) rf rt"
            unfolding rows_value_def by blast
          then show ?thesis by (simp add: run gr(1) refold_def)
        qed
      qed
    qed
  qed
qed

lemma eval_delta_correct:
  assumes i: "inv s" "ts_watermark ops s \<le> from" "from \<le> to"
    and ok: "copies_ok fuel (W s) (contents ops s from) from q"
      "copies_ok fuel (W s) (contents ops s to) to q" "arcs_ok env q"
      "delta_ready (contents ops s from) q" "delta_ready (contents ops s to) q"
    and v: "query_value fuel q (contents ops s from) None None = Inr a"
      "query_value fuel q (contents ops s to) None None = Inr b"
  shows "\<exists>d. eval_delta fuel q ops s from to = Inr d \<and> is_delta d a b"
  using ok v
proof (induction q arbitrary: a b)
  case (QRel r)
  obtain ups where "ts_scan_updates ops s r from to = Inr ups"
    "\<And>t. wsum (update_pairs ups) t = W s r to t - W s r from t"
    using scan_updates [OF i] by blast
  then show ?case
    using QRel contents_ok(3) [OF i(1)] i ends_le [OF i(2,3)]
    by (auto simp: is_delta_def overriding_def overridden_def)
next
  case (QRangeRel r lo hi)
  then show ?case using scan_kept_ok [OF i, of r "in_range lo hi"] by (auto simp: overriding_def overridden_def)
next
  case (QRangeRelOn r col lo hi)
  then show ?case using scan_kept_ok [OF i, of r "in_range_on col lo hi"] by (auto simp: overriding_def overridden_def)
next
  case (QMap q f)
  from QMap.prems obtain a' b' where ab: "query_value fuel q (contents ops s from) None None = Inr a'"
    "query_value fuel q (contents ops s to) None None = Inr b'" "a = map_rows f a'" "b = map_rows f b'"
    by (auto simp: result_simps)
  with QMap show ?case by (fastforce intro: delta_intro)
next
  case (QFilter q p)
  from QFilter.prems obtain a' b' where ab: "query_value fuel q (contents ops s from) None None = Inr a'"
    "query_value fuel q (contents ops s to) None None = Inr b'" "a = filter_rows p a'" "b = filter_rows p b'"
    by (auto simp: result_simps)
  with QFilter show ?case by (fastforce intro: delta_intro)
next
  case (QNegate q)
  from QNegate.prems obtain a' b' where ab: "query_value fuel q (contents ops s from) None None = Inr a'"
    "query_value fuel q (contents ops s to) None None = Inr b'" "a = znegate a'" "b = znegate b'"
    by (auto simp: result_simps)
  with QNegate show ?case by (fastforce intro: delta_intro)
next
  case (QProject q cols)
  from QProject.prems obtain a' b' where ab: "query_value fuel q (contents ops s from) None None = Inr a'"
    "query_value fuel q (contents ops s to) None None = Inr b'" "project_rows cols a' = Inr a" "project_rows cols b' = Inr b"
    by (auto simp: result_simps)
  obtain d where d: "eval_delta fuel q ops s from to = Inr d" "is_delta d a' b'"
    using QProject.IH [of a' b'] QProject.prems ab by auto
  from ab(3,4) have p: "all_fit cols a'" "a = map_rows (pick cols) a'" "all_fit cols b'" "b = map_rows (pick cols) b'"
    by (auto simp: project_rows_eq split: if_splits)
  have "all_fit cols d"
    by (rule all_fit_delta [OF d(2) value_canonical value_canonical]) (use i ends_le ab p in auto)
  then show ?case using d p by (auto simp: project_rows_eq intro: delta_intro)
next
  case (QUnion q q')
  from QUnion.prems obtain a1 a2 b1 b2 where ab: "query_value fuel q (contents ops s from) None None = Inr a1"
    "query_value fuel q (contents ops s to) None None = Inr b1"
    "query_value fuel q' (contents ops s from) None None = Inr a2"
    "query_value fuel q' (contents ops s to) None None = Inr b2" "a = zunion a1 a2" "b = zunion b1 b2"
    by (auto simp: result_simps)
  obtain d where d: "eval_delta fuel q ops s from to = Inr d" "is_delta d a1 b1"
    using QUnion.IH(1) [of a1 b1] QUnion.prems ab by auto
  obtain d' where d': "eval_delta fuel q' ops s from to = Inr d'" "is_delta d' a2 b2"
    using QUnion.IH(2) [of a2 b2] QUnion.prems ab by auto
  have "is_delta (zunion d d') a b"
    unfolding ab(5,6) by (rule is_delta_union [OF d(2) d'(2) value_canonical value_canonical])
      (use i ends_le ab in auto)
  then show ?case using d d' by simp
next
  case (QJoin l r lk rk)
  note hi = ends_le [OF i(2,3)]
  from QJoin.prems obtain a1 a2 b1 b2 where ab: "query_value fuel l (contents ops s from) None None = Inr a1"
    "query_value fuel l (contents ops s to) None None = Inr b1"
    "query_value fuel r (contents ops s from) None None = Inr a2"
    "query_value fuel r (contents ops s to) None None = Inr b2"
    "join_multisets a1 lk a2 rk = Inr a" "join_multisets b1 lk b2 rk = Inr b"
    by (auto simp: result_simps)
  obtain da where da: "eval_delta fuel l ops s from to = Inr da" "is_delta da a1 b1"
    using QJoin.IH(1) [of a1 b1] QJoin.prems ab by auto
  obtain db where db: "eval_delta fuel r ops s from to = Inr db" "is_delta db a2 b2"
    using QJoin.IH(2) [of a2 b2] QJoin.prems ab by auto
  have fit: "all_fit lk a1" "all_fit rk a2" "all_fit lk b1" "all_fit rk b2"
    using join_multisets_eq [of a1 lk a2 rk] join_multisets_eq [of b1 lk b2 rk] ab(5,6) by auto
  have can: "canonical a1" "canonical a2" "canonical b1" "canonical b2"
    using value_canonical i(1,2) hi ab by blast+
  have fd: "all_fit lk da" "all_fit rk db"
    using all_fit_delta [OF da(2) can(1,3) fit(1,3)] all_fit_delta [OF db(2) can(2,4) fit(2,4)] .
  have mr: "\<exists>p. matching fuel r rk da lk ops s to = Inr p \<and> serves p rk da lk b2"
    by (rule matching_ok [OF i(1) hi _ _ ab(4) fit(4) fd(1)]) (use QJoin.prems in auto)
  have ml: "\<exists>p. matching fuel l lk db rk ops s to = Inr p \<and> serves p lk db rk b1"
    by (rule matching_ok [OF i(1) hi _ _ ab(2) fit(3) fd(2)]) (use QJoin.prems in auto)
  obtain out where out: "join_delta fuel l r lk rk ops s to da db = Inr out" "canonical out"
    "\<And>u. wsum out u = join_weight b1 lk b2 rk u - join_weight a1 lk a2 rk u"
    using join_delta_steps [OF da(2) db(2) can fit(1,3,2,4) mr ml] by blast
  have "is_delta out a b"
    using out(2,3) join_multisets_Inr [OF fit(2,1)] join_multisets_Inr [OF fit(4,3)] ab(5,6)
    by (auto simp: is_delta_def)
  then show ?case using da db out(1) by simp
next
  case (QDistinct q)
  note hi = ends_le [OF i(2,3)]
  note D = contents_ok(2) [OF i(1,2)] contents_ok(2) [OF i(1) hi]
  from QDistinct.prems obtain a' b' where ab: "query_value fuel q (contents ops s from) None None = Inr a'"
    "query_value fuel q (contents ops s to) None None = Inr b'" "a = distinct_snapshot a'" "b = distinct_snapshot b'"
    by (auto simp: result_simps)
  show ?case
  proof (cases "base_of q")
    case None
    have can: "canonical b'" using value_canonical [OF i(1) hi ab(2)] .
    have "eval_snapshot fuel q ops s from = Inr a'" "eval_snapshot fuel q ops s to = Inr b'"
      using snapshot_meaning [OF i(1,2)] snapshot_meaning [OF i(1) hi] QDistinct.prems ab by auto
    moreover obtain c where "quiet (QDistinct q) ops s from to = Inr c" "c \<longrightarrow> a = b"
      using quiet_ok [OF i, of "QDistinct q" fuel] QDistinct.prems(6,7) by auto
    moreover have "canonical b" using can by (simp add: ab canonicalD)
    ultimately show ?thesis using None ab by (auto simp: is_delta_same intro: is_delta_difference)
  next
    case (Some base)
    then show ?thesis
      using distinct_delta_ok [OF i, of base] ab base_of_value [OF Some D(1)] base_of_value [OF Some D(2)] by simp
  qed
next
  case (QReduce q key agg)
  note hi = ends_le [OF i(2,3)]
  from QReduce.prems obtain a' b' where ab: "query_value fuel q (contents ops s from) None None = Inr a'"
    "query_value fuel q (contents ops s to) None None = Inr b'"
    "reduce_snapshot a' key agg = Inr a" "reduce_snapshot b' key agg = Inr b"
    by (auto simp: result_simps)
  have "eval_snapshot fuel q ops s from = Inr a'" "eval_snapshot fuel q ops s to = Inr b'"
    using snapshot_meaning [OF i(1,2)] snapshot_meaning [OF i(1) hi] QReduce.prems ab by auto
  moreover obtain c where "quiet (QReduce q key agg) ops s from to = Inr c" "c \<longrightarrow> a = b"
    using quiet_ok [OF i, of "QReduce q key agg" fuel] QReduce.prems(6,7) by auto
  moreover obtain o' where "reduce_by_key q key agg ops s from to = Inr o'" "\<forall>d. o' = Some d \<longrightarrow> is_delta d a b"
    using reduce_by_key_ok [OF i _ _ ab] QReduce.prems by auto
  moreover have "is_delta (difference b a) a b"
    by (rule is_delta_difference) (rule canonical_reduce [OF ab(4)])
  ultimately show ?case using ab by (cases o') (auto simp: is_delta_same)
next
  case QRecur
  then show ?case by (simp add: is_delta_same)
next
  case (QIterate init step)
  note hi = ends_le [OF i(2,3)]
  have "eval_snapshot fuel (QIterate init step) ops s from = Inr a"
    "eval_snapshot fuel (QIterate init step) ops s to = Inr b"
    using snapshot_meaning [OF i(1,2) QIterate.prems(1,3)] snapshot_meaning [OF i(1) hi QIterate.prems(2,3)]
      QIterate.prems(6,7) by simp_all
  moreover obtain c where "quiet (QIterate init step) ops s from to = Inr c" "c \<longrightarrow> a = b"
    using quiet_ok [OF i, of "QIterate init step" fuel] QIterate.prems(6,7) by auto
  moreover have "is_delta (difference b a) a b"
    by (rule is_delta_difference) (rule value_canonical [OF i(1) hi QIterate.prems(7)])
  ultimately show ?case by (auto simp: is_delta_same simp del: eval_snapshot_def)
next
  case (QInherit q col key ctx)
  note hi = ends_le [OF i(2,3)]
  from QInherit.prems obtain a' b' where ab: "query_value fuel q (contents ops s from) None None = Inr a'"
    "query_value fuel q (contents ops s to) None None = Inr b'"
    "a = inherit a' col key (contents ops s from ctx)" "b = inherit b' col key (contents ops s to ctx)"
    by (auto simp: result_simps overriding_def overridden_def)
  have ends: "eval_snapshot fuel (QInherit q col key ctx) ops s from = Inr a"
    "eval_snapshot fuel (QInherit q col key ctx) ops s to = Inr b"
    using snapshot_meaning [OF i(1,2) QInherit.prems(1,3)] snapshot_meaning [OF i(1) hi QInherit.prems(2,3)]
      QInherit.prems(6,7) by simp_all
  obtain c where c: "ts_touched_since ops s from to [ctx] = Inr c"
    "\<not> c \<and> from \<le> to \<longrightarrow> (\<forall>r\<in>set [ctx]. \<forall>t. W s r to t = W s r from t)"
    using touched_since [OF i(1)] by blast
  show ?case
  proof (cases c)
    case True
    have "is_delta (difference b a) a b" by (rule is_delta_difference) (simp add: ab)
    then show ?thesis using True c(1) ends by simp
  next
    case False
    have same: "contents ops s from ctx = contents ops s to ctx"
      by (rule contents_eqI) (use False c(2) i hi in auto)
    obtain d where d: "eval_delta fuel q ops s from to = Inr d" "is_delta d a' b'"
      using QInherit.IH [of a' b'] QInherit.prems ab by auto
    obtain cr where cr: "ts_read_containing ops s ctx to 0 1 (distinct_cells d col) = Inr cr"
      "represents cr (restrict (contains_any 0 1 (distinct_cells d col)) (W s ctx to))"
      using read_containing [OF i(1) hi] by blast
    have "inherit d col key cr = inherit d col key (contents ops s to ctx)"
      by (rule inherit_points) (simp add: represents_restrict_mem [OF cr(2) contents_ok(2,3) [OF i(1) hi]])
    then show ?thesis using False c(1) d cr(1) is_delta_inherit [OF d(2)] by (simp add: ab same)
  qed
next
  case (QMaterialized plan into prefix cursor_rel key reduce)
  obtain d where d: "eval_delta fuel plan ops s from to = Inr d" "is_delta d a b"
    using QMaterialized.IH [of a b] QMaterialized.prems by auto
  show ?case
  proof (cases reduce)
    case None
    obtain o' where "stored_delta ops s plan into prefix cursor_rel key from to = Inr o'"
      "\<forall>d. o' = Some d \<longrightarrow> is_delta d a b"
      using stored_delta_ok [OF i, of fuel plan into prefix cursor_rel key a b] QMaterialized.prems None by auto
    with None d show ?thesis by (cases o') auto
  qed (use d in simp)
next
  case (QShared x q)
  then show ?case by simp
qed

end

end
