(* ===== verification/Fixpoint.thy ===== *)
theory Fixpoint
  imports Delta_Correct
begin

text \<open>
  Incremental maintenance of a recursive view (\<^verbatim>\<open>grmpl-diff/src/recursive.rs\<close>):
  semi-naive regrowth from the previous fixpoint when the base only grew, and delete and
  re-derive when a base tuple went away. \<^verbatim>\<open>Fixpoint_Laws\<close> shows that both arrive at the
  fixpoint the evaluator computes from nothing. A \<open>while\<close> loop of the source has a
  \<open>fuel\<close> argument for its rounds.
\<close>

definition as_set :: "zset \<Rightarrow> zset" where
  "as_set m = map (\<lambda>(t, d). (t, 1)) (filter (\<lambda>(t, d). 0 < d) m)"

definition contains_key :: "zset \<Rightarrow> tuple \<Rightarrow> bool" where
  "contains_key m t \<longleftrightarrow> om_get m t \<noteq> None"

definition subtract_in_place :: "zset \<Rightarrow> zset \<Rightarrow> zset" where
  "subtract_in_place a remove = filter (\<lambda>(t, d). \<not> contains_key remove t) a"

definition set_difference :: "zset \<Rightarrow> zset \<Rightarrow> zset" where
  "set_difference new old =
     foldl (\<lambda>d (t, w). if \<not> contains_key new t then om_put t (-1) d else d)
       (foldl (\<lambda>d (t, w). if \<not> contains_key old t then om_put t 1 d else d) [] new) old"

datatype maintenance = Grow | DeleteRederive

record fixpoint =
  fx_init :: query
  fx_step :: query
  fx_base_rels :: "rel_id list"
  fx_r :: zset
  fx_at :: edition
  fx_last_iterations :: nat
  fx_last_overdeletion_rounds :: nat
  fx_last_path :: maintenance

definition fixpoint_new ::
  "nat \<Rightarrow> query \<Rightarrow> query \<Rightarrow> 's trace_ops \<Rightarrow> 's \<Rightarrow> edition \<Rightarrow> fixpoint result" where
  "fixpoint_new fuel init step ops s from =
     rbind (eval_snapshot fuel (QIterate init step) ops s from) (\<lambda>r.
       Inr \<lparr>fx_init = init, fx_step = step, fx_base_rels = collect_rels init @ collect_rels step,
            fx_r = r, fx_at = from, fx_last_iterations = 0, fx_last_overdeletion_rounds = 0,
            fx_last_path = Grow\<rparr>)"

text \<open>Did a base tuple go away between the two readings of a relation?\<close>

definition vanished :: "zset \<Rightarrow> tuple \<times> diff \<Rightarrow> bool" where
  "vanished after = (\<lambda>(t, w). 0 < w \<and> zweight after t \<le> 0)"

fun is_monotone :: "'s trace_ops \<Rightarrow> 's \<Rightarrow> rel_id list \<Rightarrow> edition \<Rightarrow> edition \<Rightarrow> bool result" where
  "is_monotone ops s [] from to = Inr True"
| "is_monotone ops s (rel # rels) from to =
     rbind (ts_read_at ops s rel from) (\<lambda>before.
     rbind (ts_read_at ops s rel to) (\<lambda>after.
       if \<exists>p\<in>set before. vanished after p then Inr False else is_monotone ops s rels from to))"

definition deleted_rows :: "zset \<Rightarrow> zset \<Rightarrow> zset" where
  "deleted_rows before after = map (\<lambda>(t, w). (t, 1)) (filter (vanished after) before)"

text \<open>\<open>od.insert(t, 1)\<close> answers whether the tuple was there; the frontier takes only new ones.\<close>

definition seed :: "zset \<Rightarrow> zset \<times> zset \<Rightarrow> tuple \<Rightarrow> zset \<times> zset" where
  "seed r_old st t =
     (case st of (od, frontier) \<Rightarrow>
        if contains_key r_old t
        then (om_put t 1 od, if contains_key od t then frontier else om_put t 1 frontier)
        else (od, frontier))"

fun seed_all ::
  "nat \<Rightarrow> fixpoint \<Rightarrow> 's trace_ops \<Rightarrow> 's \<Rightarrow> edition \<Rightarrow> rel_id list \<Rightarrow> zset \<times> zset \<Rightarrow> (zset \<times> zset) result" where
  "seed_all fuel fx ops s to [] st = Inr st"
| "seed_all fuel fx ops s to (rel # rels) st =
     rbind (ts_read_at ops s rel (fx_at fx)) (\<lambda>before.
     rbind (ts_read_at ops s rel to) (\<lambda>after.
       let deleted = deleted_rows before after in
       if deleted = [] then seed_all fuel fx ops s to rels st
       else let ov = [rel \<mapsto> deleted] in
         rbind (eval_with fuel (fx_init fx) ops s (fx_at fx) None ov) (\<lambda>vi. let via_init = as_set vi in
         rbind (eval_with fuel (fx_step fx) ops s (fx_at fx) (Some (fx_r fx)) ov) (\<lambda>vs. let via_step = as_set vs in
           seed_all fuel fx ops s to rels
             (foldl (seed (fx_r fx)) st (map fst via_init @ map fst via_step))))))"

fun propagate ::
  "nat \<Rightarrow> nat \<Rightarrow> fixpoint \<Rightarrow> 's trace_ops \<Rightarrow> 's \<Rightarrow> zset \<Rightarrow> zset \<Rightarrow> nat \<Rightarrow> (zset \<times> nat) result" where
  "propagate 0 fuel fx ops s od frontier rounds = Inl OutOfFuel"
| "propagate (Suc n) fuel fx ops s od frontier rounds =
     (if frontier = [] then Inr (od, rounds)
      else rbind (eval_with_recur fuel (fx_step fx) ops s (fx_at fx) frontier) (\<lambda>d.
        let derived = as_set d;
            next = foldl (\<lambda>m t. if contains_key (fx_r fx) t \<and> \<not> contains_key od t then om_put t 1 m else m)
                     [] (map fst derived);
            od = foldl (\<lambda>m t. om_put t 1 m) od (map fst next)
        in propagate n fuel fx ops s od next (Suc rounds)))"

definition overdelete ::
  "nat \<Rightarrow> fixpoint \<Rightarrow> 's trace_ops \<Rightarrow> 's \<Rightarrow> edition \<Rightarrow> (zset \<times> nat) result" where
  "overdelete fuel fx ops s to =
     rbind (seed_all fuel fx ops s to (fx_base_rels fx) ([], [])) (\<lambda>(od, frontier).
     rbind (propagate fuel fuel fx ops s od frontier 0) (\<lambda>(od, rounds).
       Inr (subtract_in_place (fx_r fx) od, rounds)))"

definition put_missing :: "zset \<Rightarrow> tuple \<Rightarrow> zset" where
  "put_missing m t = (if contains_key m t then m else om_put t 1 m)"

fun grow_loop ::
  "nat \<Rightarrow> nat \<Rightarrow> query \<Rightarrow> 's trace_ops \<Rightarrow> 's \<Rightarrow> edition \<Rightarrow> zset \<Rightarrow> zset \<Rightarrow> nat \<Rightarrow> (zset \<times> nat) result" where
  "grow_loop 0 fuel step ops s to r frontier iters = Inl OutOfFuel"
| "grow_loop (Suc n) fuel step ops s to r frontier iters =
     (if frontier = [] then Inr (r, iters)
      else let r = foldl (\<lambda>m t. om_put t 1 m) r (map fst frontier) in
        rbind (eval_with_recur fuel step ops s to frontier) (\<lambda>d.
          let next = subtract_in_place (as_set d) r
          in grow_loop n fuel step ops s to r next (Suc iters)))"

definition grow ::
  "nat \<Rightarrow> fixpoint \<Rightarrow> 's trace_ops \<Rightarrow> 's \<Rightarrow> edition \<Rightarrow> zset \<Rightarrow> (zset \<times> nat) result" where
  "grow fuel fx ops s to r =
     rbind (eval_snapshot fuel (fx_init fx) ops s to) (\<lambda>iv. let init_set = as_set iv in
     rbind (eval_with_recur fuel (fx_step fx) ops s to r) (\<lambda>sv. let step_set = as_set sv in
       let frontier = subtract_in_place (foldl put_missing init_set (map fst step_set)) r
       in grow_loop fuel fuel (fx_step fx) ops s to r frontier 0))"

definition advance ::
  "nat \<Rightarrow> fixpoint \<Rightarrow> 's trace_ops \<Rightarrow> 's \<Rightarrow> edition \<Rightarrow> (zset \<times> fixpoint) result" where
  "advance fuel fx ops s to =
     rbind (is_monotone ops s (fx_base_rels fx) (fx_at fx) to) (\<lambda>monotone.
     rbind (if monotone then Inr (fx_r fx, 0, Grow)
            else rbind (overdelete fuel fx ops s to) (\<lambda>(survivors, rounds).
                   Inr (survivors, rounds, DeleteRederive))) (\<lambda>(start, od_rounds, path).
     rbind (grow fuel fx ops s to start) (\<lambda>(r_new, iters).
       Inr (set_difference r_new (fx_r fx),
            fx\<lparr>fx_last_path := path, fx_last_overdeletion_rounds := od_rounds,
               fx_last_iterations := iters, fx_r := r_new, fx_at := to\<rparr>))))"

end
