(* ===== verification/Set_Semantics.thy ===== *)
theory Set_Semantics
  imports Meaning
begin

text \<open>
  Positive plans as relational algebra. A positive plan has no negation, no aggregate and
  no inheritance; over relations with no negative weight the tuples of its value are given
  by set operations, whatever the weights. That gives recursion its meaning: over plans
  whose arities check, the loop of \<open>Iterate\<close> ends, and in the least fixpoint.
\<close>

section \<open>Supports\<close>

definition support :: "zset \<Rightarrow> tuple set" where
  "support m = {t. 0 < wsum m t}"

definition nonneg :: "zset \<Rightarrow> bool" where
  "nonneg m \<longleftrightarrow> (\<forall>t. 0 \<le> wsum m t)"

lemma support_Nil [simp]: "support [] = {}"
  by (simp add: support_def)

lemma nonneg_Nil [simp]: "nonneg []"
  by (simp add: nonneg_def)

lemma support_keys: "canonical m \<Longrightarrow> nonneg m \<Longrightarrow> fst ` set m = support m"
  using canonical_key by (auto simp: support_def nonneg_def order.strict_iff_order)

lemma finite_support [simp]: "finite (support m)"
proof (rule finite_subset)
  show "support m \<subseteq> fst ` set m" unfolding support_def using wsum_notin by fastforce
qed simp

text \<open>A weighted sum of non-negative terms is positive exactly when some term is.\<close>

lemma lsum_nonneg: "nonneg m \<Longrightarrow> (\<And>t. 0 \<le> f t) \<Longrightarrow> 0 \<le> lsum m f"
  by (subst lsum_eq_sum [of "fst ` set m"]) (auto simp: nonneg_def intro!: sum_nonneg)

lemma lsum_pos_iff:
  assumes "nonneg m" "\<And>t. 0 \<le> f t"
  shows "0 < lsum m f \<longleftrightarrow> (\<exists>t\<in>support m. 0 < f t)"
proof -
  have l: "lsum m f = (\<Sum>k\<in>fst ` set m. wsum m k * f k)" by (rule lsum_eq_sum) auto
  have nn: "\<And>k. k \<in> fst ` set m \<Longrightarrow> 0 \<le> wsum m k * f k" using assms by (simp add: nonneg_def)
  have fin: "finite (fst ` set m)" by simp
  have "0 < lsum m f \<longleftrightarrow> lsum m f \<noteq> 0"
    using lsum_nonneg [OF assms(1), of f] assms(2) by (simp add: less_le)
  also have "\<dots> \<longleftrightarrow> (\<exists>k\<in>fst ` set m. wsum m k * f k \<noteq> 0)"
    unfolding l using sum_nonneg_eq_0_iff [OF fin nn] by simp
  also have "\<dots> \<longleftrightarrow> (\<exists>t\<in>support m. 0 < f t)"
  proof
    assume "\<exists>k\<in>fst ` set m. wsum m k * f k \<noteq> 0"
    then obtain k where "wsum m k \<noteq> 0" "f k \<noteq> 0" by auto
    then show "\<exists>t\<in>support m. 0 < f t"
      using assms by (intro bexI [of _ k]) (auto simp: support_def nonneg_def order.strict_iff_order)
  next
    assume "\<exists>t\<in>support m. 0 < f t"
    then obtain t where t: "0 < wsum m t" "0 < f t" by (auto simp: support_def)
    then have "t \<in> fst ` set m" using wsum_notin by fastforce
    then show "\<exists>k\<in>fst ` set m. wsum m k * f k \<noteq> 0" using t by (intro bexI [of _ t]) auto
  qed
  finally show ?thesis .
qed

lemma ind_nonneg [simp]: "0 \<le> ind b"
  by (simp add: ind_def)

lemma ind_pos [simp]: "0 < ind b \<longleftrightarrow> b"
  by (simp add: ind_def)

section \<open>Positive plans\<close>

primrec positive :: "query \<Rightarrow> bool" where
  "positive (QRel r) = True"
| "positive (QRangeRel r lo hi) = True"
| "positive (QRangeRelOn r col lo hi) = True"
| "positive (QMap input f) = positive input"
| "positive (QFilter input p) = positive input"
| "positive (QProject input cols) = positive input"
| "positive (QJoin left right lk rk) = (positive left \<and> positive right)"
| "positive (QUnion left right) = (positive left \<and> positive right)"
| "positive (QNegate input) = False"
| "positive (QDistinct input) = positive input"
| "positive (QReduce input key agg) = False"
| "positive QRecur = True"
| "positive (QIterate init step) = False"
| "positive (QInherit input col key ctx) = False"
| "positive (QMaterialized plan into prefix cursor_rel key reduce) = positive plan"
| "positive (QShared a inner) = positive inner"

primrec set_value :: "query \<Rightarrow> (rel_id \<Rightarrow> tuple set) \<Rightarrow> tuple set \<Rightarrow> tuple set" where
  "set_value (QRel r) D R = D r"
| "set_value (QRangeRel r lo hi) D R = {t \<in> D r. in_range lo hi t}"
| "set_value (QRangeRelOn r col lo hi) D R = {t \<in> D r. in_range_on col lo hi t}"
| "set_value (QMap input f) D R = f ` set_value input D R"
| "set_value (QFilter input p) D R = {t \<in> set_value input D R. p t}"
| "set_value (QProject input cols) D R = pick cols ` set_value input D R"
| "set_value (QJoin left right lk rk) D R =
     {a @ b |a b. a \<in> set_value left D R \<and> b \<in> set_value right D R \<and> pick rk b = pick lk a}"
| "set_value (QUnion left right) D R = set_value left D R \<union> set_value right D R"
| "set_value (QNegate input) D R = {}"
| "set_value (QDistinct input) D R = set_value input D R"
| "set_value (QReduce input key agg) D R = {}"
| "set_value QRecur D R = R"
| "set_value (QIterate init step) D R = {}"
| "set_value (QInherit input col key ctx) D R = {}"
| "set_value (QMaterialized plan into prefix cursor_rel key reduce) D R = set_value plan D R"
| "set_value (QShared a inner) D R = set_value inner D R"

definition recur_set :: "zset option \<Rightarrow> tuple set" where
  "recur_set recur = (case recur of None \<Rightarrow> {} | Some m \<Rightarrow> support m)"

definition good :: "zset \<Rightarrow> bool" where
  "good m \<longleftrightarrow> canonical m \<and> nonneg m"

definition good_overrides :: "overrides option \<Rightarrow> bool" where
  "good_overrides ov \<longleftrightarrow> (\<forall>r m. overridden ov r = Some m \<longrightarrow> good m)"

lemma good_overriding: "(\<And>r. good (D r)) \<Longrightarrow> good_overrides ov \<Longrightarrow> good (overriding D ov r)"
  by (auto simp: overriding_def good_overrides_def split: option.splits)

lemma good_Nil [simp]: "good []"
  by (simp add: good_def)

lemma good_map_rows: "good m \<Longrightarrow> good (map_rows f m) \<and> support (map_rows f m) = f ` support m"
  by (auto simp: good_def nonneg_def [of "map_rows f m"] wsum_map_rows lsum_nonneg support_def [of "map_rows f m"]
      lsum_pos_iff)

lemma good_filter_rows:
  "good m \<Longrightarrow> good (filter_rows p m) \<and> support (filter_rows p m) = {t \<in> support m. p t}"
  by (auto simp: good_def nonneg_def wsum_filter_rows support_def)

lemma good_zunion: "good m \<Longrightarrow> good n \<Longrightarrow> good (zunion m n) \<and> support (zunion m n) = support m \<union> support n"
  unfolding good_def nonneg_def support_def
  by (auto simp: wsum_zunion) (metis add_pos_nonneg add_nonneg_pos less_add_same_cancel1 linorder_not_less
    order.strict_trans2 order_less_le add_0)+

lemma good_distinct: "good m \<Longrightarrow> good (distinct_snapshot m) \<and> support (distinct_snapshot m) = support m"
  by (auto simp: good_def canonicalD nonneg_def wsum_distinct_snapshot support_def)

lemma good_join:
  assumes "good l" "good r" "join_multisets l lk r rk = Inr out"
  shows "good out \<and> support out =
    {a @ b |a b. a \<in> support l \<and> b \<in> support r \<and> pick rk b = pick lk a}"
proof -
  have fit: "all_fit rk r" "all_fit lk l" using assms(3) join_multisets_eq [of l lk r rk] by auto
  have out: "canonical out" "\<And>u. wsum out u = join_weight l lk r rk u"
    using join_multisets_Inr [OF fit] assms(3) by auto
  have n: "nonneg l" "nonneg r" using assms by (simp_all add: good_def)
  have inner: "0 \<le> lsum r (\<lambda>rt. ind (pick rk rt = pick lk lt \<and> lt @ rt = u))" for lt u
    by (rule lsum_nonneg [OF n(2)]) simp
  have "0 \<le> join_weight l lk r rk u" for u
    unfolding join_weight_def by (rule lsum_nonneg [OF n(1) inner])
  moreover have "0 < join_weight l lk r rk u \<longleftrightarrow>
      (\<exists>a\<in>support l. \<exists>b\<in>support r. pick rk b = pick lk a \<and> a @ b = u)" for u
    unfolding join_weight_def lsum_pos_iff [OF n(1) inner] by (subst lsum_pos_iff [OF n(2)]) simp_all
  ultimately show ?thesis using out by (auto simp: good_def nonneg_def support_def)
qed

text \<open>
  The multiset evaluator, read through the support, is relational algebra.
\<close>

lemma positive_value:
  assumes D: "\<And>r. good (D r)" and ov: "good_overrides ov" and R: "\<And>m. recur = Some m \<Longrightarrow> good m"
    and "positive q" "query_value fuel q D recur ov = Inr out"
  shows "good out \<and> support out = set_value q (\<lambda>r. support (overriding D ov r)) (recur_set recur)"
  using assms(4,5)
proof (induction q arbitrary: out)
  case QRecur
  then show ?case using R by (cases recur) (auto simp: recur_set_def)
next
  case (QRel r)
  then show ?case using good_overriding [of D, OF D ov] by auto
next
  case (QRangeRel r lo hi)
  then show ?case using good_filter_rows [OF good_overriding [of D, OF D ov]] by auto
next
  case (QRangeRelOn r col lo hi)
  then show ?case using good_filter_rows [OF good_overriding [of D, OF D ov]] by auto
next
  case (QMap q f)
  from QMap.prems obtain m where "query_value fuel q D recur ov = Inr m" "out = map_rows f m"
    by (auto simp: result_simps)
  with QMap show ?case using good_map_rows [of m f] by simp
next
  case (QFilter q p)
  from QFilter.prems obtain m where "query_value fuel q D recur ov = Inr m" "out = filter_rows p m"
    by (auto simp: result_simps)
  with QFilter show ?case using good_filter_rows [of m p] by simp
next
  case (QProject q cols)
  from QProject.prems obtain m where "query_value fuel q D recur ov = Inr m" "out = map_rows (pick cols) m"
    by (auto simp: result_simps project_rows_eq split: if_splits)
  with QProject show ?case using good_map_rows [of m "pick cols"] by simp
next
  case (QDistinct q)
  from QDistinct.prems obtain m where "query_value fuel q D recur ov = Inr m" "out = distinct_snapshot m"
    by (auto simp: result_simps)
  with QDistinct show ?case using good_distinct [of m] by simp
next
  case (QUnion q q')
  from QUnion.prems obtain m n where "query_value fuel q D recur ov = Inr m"
    "query_value fuel q' D recur ov = Inr n" "out = zunion m n"
    by (auto simp: result_simps)
  with QUnion show ?case using good_zunion [of m n] by simp
next
  case (QJoin q q' lk rk)
  from QJoin.prems obtain m n where mn: "query_value fuel q D recur ov = Inr m"
    "query_value fuel q' D recur ov = Inr n" "join_multisets m lk n rk = Inr out"
    by (auto simp: result_simps)
  with QJoin have "good m" "good n" "support m = set_value q (\<lambda>r. support (overriding D ov r)) (recur_set recur)"
    "support n = set_value q' (\<lambda>r. support (overriding D ov r)) (recur_set recur)" by auto
  with good_join [OF _ _ mn(3)] show ?case by simp
qed auto

lemma set_value_mono:
  assumes "\<And>r. D r \<subseteq> D' r" "R \<subseteq> R'"
  shows "set_value q D R \<subseteq> set_value q D' R'"
  using assms
proof (induction q)
  case (QJoin l r lk rk)
  then show ?case by simp blast
next
  case (QProject q cols)
  then show ?case by (simp add: image_mono)
next
  case (QMap q f)
  then show ?case by (simp add: image_mono)
next
  case (QUnion l r)
  then show ?case by simp blast
qed auto

section \<open>Arities\<close>

text \<open>
  The width of a plan's rows, given the widths of the relations and of the recursion
  variable: \<open>None\<close> where a column is out of range, or a closure hides the width.
\<close>

primrec arity_of :: "(rel_id \<Rightarrow> nat) \<Rightarrow> nat \<Rightarrow> query \<Rightarrow> nat option" where
  "arity_of ar n (QRel r) = Some (ar r)"
| "arity_of ar n (QRangeRel r lo hi) = Some (ar r)"
| "arity_of ar n (QRangeRelOn r col lo hi) = Some (ar r)"
| "arity_of ar n (QMap input f) = None"
| "arity_of ar n (QFilter input p) = arity_of ar n input"
| "arity_of ar n (QProject input cols) =
     (case arity_of ar n input of None \<Rightarrow> None
      | Some k \<Rightarrow> if \<forall>c\<in>set cols. c < k then Some (length cols) else None)"
| "arity_of ar n (QJoin left right lk rk) =
     (case (arity_of ar n left, arity_of ar n right) of
        (Some i, Some j) \<Rightarrow> if (\<forall>c\<in>set lk. c < i) \<and> (\<forall>c\<in>set rk. c < j) then Some (i + j) else None
      | _ \<Rightarrow> None)"
| "arity_of ar n (QUnion left right) =
     (if arity_of ar n left = arity_of ar n right then arity_of ar n left else None)"
| "arity_of ar n (QNegate input) = None"
| "arity_of ar n (QDistinct input) = arity_of ar n input"
| "arity_of ar n (QReduce input key agg) = None"
| "arity_of ar n QRecur = Some n"
| "arity_of ar n (QIterate init step) = None"
| "arity_of ar n (QInherit input col key ctx) = None"
| "arity_of ar n (QMaterialized plan into prefix cursor_rel key reduce) = arity_of ar n plan"
| "arity_of ar n (QShared a inner) = arity_of ar n inner"

definition universe :: "nat \<Rightarrow> val set \<Rightarrow> tuple set" where
  "universe n V = {t. length t = n \<and> set t \<subseteq> V}"

lemma finite_universe: "finite V \<Longrightarrow> finite (universe n V)"
  using finite_lists_length_eq [of V n] by (simp add: universe_def conj_commute)

lemma card_universe: "finite V \<Longrightarrow> card (universe n V) = card V ^ n"
  using card_lists_length_eq [of V n] by (simp add: universe_def conj_commute)

lemma set_value_universe:
  assumes "arity_of ar n q = Some k" "\<And>r. D r \<subseteq> universe (ar r) V" "R \<subseteq> universe n V"
  shows "set_value q D R \<subseteq> universe k V"
  using assms
proof (induction q arbitrary: k)
  case (QProject q cols)
  from QProject.prems(1) obtain j where j: "arity_of ar n q = Some j" "\<forall>c\<in>set cols. c < j" "k = length cols"
    by (auto split: option.splits if_splits)
  have "pick cols t \<in> universe k V" if "t \<in> set_value q D R" for t
    using QProject.IH [OF j(1) QProject.prems(2,3)] that j(2,3)
    by (fastforce simp: universe_def pick_def)
  then show ?case by auto
next
  case (QJoin l r lk rk)
  from QJoin.prems(1) obtain i j where ij: "arity_of ar n l = Some i" "arity_of ar n r = Some j" "k = i + j"
    by (auto split: option.splits if_splits)
  show ?case
    using QJoin.IH(1) [OF ij(1) QJoin.prems(2,3)] QJoin.IH(2) [OF ij(2) QJoin.prems(2,3)] ij(3)
    by (fastforce simp: universe_def)
next
  case (QUnion l r)
  then show ?case by (auto split: if_splits)
qed (auto split: option.splits if_splits)

lemma universe_fits: "support m \<subseteq> universe k V \<Longrightarrow> good m \<Longrightarrow> \<forall>c\<in>set cols. c < k \<Longrightarrow> all_fit cols m"
  using support_keys [of m] by (auto simp: all_fit_def good_def universe_def fits_def)

lemma typed_returns:
  assumes "arity_of ar n q = Some k" "positive q"
    and D: "\<And>r. good (D r)" and ov: "good_overrides ov" and R: "\<And>m. recur = Some m \<Longrightarrow> good m"
    and U: "\<And>r. support (overriding D ov r) \<subseteq> universe (ar r) V" "recur_set recur \<subseteq> universe n V"
  shows "\<exists>out. query_value fuel q D recur ov = Inr out"
  using assms(1,2)
proof (induction q arbitrary: k)
  case (QProject q cols)
  from QProject.prems(1) obtain j where j: "arity_of ar n q = Some j" "\<forall>c\<in>set cols. c < j"
    by (auto split: option.splits if_splits)
  obtain m where m: "query_value fuel q D recur ov = Inr m" using QProject.IH [OF j(1)] QProject.prems(2) by auto
  have "all_fit cols m"
    using positive_value [of D, OF D ov R _ m] set_value_universe [OF j(1) U] QProject.prems(2) j(2)
    by (intro universe_fits [of m j V]) auto
  then show ?case by (simp add: m project_rows_eq)
next
  case (QJoin l r lk rk)
  from QJoin.prems(1) obtain i j where ij: "arity_of ar n l = Some i" "arity_of ar n r = Some j"
    "\<forall>c\<in>set lk. c < i" "\<forall>c\<in>set rk. c < j"
    by (auto split: option.splits if_splits)
  obtain a b where ab: "query_value fuel l D recur ov = Inr a" "query_value fuel r D recur ov = Inr b"
    using QJoin.IH(1) [OF ij(1)] QJoin.IH(2) [OF ij(2)] QJoin.prems(2) by auto
  have "all_fit lk a" "all_fit rk b"
    using positive_value [of D, OF D ov R _ ab(1)] positive_value [of D, OF D ov R _ ab(2)]
      set_value_universe [OF ij(1) U] set_value_universe [OF ij(2) U] QJoin.prems(2) ij(3,4)
    by (auto intro!: universe_fits [of _ _ V])
  then show ?case using join_multisets_eq [of a lk b rk] by (simp add: ab)
next
  case (QUnion l r)
  then show ?case by (fastforce split: if_splits)
next
  case (QFilter q p)
  then show ?case by fastforce
next
  case (QDistinct q)
  then show ?case by fastforce
qed auto


section \<open>Recursion is the least fixpoint\<close>

text \<open>Multisets that stand for sets: every weight is one.\<close>

definition is_set :: "zset \<Rightarrow> bool" where
  "is_set m \<longleftrightarrow> osorted m \<and> (\<forall>(t, d)\<in>set m. d = 1)"

definition keys :: "zset \<Rightarrow> tuple set" where
  "keys m = fst ` set m"

lemma finite_keys [simp]: "finite (keys m)"
  by (simp add: keys_def)

lemma is_set_canonical: "is_set m \<Longrightarrow> canonical m"
  by (auto simp: is_set_def canonical_def nonzero_def)

lemma is_set_weight: "is_set m \<Longrightarrow> wsum m t = ind (t \<in> keys m)"
proof -
  assume m: "is_set m"
  show ?thesis
  proof (cases "t \<in> keys m")
    case True
    then obtain d where d: "(t, d) \<in> set m" by (auto simp: keys_def)
    then have "wsum m t = d" using canonical_mem [OF is_set_canonical [OF m]] by blast
    with d m True show ?thesis by (auto simp: is_set_def)
  qed (simp add: keys_def wsum_notin)
qed

lemma is_set_good: "is_set m \<Longrightarrow> good m"
  by (simp add: good_def is_set_canonical nonneg_def is_set_weight)

lemma is_set_support: "is_set m \<Longrightarrow> support m = keys m"
  by (simp add: support_def is_set_weight)

lemma is_set_eqI: "is_set a \<Longrightarrow> is_set b \<Longrightarrow> keys a = keys b \<Longrightarrow> a = b"
  by (rule canonical_ext) (simp_all add: is_set_canonical is_set_weight)

lemma is_set_distinct: "osorted m \<Longrightarrow> is_set (distinct_snapshot m)"
  using canonical_distinct [of m] by (auto simp: is_set_def distinct_snapshot_def)

lemma keys_distinct: "osorted m \<Longrightarrow> keys (distinct_snapshot m) = support m"
  using is_set_support [OF is_set_distinct, of m] by (simp add: support_def wsum_distinct_snapshot)

lemma support_zmerge:
  "good a \<Longrightarrow> good b \<Longrightarrow> support (zmerge a b) = support a \<union> support b"
  using good_zunion [of a b] by (simp add: zunion_def support_def)

text \<open>The set step of a recursive view.\<close>

definition view_step :: "query \<Rightarrow> query \<Rightarrow> (rel_id \<Rightarrow> tuple set) \<Rightarrow> tuple set \<Rightarrow> tuple set" where
  "view_step init step D R = set_value init D {} \<union> set_value step D R"

definition view :: "query \<Rightarrow> query \<Rightarrow> (rel_id \<Rightarrow> tuple set) \<Rightarrow> tuple set" where
  "view init step D = lfp (view_step init step D)"

lemma mono_view_step: "mono (view_step init step D)"
  unfolding view_step_def by (rule monoI) (use set_value_mono [of D D] in blast)

lemma view_unfold: "view init step D = view_step init step D (view init step D)"
  unfolding view_def by (rule lfp_unfold) (rule mono_view_step)

lemma view_least: "view_step init step D X \<subseteq> X \<Longrightarrow> view init step D \<subseteq> X"
  unfolding view_def by (rule lfp_lowerbound)

lemma view_mono: "(\<And>r. D r \<subseteq> D' r) \<Longrightarrow> view init step D \<subseteq> view init step D'"
proof (rule view_least)
  assume le: "\<And>r. D r \<subseteq> D' r"
  have "view_step init step D X \<subseteq> view_step init step D' X" for X
    unfolding view_step_def using set_value_mono [of D D', OF le] by blast
  then show "view_step init step D (view init step D') \<subseteq> view init step D'"
    using view_unfold [of init step D'] by blast
qed

text \<open>
  The loop, over a step that returns on the subsets of a finite set \<open>U\<close> and is given there by
  a monotone set function: with more fuel than elements it returns the least fixpoint.
\<close>

lemma iterate_ref_lfp:
  assumes fin: "finite U" and mono: "mono F"
    and ret: "\<And>m. is_set m \<Longrightarrow> keys m \<subseteq> U \<Longrightarrow> \<exists>v. step m = Inr v \<and> good v \<and> support v = F (keys m)"
    and init: "good init_val" and bound: "support init_val \<subseteq> U" "\<And>X. X \<subseteq> U \<Longrightarrow> F X \<subseteq> U"
    and r: "is_set r" "keys r \<subseteq> U" "keys r \<subseteq> support init_val \<union> F (keys r)"
      "keys r \<subseteq> lfp (\<lambda>X. support init_val \<union> F X)"
    and fuel: "card U < fuel + card (keys r)"
  shows "\<exists>out. iterate_ref fuel step init_val r = Inr out \<and> is_set out \<and>
    keys out = lfp (\<lambda>X. support init_val \<union> F X)"
  using r fuel
proof (induction fuel arbitrary: r)
  case 0
  then show ?case using card_mono [OF fin, of "keys r"] by simp
next
  case (Suc fuel)
  let ?G = "\<lambda>X. support init_val \<union> F X"
  have mG: "mono ?G" using mono by (auto simp: mono_def)
  obtain v where v: "step r = Inr v" "good v" "support v = F (keys r)" using ret [OF Suc.prems(1,2)] by blast
  let ?next = "distinct_snapshot (zmerge init_val v)"
  have o: "osorted (zmerge init_val v)" using init by (auto simp: good_def)
  have nset: "is_set ?next" using o by (rule is_set_distinct)
  have nkeys: "keys ?next = ?G (keys r)" using keys_distinct [OF o] support_zmerge [OF init v(2)] v(3) by simp
  have step: "iterate_ref (Suc fuel) step init_val r =
      (if ?next = r then Inr r else iterate_ref fuel step init_val ?next)"
    by (simp add: v(1) Let_def)
  show ?case
  proof (cases "?next = r")
    case True
    then have fx: "?G (keys r) = keys r" using nkeys by simp
    then have "lfp ?G \<subseteq> keys r" by (intro lfp_lowerbound) simp
    then have "keys r = lfp ?G" using Suc.prems(4) by blast
    then show ?thesis using step True Suc.prems(1) by simp
  next
    case False
    have "keys r \<noteq> keys ?next" using False is_set_eqI [OF nset Suc.prems(1)] by auto
    then have lt: "keys r \<subset> keys ?next" using Suc.prems(3) nkeys by blast
    have "\<exists>out. iterate_ref fuel step init_val ?next = Inr out \<and> is_set out \<and> keys out = lfp ?G"
    proof (rule Suc.IH [OF nset])
      show "keys ?next \<subseteq> U" unfolding nkeys using bound Suc.prems(2) by blast
      show "keys ?next \<subseteq> ?G (keys ?next)"
        using monoD [OF mG Suc.prems(3)] nkeys by simp
      have "?G (keys r) \<subseteq> ?G (lfp ?G)" by (rule monoD [OF mG Suc.prems(4)])
      then show "keys ?next \<subseteq> lfp ?G" unfolding nkeys using lfp_unfold [OF mG] by simp
      have "card (keys r) < card (keys ?next)" by (rule psubset_card_mono [OF finite_keys lt])
      then show "card U < fuel + card (keys ?next)" using Suc.prems(5) by simp
    qed
    then show ?thesis using step False by simp
  qed
qed

definition same_arity :: "(rel_id \<Rightarrow> nat) \<Rightarrow> nat \<Rightarrow> query \<Rightarrow> query \<Rightarrow> bool" where
  "same_arity ar n init step \<longleftrightarrow> positive init \<and> positive step \<and>
     arity_of ar n init = Some n \<and> arity_of ar n step = Some n"

lemma positive_no_reduce: "positive q \<Longrightarrow> \<not> contains_reduce q"
  by (induction q) auto

lemma iterate_value:
  assumes D: "\<And>r. good (D r)" and ty: "same_arity ar n init step" and V: "finite V"
    and U: "\<And>r. support (D r) \<subseteq> universe (ar r) V" and fuel: "card V ^ n < fuel"
  shows "\<exists>out. query_value fuel (QIterate init step) D None None = Inr out \<and> is_set out \<and>
    keys out = view init step (\<lambda>r. support (D r))"
proof -
  let ?D = "\<lambda>r. support (D r)"
  let ?U = "universe n V"
  have ov: "good_overrides None" by (simp add: good_overrides_def overridden_def)
  have od: "overriding D None = D" by (simp add: overriding_def overridden_def fun_eq_iff)
  note ty' = ty [unfolded same_arity_def]
  have i: "\<exists>v. query_value fuel init D None None = Inr v"
    by (rule typed_returns [where ar = ar and n = n and k = n and V = V])
      (use ty' D ov U od in \<open>auto simp: recur_set_def\<close>)
  then obtain iv where iv: "query_value fuel init D None None = Inr iv" ..
  have ival: "good iv" "support iv = set_value init ?D {}"
    using positive_value [of D, OF D ov _ _ iv] ty' by (auto simp: od recur_set_def)
  have step: "\<exists>v. query_value fuel step D (Some m) None = Inr v \<and> good v \<and> support v = set_value step ?D (keys m)"
    if m: "is_set m" "keys m \<subseteq> ?U" for m
  proof -
    have "\<exists>v. query_value fuel step D (Some m) None = Inr v"
      by (rule typed_returns [where ar = ar and n = n and k = n and V = V])
        (use ty' D ov U od m in \<open>auto simp: recur_set_def is_set_good is_set_support\<close>)
    then obtain v where v: "query_value fuel step D (Some m) None = Inr v" ..
    then show ?thesis
      using positive_value [of D, OF D ov _ _ v] ty' m by (auto simp: od recur_set_def is_set_good is_set_support)
  qed
  have oi: "osorted iv" using ival(1) by (auto simp: good_def)
  have "\<exists>out. iterate_ref fuel (\<lambda>r. query_value fuel step D (Some r) None) iv (distinct_snapshot iv) = Inr out \<and>
      is_set out \<and> keys out = lfp (\<lambda>X. support iv \<union> set_value step ?D X)"
  proof (rule iterate_ref_lfp [where U = ?U])
    show "finite ?U" by (rule finite_universe [OF V])
    show "mono (set_value step ?D)" by (rule monoI) (rule set_value_mono, auto)
    show "support iv \<subseteq> ?U"
      unfolding ival(2) using set_value_universe [of ar n init n ?D V "{}"] ty' U by auto
    then show "keys (distinct_snapshot iv) \<subseteq> ?U" by (simp add: keys_distinct oi)
    show "set_value step ?D X \<subseteq> ?U" if "X \<subseteq> ?U" for X
      using set_value_universe [of ar n step n ?D V X] ty' U that by auto
    have "support iv \<subseteq> lfp (\<lambda>X. support iv \<union> set_value step ?D X)" by (rule lfp_greatest) blast
    then show "keys (distinct_snapshot iv) \<subseteq> lfp (\<lambda>X. support iv \<union> set_value step ?D X)"
      by (simp add: keys_distinct oi)
    show "card ?U < fuel + card (keys (distinct_snapshot iv))"
      using fuel by (simp add: card_universe [OF V])
  qed (use step ival oi in \<open>auto simp: is_set_distinct keys_distinct\<close>)
  then show ?thesis
    using iv ty' positive_no_reduce by (simp add: view_def view_step_def [abs_def] ival(2))
qed

end
