(* ===== verification/Fixpoint_Laws.thy ===== *)
theory Fixpoint_Laws
  imports Fixpoint Set_Semantics
begin

text \<open>
  The maintained fixpoint is the fixpoint: after \<open>advance\<close> the view is what evaluating the
  recursive plan at the new edition gives, whichever path it took, and the change it
  returns is the difference. The step must be linear in the recursion variable, as the
  source assumes, and every join must read different relations on its two sides.
\<close>

section \<open>Sets kept as multisets\<close>

named_theorems zsets \<open>keys of multisets that stand for sets\<close>

lemma contains_key_iff [zsets]: "contains_key m t \<longleftrightarrow> t \<in> keys m"
  by (simp add: contains_key_def keys_def om_get_None_iff)

lemma as_set_distinct: "as_set m = distinct_snapshot m"
  by (simp add: as_set_def distinct_snapshot_def)

lemma is_set_Nil [simp]: "is_set []"
  by (simp add: is_set_def)

lemma keys_Nil [simp]: "keys [] = {}"
  by (simp add: keys_def)

lemma keys_empty_iff [simp]: "keys m = {} \<longleftrightarrow> m = []"
  by (simp add: keys_def)

lemma is_set_as_set: "good m \<Longrightarrow> is_set (as_set m)" "good m \<Longrightarrow> keys (as_set m) = support m"
  by (simp_all add: as_set_distinct good_def canonicalD is_set_distinct keys_distinct)

lemma is_set_subtract [simp]: "is_set a \<Longrightarrow> is_set (subtract_in_place a b)"
  by (auto simp: is_set_def subtract_in_place_def)

lemma keys_subtract [zsets]: "keys (subtract_in_place a b) = keys a - keys b"
  by (force simp: subtract_in_place_def keys_def contains_key_iff)

lemma keys_get: "u \<in> keys m \<longleftrightarrow> om_get m u \<noteq> None"
  by (simp add: keys_def om_get_None_iff)

lemma keys_om_put [zsets]: "osorted m \<Longrightarrow> keys (om_put t c m) = insert t (keys m)" for m :: zset
  by (rule set_eqI) (simp only: insert_iff keys_get om_get_put, auto)

lemma is_set_om_put [simp]: "is_set m \<Longrightarrow> is_set (om_put t 1 m)"
  using set_om_put [of t 1 m] by (auto simp: is_set_def)

lemma is_set_osorted [simp]: "is_set m \<Longrightarrow> osorted m"
  by (simp add: is_set_def)

lemma put_fold:
  "is_set m \<Longrightarrow> is_set (foldl (\<lambda>m t. om_put t 1 m) m ts) \<and>
     keys (foldl (\<lambda>m t. om_put t 1 m) m ts) = keys m \<union> set ts"
  by (induction ts arbitrary: m) (auto simp: zsets)

lemma put_if_fold:
  "is_set m \<Longrightarrow> is_set (foldl (\<lambda>m t. if P t then om_put t 1 m else m) m ts) \<and>
     keys (foldl (\<lambda>m t. if P t then om_put t 1 m else m) m ts) = keys m \<union> {t \<in> set ts. P t}"
  by (induction ts arbitrary: m) (auto simp: zsets)

lemma put_missing_fold:
  "is_set m \<Longrightarrow> is_set (foldl put_missing m ts) \<and> keys (foldl put_missing m ts) = keys m \<union> set ts"
  by (induction ts arbitrary: m) (auto simp: zsets put_missing_def)

lemma seed_fold:
  assumes "is_set od"
  shows "\<exists>od'. foldl (seed r_old) (od, od) ts = (od', od') \<and> is_set od' \<and>
    keys od' = keys od \<union> {t \<in> set ts. t \<in> keys r_old}"
  using assms
proof (induction ts arbitrary: od)
  case (Cons t ts)
  have put: "om_put t 1 od = od" if "t \<in> keys od"
    by (rule is_set_eqI) (use Cons.prems that in \<open>auto simp: zsets\<close>)
  have "seed r_old (od, od) t = (let od' = if t \<in> keys r_old then om_put t 1 od else od in (od', od'))"
    using put by (auto simp: seed_def zsets Let_def)
  then show ?case
    using Cons.IH [of "if t \<in> keys r_old then om_put t 1 od else od"] Cons.prems
    by (auto simp: zsets Let_def split: if_splits)
qed auto

lemma signed_fold:
  fixes m :: zset
  assumes "osorted m" "nonzero m" "c \<noteq> 0"
  shows "osorted (foldl (\<lambda>d (t, w). if P t then om_put t c d else d) m ps) \<and>
    nonzero (foldl (\<lambda>d (t, w). if P t then om_put t c d else d) m ps) \<and>
    (\<forall>u. wsum (foldl (\<lambda>d (t, w). if P t then om_put t c d else d) m ps) u =
       (if P u \<and> u \<in> fst ` set ps then c else wsum m u))"
  using assms
proof (induction ps arbitrary: m)
  case (Cons p ps)
  obtain t w where p: "p = (t, w)" by (cases p)
  have "nonzero (om_put t c m)"
    using Cons.prems set_om_put [of t c m] by (auto simp: nonzero_def)
  then show ?case
    using Cons.IH [of m] Cons.IH [of "om_put t c m"] Cons.prems by (auto simp: p wsum_om_put)
qed simp

lemma set_difference_delta:
  assumes "is_set new" "is_set old"
  shows "is_delta (set_difference new old) old new"
proof -
  let ?d = "foldl (\<lambda>d (t, w). if \<not> contains_key old t then om_put t 1 d else d) [] new :: zset"
  have d: "osorted ?d \<and> nonzero ?d \<and> (\<forall>u. wsum ?d u = (if u \<notin> keys old \<and> u \<in> keys new then 1 else 0))"
    using signed_fold [of "[]" 1 "\<lambda>t. \<not> contains_key old t" new, folded keys_def]
    by (simp add: zsets)
  then show ?thesis
    using signed_fold [of ?d "-1" "\<lambda>t. \<not> contains_key new t" old, folded keys_def] assms
    by (auto simp: set_difference_def is_delta_def canonical_def is_set_weight ind_def zsets)
qed

section \<open>Linear steps\<close>

primrec has_recur :: "query \<Rightarrow> bool" where
  "has_recur (QRel r) = False"
| "has_recur (QRangeRel r lo hi) = False"
| "has_recur (QRangeRelOn r col lo hi) = False"
| "has_recur (QMap input f) = has_recur input"
| "has_recur (QFilter input p) = has_recur input"
| "has_recur (QProject input cols) = has_recur input"
| "has_recur (QJoin left right lk rk) = (has_recur left \<or> has_recur right)"
| "has_recur (QUnion left right) = (has_recur left \<or> has_recur right)"
| "has_recur (QNegate input) = has_recur input"
| "has_recur (QDistinct input) = has_recur input"
| "has_recur (QReduce input key agg) = has_recur input"
| "has_recur QRecur = True"
| "has_recur (QIterate init step) = False"
| "has_recur (QInherit input col key ctx) = has_recur input"
| "has_recur (QMaterialized plan into prefix cursor_rel key reduce) = has_recur plan"
| "has_recur (QShared a inner) = has_recur inner"

text \<open>No join reads the recursion variable on both sides, or a relation on both sides.\<close>

primrec joins_ok :: "query \<Rightarrow> bool" where
  "joins_ok (QRel r) = True"
| "joins_ok (QRangeRel r lo hi) = True"
| "joins_ok (QRangeRelOn r col lo hi) = True"
| "joins_ok (QMap input f) = joins_ok input"
| "joins_ok (QFilter input p) = joins_ok input"
| "joins_ok (QProject input cols) = joins_ok input"
| "joins_ok (QJoin left right lk rk) = (joins_ok left \<and> joins_ok right \<and>
     \<not> (has_recur left \<and> has_recur right) \<and>
     collect_base_relations left \<inter> collect_base_relations right = {})"
| "joins_ok (QUnion left right) = (joins_ok left \<and> joins_ok right)"
| "joins_ok (QNegate input) = joins_ok input"
| "joins_ok (QDistinct input) = joins_ok input"
| "joins_ok (QReduce input key agg) = joins_ok input"
| "joins_ok QRecur = True"
| "joins_ok (QIterate init step) = True"
| "joins_ok (QInherit input col key ctx) = joins_ok input"
| "joins_ok (QMaterialized plan into prefix cursor_rel key reduce) = joins_ok plan"
| "joins_ok (QShared a inner) = joins_ok inner"

lemma set_value_no_recur: "\<not> has_recur q \<Longrightarrow> set_value q D A = set_value q D B"
  by (induction q) auto

lemma set_value_additive:
  "joins_ok q \<Longrightarrow> set_value q D (A \<union> B) = set_value q D A \<union> set_value q D B"
proof (induction q)
  case (QJoin l r lk rk)
  then consider "\<not> has_recur l" | "\<not> has_recur r" by auto
  then show ?case
  proof cases
    case 1
    then have "set_value l D (A \<union> B) = set_value l D A" "set_value l D B = set_value l D A"
      using set_value_no_recur by blast+
    with QJoin show ?thesis by auto
  next
    case 2
    then have "set_value r D (A \<union> B) = set_value r D A" "set_value r D B = set_value r D A"
      using set_value_no_recur by blast+
    with QJoin show ?thesis by auto
  qed
qed auto

lemma set_value_cong:
  "(\<And>r. r \<in> collect_base_relations q \<Longrightarrow> D r = D' r) \<Longrightarrow> set_value q D R = set_value q D' R"
  by (induction q) auto

text \<open>
  A derivation that does not survive a deletion rests on a deleted tuple of some relation:
  it is still there with that relation cut down to its deleted tuples.
\<close>

lemma broken_derivation:
  assumes "joins_ok q" "t \<in> set_value q D R" "t \<notin> set_value q D' R"
  shows "\<exists>r\<in>collect_base_relations q. D r - D' r \<noteq> {} \<and> t \<in> set_value q (D(r := D r - D' r)) R"
  using assms
proof (induction q arbitrary: t)
  case (QMap q f)
  from QMap.prems obtain u where u: "u \<in> set_value q D R" "t = f u" "u \<notin> set_value q D' R" by auto
  with QMap.IH [of u] QMap.prems(1) show ?case by auto
next
  case (QProject q cols)
  from QProject.prems obtain u where u: "u \<in> set_value q D R" "t = pick cols u" "u \<notin> set_value q D' R" by auto
  with QProject.IH [of u] QProject.prems(1) show ?case by auto
next
  case (QJoin l r lk rk)
  from QJoin.prems(2) obtain a b where ab: "t = a @ b" "a \<in> set_value l D R" "b \<in> set_value r D R"
    "pick rk b = pick lk a" by auto
  have dis: "collect_base_relations l \<inter> collect_base_relations r = {}" using QJoin.prems(1) by simp
  consider "a \<notin> set_value l D' R" | "b \<notin> set_value r D' R" using ab QJoin.prems(3) by auto
  then show ?case
  proof cases
    case 1
    have "joins_ok l" using QJoin.prems(1) by simp
    from QJoin.IH(1) [OF this ab(2) 1] obtain x
      where x: "x \<in> collect_base_relations l" "D x - D' x \<noteq> {}"
        "a \<in> set_value l (D(x := D x - D' x)) R" by blast
    then have "x \<notin> collect_base_relations r" using dis by auto
    then have "set_value r (D(x := D x - D' x)) R = set_value r D R" by (intro set_value_cong) auto
    then have "t \<in> set_value (QJoin l r lk rk) (D(x := D x - D' x)) R"
      using x(3) ab unfolding set_value.simps by blast
    with x(1,2) show ?thesis unfolding collect_base_relations.simps by blast
  next
    case 2
    have "joins_ok r" using QJoin.prems(1) by simp
    from QJoin.IH(2) [OF this ab(3) 2] obtain x
      where x: "x \<in> collect_base_relations r" "D x - D' x \<noteq> {}"
        "b \<in> set_value r (D(x := D x - D' x)) R" by blast
    then have "x \<notin> collect_base_relations l" using dis by auto
    then have "set_value l (D(x := D x - D' x)) R = set_value l D R" by (intro set_value_cong) auto
    then have "t \<in> set_value (QJoin l r lk rk) (D(x := D x - D' x)) R"
      using x(3) ab unfolding set_value.simps by blast
    with x(1,2) show ?thesis unfolding collect_base_relations.simps by blast
  qed
next
  case (QUnion l r)
  then show ?case unfolding set_value.simps joins_ok.simps collect_base_relations.simps by blast
qed auto

section \<open>The set arguments\<close>

text \<open>What survives the deletion of every tuple that had a broken derivation is in the new view.\<close>

lemma survivors_sound:
  assumes add: "\<And>A B. F (A \<union> B) = F A \<union> F B"
    and mono: "mono F'" and seed_i: "\<And>t. t \<in> I \<Longrightarrow> t \<in> I' \<or> t \<in> od"
    and seed_s: "\<And>t X. X \<subseteq> r \<Longrightarrow> t \<in> r \<Longrightarrow> t \<in> F X \<Longrightarrow> t \<in> F' X \<or> t \<in> od"
    and closed: "od = {} \<or> F od \<inter> r \<subseteq> od" and od: "od \<subseteq> r"
    and r: "r = lfp (\<lambda>X. I \<union> F X)" and new: "v = lfp (\<lambda>X. I' \<union> F' X)"
  shows "r - od \<subseteq> v"
proof -
  let ?G = "\<lambda>X. I \<union> F X" and ?G' = "\<lambda>X. I' \<union> F' X"
  have mF: "mono F" by (rule monoI) (use add in \<open>metis Un_upper1 subset_Un_eq\<close>)
  have mG: "mono ?G" using mF by (auto simp: mono_def)
  have mG': "mono ?G'" using mono by (auto simp: mono_def)
  have v: "?G' v = v" unfolding new by (rule lfp_unfold [OF mG', symmetric])
  have ru: "?G r = r" unfolding r by (rule lfp_unfold [OF mG, symmetric])
  let ?X = "{t. t \<in> r \<and> (t \<in> od \<or> t \<in> v)}"
  have "?G ?X \<subseteq> ?X"
  proof
    fix t assume t: "t \<in> ?G ?X"
    have Xr: "?X \<subseteq> r" by auto
    have tr: "t \<in> r" using t monoD [OF mG Xr] ru by auto
    show "t \<in> ?X"
    proof (cases "t \<in> od")
      case False
      have "t \<in> v"
        using t
      proof
        assume "t \<in> I"
        then show "t \<in> v" using seed_i False v by auto
      next
        assume tF: "t \<in> F ?X"
        have "t \<in> F (?X - od)"
        proof (cases "od = {}")
          case True
          then show ?thesis using tF by simp
        next
          case ne: False
          have "?X = (?X - od) \<union> od" using od by auto
          then have "F ?X = F (?X - od) \<union> F od" using add [of "?X - od" od] by simp
          with tF tr closed ne False show ?thesis by auto
        qed
        moreover have "?X - od \<subseteq> r" "?X - od \<subseteq> v" by auto
        ultimately have "t \<in> F' v" using seed_s [of "?X - od" t] False tr monoD [OF mono, of "?X - od" v] by auto
        then show "t \<in> v" using v by auto
      qed
      with tr show ?thesis by simp
    qed (use tr in simp)
  qed
  then have "r \<subseteq> ?X" unfolding r by (rule lfp_lowerbound)
  then show ?thesis by auto
qed


section \<open>Maintained views\<close>

definition view_rels :: "query \<Rightarrow> query \<Rightarrow> rel_id set" where
  "view_rels init step = collect_base_relations init \<union> collect_base_relations step"

definition maintainable :: "(rel_id \<Rightarrow> nat) \<Rightarrow> nat \<Rightarrow> query \<Rightarrow> query \<Rightarrow> bool" where
  "maintainable ar n init step \<longleftrightarrow> same_arity ar n init step \<and> joins_ok init \<and> joins_ok step"

text \<open>
  The relations a view reads, at one edition: no negative weights, rows as wide as the
  arities say with cells from \<open>V\<close>, and the materialized copies its plans name in order.
\<close>

definition world_ok ::
  "nat \<Rightarrow> (rel_id \<Rightarrow> edition \<Rightarrow> tuple \<Rightarrow> diff) \<Rightarrow> (rel_id \<Rightarrow> zset) \<Rightarrow> edition \<Rightarrow>
   (rel_id \<Rightarrow> nat) \<Rightarrow> val set \<Rightarrow> query \<Rightarrow> query \<Rightarrow> bool" where
  "world_ok fuel w D e ar V init step \<longleftrightarrow>
     (\<forall>r\<in>view_rels init step. nonneg (D r) \<and> support (D r) \<subseteq> universe (ar r) V) \<and>
     copies_ok fuel w D e init \<and> copies_ok fuel w D e step"

definition only :: "rel_id set \<Rightarrow> (rel_id \<Rightarrow> zset) \<Rightarrow> rel_id \<Rightarrow> zset" where
  "only S D r = (if r \<in> S then D r else [])"

lemma only_value:
  "collect_base_relations q \<subseteq> S \<Longrightarrow> query_value fuel q D recur ov = query_value fuel q (only S D) recur ov"
  by (rule query_value_cong) (auto simp: only_def)

lemma support_only: "support (only S D r) = (if r \<in> S then support (D r) else {})"
  by (simp add: only_def)

lemma eval_inner_plain:
  "arcs_ok env q \<Longrightarrow> fst (eval_inner fuel q reader recur ov Map.empty) = eval_ref fuel q reader recur ov"
proof -
  assume ok: "arcs_ok env q"
  let ?rd = "\<lambda>e. reader\<lparr>er_edition := e\<rparr>"
  have "?rd (er_edition reader) = reader" by simp
  with eval_inner_answers [of ?rd env q fuel "er_edition reader" recur ov] ok show ?thesis
    by (simp add: answers_def)
qed

lemma deleted_rows_set:
  assumes "canonical before" "canonical after"
  shows "is_set (deleted_rows before after)" "keys (deleted_rows before after) = support before - support after"
proof -
  have e: "deleted_rows before after = distinct_snapshot (filter (\<lambda>(t, w). zweight after t \<le> 0) before)"
    by (simp add: deleted_rows_def distinct_snapshot_def vanished_def conj_commute split_def)
  let ?f = "filter (\<lambda>(t, w). zweight after t \<le> 0) before"
  have o: "osorted ?f" using assms(1) by auto
  show "is_set (deleted_rows before after)" unfolding e by (rule is_set_distinct [OF o])
  have "wsum ?f t = (if wsum after t \<le> 0 then wsum before t else 0)" for t
    using wsum_filter [of "\<lambda>t. zweight after t \<le> 0" before t] assms(2)
    by (simp add: wsum_osorted canonicalD)
  then show "keys (deleted_rows before after) = support before - support after"
    unfolding e by (auto simp: keys_distinct [OF o] support_def)
qed

lemma vanished_iff:
  assumes "canonical before" "canonical after"
  shows "(\<exists>p\<in>set before. vanished after p) \<longleftrightarrow> \<not> support before \<subseteq> support after"
proof -
  have "(\<exists>p\<in>set before. vanished after p) \<longleftrightarrow> deleted_rows before after \<noteq> []"
    by (auto simp: deleted_rows_def filter_empty_conv)
  also have "\<dots> \<longleftrightarrow> support before - support after \<noteq> {}"
    by (simp flip: deleted_rows_set(2) [OF assms])
  finally show ?thesis by blast
qed

text \<open>Regrowth, over a step that returns on the subsets of \<open>U\<close> and is additive there.\<close>

lemma grow_loop_lfp:
  assumes fin: "finite U" and add: "\<And>A B. F (A \<union> B) = F A \<union> F B" and bound: "\<And>X. X \<subseteq> U \<Longrightarrow> F X \<subseteq> U"
    and ret: "\<And>m. is_set m \<Longrightarrow> keys m \<subseteq> U \<Longrightarrow>
      \<exists>v. eval_with_recur fuel step ops s to m = Inr v \<and> good v \<and> support v = F (keys m)"
    and r: "is_set r" "is_set fr" "keys r \<subseteq> U" "keys fr \<subseteq> U" "keys r \<inter> keys fr = {}"
      "keys r \<union> keys fr \<subseteq> lfp (\<lambda>X. I \<union> F X)" "I \<subseteq> keys r \<union> keys fr" "F (keys r) \<subseteq> keys r \<union> keys fr"
    and fuel: "card U < k + card (keys r)"
  shows "\<exists>out iters. grow_loop k fuel step ops s to r fr i = Inr (out, iters) \<and> is_set out \<and>
    keys out = lfp (\<lambda>X. I \<union> F X)"
  using r fuel
proof (induction k arbitrary: r fr i)
  case 0
  then show ?case using card_mono [OF fin, of "keys r"] by simp
next
  case (Suc k)
  have mono: "mono (\<lambda>X. I \<union> F X)" by (rule monoI) (use add in \<open>metis Un_mono order_refl subset_Un_eq sup_ge1\<close>)
  show ?case
  proof (cases "fr = []")
    case True
    then have "lfp (\<lambda>X. I \<union> F X) \<subseteq> keys r" using Suc.prems(7,8) by (intro lfp_lowerbound) auto
    then have "keys r = lfp (\<lambda>X. I \<union> F X)" using Suc.prems(6) by auto
    then show ?thesis using True Suc.prems(1) by simp
  next
    case False
    let ?r = "foldl (\<lambda>m t. om_put t 1 m) r (map fst fr)"
    have r': "is_set ?r" "keys ?r = keys r \<union> keys fr"
      using put_fold [OF Suc.prems(1), of "map fst fr"] by (simp_all add: keys_def)
    obtain v where v: "eval_with_recur fuel step ops s to fr = Inr v" "good v" "support v = F (keys fr)"
      using ret [OF Suc.prems(2,4)] by blast
    let ?next = "subtract_in_place (as_set v) ?r"
    have n: "is_set ?next" "keys ?next = F (keys fr) - keys ?r"
      using is_set_as_set [OF v(2)] v(3) by (simp_all add: keys_subtract)
    have "\<exists>out iters. grow_loop k fuel step ops s to ?r ?next (Suc i) = Inr (out, iters) \<and> is_set out \<and>
        keys out = lfp (\<lambda>X. I \<union> F X)"
    proof (rule Suc.IH [OF r'(1) n(1)])
      show "keys ?r \<subseteq> U" using r'(2) Suc.prems(3,4) by simp
      show "keys ?next \<subseteq> U" using n(2) bound [OF Suc.prems(4)] by blast
      show "keys ?r \<inter> keys ?next = {}" using n(2) by blast
      have "F (keys fr) \<subseteq> I \<union> F (lfp (\<lambda>X. I \<union> F X))"
        using monoD [OF mono, of "keys fr"] Suc.prems(6) by blast
      also have "\<dots> = lfp (\<lambda>X. I \<union> F X)" by (rule lfp_unfold [OF mono, symmetric])
      finally show "keys ?r \<union> keys ?next \<subseteq> lfp (\<lambda>X. I \<union> F X)" using n(2) r'(2) Suc.prems(6) by blast
      show "I \<subseteq> keys ?r \<union> keys ?next" using r'(2) Suc.prems(7) by blast
      show "F (keys ?r) \<subseteq> keys ?r \<union> keys ?next" unfolding r'(2) add using n(2) r'(2) Suc.prems(8) by blast
      have "keys fr \<noteq> {}" using False by simp
      then have "keys r \<subset> keys ?r" using r'(2) Suc.prems(5) by blast
      then have "card (keys r) < card (keys ?r)" by (rule psubset_card_mono [OF finite_keys])
      then show "card U < k + card (keys ?r)" using Suc.prems(9) by simp
    qed
    then show ?thesis using False v(1) by (simp add: Let_def)
  qed
qed

text \<open>The propagation of an overdeletion through the step closes the deleted set.\<close>

lemma propagate_closed:
  assumes add: "\<And>A B. F (A \<union> B) = F A \<union> F B" and rset: "is_set (fx_r fx)" "keys (fx_r fx) \<subseteq> U"
    and ret: "\<And>m. is_set m \<Longrightarrow> keys m \<subseteq> U \<Longrightarrow>
      \<exists>v. eval_with_recur fuel (fx_step fx) ops s (fx_at fx) m = Inr v \<and> good v \<and> support v = F (keys m)"
    and od: "is_set od" "is_set fr" "keys fr \<subseteq> keys od" "keys od \<subseteq> keys (fx_r fx)"
      "keys od - keys fr = {} \<or> F (keys od - keys fr) \<inter> keys (fx_r fx) \<subseteq> keys od"
    and fuel: "card (keys (fx_r fx)) < k + card (keys od - keys fr)"
  shows "\<exists>out rounds. propagate k fuel fx ops s od fr i = Inr (out, rounds) \<and> is_set out \<and>
    keys od \<subseteq> keys out \<and> keys out \<subseteq> keys (fx_r fx) \<and>
    (keys out = {} \<or> F (keys out) \<inter> keys (fx_r fx) \<subseteq> keys out)"
  using od fuel
proof (induction k arbitrary: od fr i)
  case 0
  then show ?case using card_mono [OF finite_keys, of "keys od - keys fr" "fx_r fx"] by auto
next
  case (Suc k)
  show ?case
  proof (cases "fr = []")
    case True
    then show ?thesis using Suc.prems by auto
  next
    case False
    have fU: "keys fr \<subseteq> U" using Suc.prems(3,4) rset(2) by blast
    obtain v where v: "eval_with_recur fuel (fx_step fx) ops s (fx_at fx) fr = Inr v" "good v" "support v = F (keys fr)"
      using ret [OF Suc.prems(2) fU] by blast
    let ?next = "foldl (\<lambda>m t. if contains_key (fx_r fx) t \<and> \<not> contains_key od t then om_put t 1 m else m)
                     [] (map fst (as_set v)) :: zset"
    have n: "is_set ?next" "keys ?next = F (keys fr) \<inter> keys (fx_r fx) - keys od"
      using put_if_fold [of "[]" "\<lambda>t. contains_key (fx_r fx) t \<and> \<not> contains_key od t" "map fst (as_set v)"]
        is_set_as_set(2) [OF v(2)] v(3)
      by (auto simp: zsets keys_def)
    let ?od = "foldl (\<lambda>m t. om_put t 1 m) od (map fst ?next) :: zset"
    have o': "is_set ?od" "keys ?od = keys od \<union> keys ?next"
      using put_fold [OF Suc.prems(1), of "map fst ?next"] by (simp_all add: keys_def)
    have processed: "keys ?od - keys ?next = keys od" using o'(2) n(2) by blast
    have F_od: "F (keys od) \<inter> keys (fx_r fx) \<subseteq> keys ?od"
    proof -
      have split: "keys od = (keys od - keys fr) \<union> keys fr" using Suc.prems(3) by blast
      have "F (keys od) = F (keys od - keys fr) \<union> F (keys fr)" by (subst split) (rule add)
      moreover have "keys od - keys fr = {} \<Longrightarrow> keys od = keys fr" using Suc.prems(3) by blast
      ultimately show ?thesis using Suc.prems(5) n(2) o'(2) by auto
    qed
    have "\<exists>out rounds. propagate k fuel fx ops s ?od ?next (Suc i) = Inr (out, rounds) \<and> is_set out \<and>
      keys ?od \<subseteq> keys out \<and> keys out \<subseteq> keys (fx_r fx) \<and>
      (keys out = {} \<or> F (keys out) \<inter> keys (fx_r fx) \<subseteq> keys out)"
    proof (rule Suc.IH [OF o'(1) n(1)])
      show "keys ?next \<subseteq> keys ?od" using o'(2) by blast
      show "keys ?od \<subseteq> keys (fx_r fx)" using o'(2) n(2) Suc.prems(4) by blast
      show "keys ?od - keys ?next = {} \<or> F (keys ?od - keys ?next) \<inter> keys (fx_r fx) \<subseteq> keys ?od"
        unfolding processed using F_od by blast
      have "keys fr \<noteq> {}" using False by simp
      then have "keys od - keys fr \<subset> keys od" using Suc.prems(3) by blast
      then have "card (keys od - keys fr) < card (keys od)" by (rule psubset_card_mono [OF finite_keys])
      then show "card (keys (fx_r fx)) < k + card (keys ?od - keys ?next)"
        unfolding processed using Suc.prems(6) by simp
    qed
    then show ?thesis using False v(1) o'(2) by (auto simp: Let_def)
  qed
qed


definition base_sets :: "rel_id set \<Rightarrow> (rel_id \<Rightarrow> zset) \<Rightarrow> rel_id \<Rightarrow> tuple set" where
  "base_sets S D r = (if r \<in> S then support (D r) else {})"

lemma base_sets_only: "(\<lambda>r. support (only S D r)) = base_sets S D"
  by (simp add: fun_eq_iff base_sets_def support_only)

lemma base_sets_override:
  "(\<lambda>r. support (overriding (only S D) (Some [x \<mapsto> m]) r)) = (base_sets S D)(x := support m)"
  by (auto simp: fun_eq_iff base_sets_def overriding_def overridden_def only_def)

lemma overriding_None: "overriding D None = D"
  by (simp add: fun_eq_iff overriding_def overridden_def)

context trace_store
begin

lemma eval_positive:
  assumes i: "inv s" "ts_watermark ops s \<le> e"
    and q: "copies_ok fuel (W s) (contents ops s e) e q" "arcs_ok env q" "positive q"
      "arity_of ar n q = Some n" "collect_base_relations q \<subseteq> S"
    and D: "\<And>r. r \<in> S \<Longrightarrow> nonneg (contents ops s e r) \<and> support (contents ops s e r) \<subseteq> universe (ar r) V"
    and ov: "good_overrides ov" "\<And>r m. overridden ov r = Some m \<Longrightarrow> support m \<subseteq> universe (ar r) V"
    and R: "\<And>m. recur = Some m \<Longrightarrow> good m" "recur_set recur \<subseteq> universe n V"
  shows "\<exists>v. fst (eval_inner fuel q (ts_reader_at ops s e) recur ov Map.empty) = Inr v \<and> good v \<and>
    support v = set_value q (\<lambda>r. support (overriding (only S (contents ops s e)) ov r)) (recur_set recur)"
proof -
  let ?M = "only S (contents ops s e)"
  have M: "good (?M r)" for r using D [of r] contents_ok(2) [OF i] by (auto simp: only_def good_def)
  have U: "support (overriding ?M ov r) \<subseteq> universe (ar r) V" for r
    using D [of r] ov(2) by (auto simp: overriding_def only_def split: option.splits)
  have "fst (eval_inner fuel q (ts_reader_at ops s e) recur ov Map.empty) = query_value fuel q ?M recur ov"
    using eval_inner_plain [OF q(2)] eval_ref_meaning [OF i q(1)] only_value [OF q(5)] by simp
  moreover obtain v where v: "query_value fuel q ?M recur ov = Inr v"
    using typed_returns [OF q(4,3) M ov(1) R(1) U R(2)] by blast
  ultimately show ?thesis using positive_value [of ?M, OF M ov(1) R(1) q(3) v] by simp
qed

lemma eval_init_ok:
  assumes i: "inv s" "ts_watermark ops s \<le> e"
    and w: "world_ok fuel (W s) (contents ops s e) e ar V init step" "maintainable ar n init step" "arcs_ok env init"
  shows "\<exists>v. eval_snapshot fuel init ops s e = Inr v \<and> good v \<and>
    support v = set_value init (base_sets (view_rels init step) (contents ops s e)) {}"
  unfolding eval_snapshot_def eval_snapshot_on_def base_sets_only [symmetric]
  using eval_positive [OF i, where q = init and recur = None and ov = None and S = "view_rels init step"
      and ar = ar and V = V and n = n and env = env and fuel = fuel] w
  by (auto simp: world_ok_def maintainable_def same_arity_def good_overrides_def overridden_def
      recur_set_def overriding_None view_rels_def)

lemma eval_step_ok:
  assumes i: "inv s" "ts_watermark ops s \<le> e"
    and w: "world_ok fuel (W s) (contents ops s e) e ar V init step" "maintainable ar n init step" "arcs_ok env step"
    and m: "is_set m" "keys m \<subseteq> universe n V"
  shows "\<exists>v. eval_with_recur fuel step ops s e m = Inr v \<and> good v \<and>
    support v = set_value step (base_sets (view_rels init step) (contents ops s e)) (keys m)"
  unfolding eval_with_recur_def base_sets_only [symmetric]
  using eval_positive [OF i, where q = step and recur = "Some m" and ov = None and S = "view_rels init step"
      and ar = ar and V = V and n = n and env = env and fuel = fuel] w m
  by (auto simp: world_ok_def maintainable_def same_arity_def good_overrides_def overridden_def
      recur_set_def overriding_None view_rels_def is_set_good is_set_support)

lemma eval_over_ok:
  assumes i: "inv s" "ts_watermark ops s \<le> e"
    and w: "world_ok fuel (W s) (contents ops s e) e ar V init step" "maintainable ar n init step"
    and q: "q = init \<or> q = step" "arcs_ok env q"
    and x: "x \<in> view_rels init step" "is_set d" "keys d \<subseteq> support (contents ops s e x)"
    and R: "\<And>m. recur = Some m \<Longrightarrow> is_set m" "recur_set recur \<subseteq> universe n V"
  shows "\<exists>v. eval_with fuel q ops s e recur [x \<mapsto> d] = Inr v \<and> good v \<and>
    support v = set_value q ((base_sets (view_rels init step) (contents ops s e))(x := keys d)) (recur_set recur)"
proof -
  have ov: "good_overrides (Some [x \<mapsto> d])" "\<And>r m. overridden (Some [x \<mapsto> d]) r = Some m \<Longrightarrow> r = x \<and> m = d"
    using x(2) by (auto simp: good_overrides_def overridden_def is_set_good split: if_splits)
  have "support d \<subseteq> universe (ar x) V" using x w(1) by (auto simp: is_set_support world_ok_def)
  then have "\<exists>v. fst (eval_inner fuel q (ts_reader_at ops s e) recur (Some [x \<mapsto> d]) Map.empty) = Inr v \<and> good v \<and>
      support v = set_value q (\<lambda>r. support (overriding (only (view_rels init step) (contents ops s e)) (Some [x \<mapsto> d]) r))
        (recur_set recur)"
    by (intro eval_positive [OF i, where ar = ar and V = V and n = n and env = env])
      (use w q ov R is_set_good in \<open>auto simp: world_ok_def maintainable_def same_arity_def view_rels_def\<close>)
  then show ?thesis by (simp add: eval_with_def base_sets_override is_set_support [OF x(2)])
qed

lemma base_sets_universe:
  "world_ok fuel (W s) (contents ops s e) e ar V init step \<Longrightarrow>
   base_sets (view_rels init step) (contents ops s e) r \<subseteq> universe (ar r) V"
  by (auto simp: world_ok_def base_sets_def)

lemma step_universe:
  assumes "world_ok fuel (W s) (contents ops s e) e ar V init step" "maintainable ar n init step"
  shows "X \<subseteq> universe n V \<Longrightarrow>
      set_value step (base_sets (view_rels init step) (contents ops s e)) X \<subseteq> universe n V"
    "set_value init (base_sets (view_rels init step) (contents ops s e)) {} \<subseteq> universe n V"
  using set_value_universe [of ar n step n "base_sets (view_rels init step) (contents ops s e)" V X]
    set_value_universe [of ar n init n "base_sets (view_rels init step) (contents ops s e)" V "{}"]
    base_sets_universe [OF assms(1)] assms(2)
  by (auto simp: maintainable_def same_arity_def)

lemma view_universe:
  assumes "world_ok fuel (W s) (contents ops s e) e ar V init step" "maintainable ar n init step"
  shows "view init step (base_sets (view_rels init step) (contents ops s e)) \<subseteq> universe n V"
  by (rule view_least) (use step_universe [OF assms] in \<open>auto simp: view_step_def\<close>)

lemma grow_ok:
  assumes i: "inv s" "ts_watermark ops s \<le> to"
    and w: "world_ok fuel (W s) (contents ops s to) to ar V (fx_init fx) (fx_step fx)"
      "maintainable ar n (fx_init fx) (fx_step fx)" "arcs_ok env (fx_init fx)" "arcs_ok env (fx_step fx)"
    and V: "finite V" "card V ^ n < fuel"
    and r: "is_set r" "keys r \<subseteq> view (fx_init fx) (fx_step fx)
      (base_sets (view_rels (fx_init fx) (fx_step fx)) (contents ops s to))"
  shows "\<exists>out iters. grow fuel fx ops s to r = Inr (out, iters) \<and> is_set out \<and>
    keys out = view (fx_init fx) (fx_step fx)
      (base_sets (view_rels (fx_init fx) (fx_step fx)) (contents ops s to))"
proof -
  let ?S = "base_sets (view_rels (fx_init fx) (fx_step fx)) (contents ops s to)"
  let ?I = "set_value (fx_init fx) ?S {}" and ?F = "set_value (fx_step fx) ?S"
  let ?U = "universe n V"
  have view: "view (fx_init fx) (fx_step fx) ?S = lfp (\<lambda>X. ?I \<union> ?F X)"
    by (simp add: view_def view_step_def [abs_def])
  have add: "?F (A \<union> B) = ?F A \<union> ?F B" for A B
    by (rule set_value_additive) (use w(2) in \<open>simp add: maintainable_def\<close>)
  have rU: "keys r \<subseteq> ?U" using r(2) view_universe [OF w(1,2)] by blast
  obtain iv where iv: "eval_snapshot fuel (fx_init fx) ops s to = Inr iv" "good iv" "support iv = ?I"
    using eval_init_ok [OF i w(1,2,3)] by blast
  obtain sv where sv: "eval_with_recur fuel (fx_step fx) ops s to r = Inr sv" "good sv" "support sv = ?F (keys r)"
    using eval_step_ok [OF i w(1,2,4) r(1) rU] by blast
  let ?f0 = "foldl put_missing (as_set iv) (map fst (as_set sv))"
  let ?fr = "subtract_in_place ?f0 r"
  have f0: "is_set ?f0" "keys ?f0 = ?I \<union> ?F (keys r)"
    using put_missing_fold [OF is_set_as_set(1) [OF iv(2)], of "map fst (as_set sv)"]
      is_set_as_set(2) [OF iv(2)] is_set_as_set(2) [OF sv(2)] iv(3) sv(3)
    by (simp_all add: keys_def)
  have fr: "is_set ?fr" "keys ?fr = ?I \<union> ?F (keys r) - keys r"
    using f0 by (simp_all add: keys_subtract)
  have closed: "?I \<union> ?F (keys r) \<subseteq> lfp (\<lambda>X. ?I \<union> ?F X)"
    using view_unfold [of "fx_init fx" "fx_step fx" ?S] set_value_mono [of ?S ?S "keys r" _ "fx_step fx"] r(2)
    unfolding view [symmetric] view_step_def by blast
  have "\<exists>out iters. grow_loop fuel fuel (fx_step fx) ops s to r ?fr 0 = Inr (out, iters) \<and> is_set out \<and>
      keys out = lfp (\<lambda>X. ?I \<union> ?F X)"
  proof (rule grow_loop_lfp [where U = ?U, OF finite_universe [OF V(1)] add _ _ r(1) fr(1) rU])
    show "?F X \<subseteq> ?U" if "X \<subseteq> ?U" for X using step_universe(1) [OF w(1,2) that] .
    show "\<exists>v. eval_with_recur fuel (fx_step fx) ops s to m = Inr v \<and> good v \<and> support v = ?F (keys m)"
      if "is_set m" "keys m \<subseteq> ?U" for m using eval_step_ok [OF i w(1,2,4) that] .
    show "keys ?fr \<subseteq> ?U" using fr(2) step_universe [OF w(1,2)] rU by blast
    show "keys r \<union> keys ?fr \<subseteq> lfp (\<lambda>X. ?I \<union> ?F X)" using fr(2) closed r(2) view by blast
    show "card ?U < fuel + card (keys r)" using V by (simp add: card_universe)
  qed (use fr(2) in blast)+
  then show ?thesis using iv(1) sv(1) by (simp add: grow_def view Let_def)
qed

text \<open>Seeding marks every tuple of the old view with a derivation that uses a deleted base tuple.\<close>

lemma seed_all_ok:
  assumes i: "inv s" "ts_watermark ops s \<le> fx_at fx" "ts_watermark ops s \<le> to"
    and w: "world_ok fuel (W s) (contents ops s (fx_at fx)) (fx_at fx) ar V (fx_init fx) (fx_step fx)"
      "maintainable ar n (fx_init fx) (fx_step fx)" "arcs_ok env (fx_init fx)" "arcs_ok env (fx_step fx)"
    and r: "is_set (fx_r fx)" "keys (fx_r fx) \<subseteq> universe n V"
    and S: "S = base_sets (view_rels (fx_init fx) (fx_step fx)) (contents ops s (fx_at fx))"
    and S': "S' = base_sets (view_rels (fx_init fx) (fx_step fx)) (contents ops s to)"
    and rels: "set rels \<subseteq> view_rels (fx_init fx) (fx_step fx)" and od: "is_set od" "keys od \<subseteq> keys (fx_r fx)"
  shows "\<exists>od'. seed_all fuel fx ops s to rels (od, od) = Inr (od', od') \<and> is_set od' \<and>
    keys od \<subseteq> keys od' \<and> keys od' \<subseteq> keys (fx_r fx) \<and>
    (\<forall>x\<in>set rels. S x - S' x \<noteq> {} \<longrightarrow>
       (set_value (fx_init fx) (S(x := S x - S' x)) {} \<union>
        set_value (fx_step fx) (S(x := S x - S' x)) (keys (fx_r fx))) \<inter> keys (fx_r fx) \<subseteq> keys od')"
  using rels od
proof (induction rels arbitrary: od)
  case Nil
  then show ?case by auto
next
  case (Cons x rels)
  let ?at = "fx_at fx" and ?init = "fx_init fx" and ?step = "fx_step fx" and ?r = "fx_r fx"
  let ?D = "contents ops s ?at" and ?D' = "contents ops s to"
  have x: "x \<in> view_rels ?init ?step" and rels: "set rels \<subseteq> view_rels ?init ?step" using Cons.prems(1) by auto
  note can = contents_ok(2) [OF i(1,2), of x] contents_ok(2) [OF i(1,3), of x]
  let ?del = "deleted_rows (?D x) (?D' x)"
  have del: "is_set ?del" "keys ?del = S x - S' x"
    using deleted_rows_set [OF can] x by (simp_all add: S S' base_sets_def)
  have delsub: "keys ?del \<subseteq> support (?D x)" using deleted_rows_set(2) [OF can] by blast
  show ?case
  proof (cases "?del = []")
    case True
    then have "S x - S' x = {}" using del(2) by simp
    then show ?thesis
      using Cons.IH [OF rels Cons.prems(2,3)] True contents_ok(1) [OF i(1,2), of x] contents_ok(1) [OF i(1,3), of x]
      by (auto simp: Let_def)
  next
    case False
    obtain vi where vi: "eval_with fuel ?init ops s ?at None [x \<mapsto> ?del] = Inr vi" "good vi"
      "support vi = set_value ?init (S(x := keys ?del)) {}"
      using eval_over_ok [OF i(1,2) w(1,2) _ w(3) x del(1) delsub, of None] by (auto simp: S recur_set_def)
    obtain vs where vs: "eval_with fuel ?step ops s ?at (Some ?r) [x \<mapsto> ?del] = Inr vs" "good vs"
      "support vs = set_value ?step (S(x := keys ?del)) (keys ?r)"
      using eval_over_ok [OF i(1,2) w(1,2) _ w(4) x del(1) delsub, of "Some ?r"] r
      by (auto simp: S recur_set_def is_set_support)
    let ?ts = "map fst (as_set vi) @ map fst (as_set vs)"
    obtain od1 where od1: "foldl (seed ?r) (od, od) ?ts = (od1, od1)" "is_set od1"
      "keys od1 = keys od \<union> {t \<in> set ?ts. t \<in> keys ?r}"
      using seed_fold [OF Cons.prems(2)] by blast
    have ts: "set ?ts = support vi \<union> support vs"
      using is_set_as_set(2) [OF vi(2)] is_set_as_set(2) [OF vs(2)] by (simp add: keys_def)
    have sub: "keys od1 \<subseteq> keys ?r" using od1(3) Cons.prems(3) by auto
    have now: "(set_value ?init (S(x := S x - S' x)) {} \<union> set_value ?step (S(x := S x - S' x)) (keys ?r)) \<inter>
        keys ?r \<subseteq> keys od1"
      unfolding od1(3) ts vi(3) vs(3) del(2) by blast
    have run: "seed_all fuel fx ops s to (x # rels) (od, od) = seed_all fuel fx ops s to rels (od1, od1)"
      using False vi(1) vs(1) od1(1) contents_ok(1) [OF i(1,2), of x] contents_ok(1) [OF i(1,3), of x]
      by (simp add: Let_def)
    obtain od' where od': "seed_all fuel fx ops s to rels (od1, od1) = Inr (od', od')" "is_set od'"
      "keys od1 \<subseteq> keys od'" "keys od' \<subseteq> keys ?r"
      "\<forall>x\<in>set rels. S x - S' x \<noteq> {} \<longrightarrow>
         (set_value ?init (S(x := S x - S' x)) {} \<union> set_value ?step (S(x := S x - S' x)) (keys ?r)) \<inter>
           keys ?r \<subseteq> keys od'"
      using Cons.IH [OF rels od1(2) sub] by blast
    have "keys od \<subseteq> keys od'" using od1(3) od'(3) by blast
    moreover have "\<forall>y\<in>set (x # rels). S y - S' y \<noteq> {} \<longrightarrow>
         (set_value ?init (S(y := S y - S' y)) {} \<union> set_value ?step (S(y := S y - S' y)) (keys ?r)) \<inter>
           keys ?r \<subseteq> keys od'"
      using od'(3,5) now by (simp only: list.set ball_simps) blast
    ultimately show ?thesis unfolding run using od'(1,2,4) by blast
  qed
qed

lemma overdelete_ok:
  assumes i: "inv s" "ts_watermark ops s \<le> fx_at fx" "ts_watermark ops s \<le> to"
    and w: "world_ok fuel (W s) (contents ops s (fx_at fx)) (fx_at fx) ar V (fx_init fx) (fx_step fx)"
      "maintainable ar n (fx_init fx) (fx_step fx)" "arcs_ok env (fx_init fx)" "arcs_ok env (fx_step fx)"
    and V: "finite V" "card V ^ n < fuel"
    and rels: "set (fx_base_rels fx) = view_rels (fx_init fx) (fx_step fx)"
    and r: "is_set (fx_r fx)" "keys (fx_r fx) = view (fx_init fx) (fx_step fx)
      (base_sets (view_rels (fx_init fx) (fx_step fx)) (contents ops s (fx_at fx)))"
  shows "\<exists>surv rounds. overdelete fuel fx ops s to = Inr (surv, rounds) \<and> is_set surv \<and>
    keys surv \<subseteq> view (fx_init fx) (fx_step fx)
      (base_sets (view_rels (fx_init fx) (fx_step fx)) (contents ops s to))"
proof -
  let ?at = "fx_at fx" and ?init = "fx_init fx" and ?step = "fx_step fx" and ?r = "fx_r fx"
  define S where "S = base_sets (view_rels ?init ?step) (contents ops s ?at)"
  define S' where "S' = base_sets (view_rels ?init ?step) (contents ops s to)"
  let ?U = "universe n V"
  have rU: "keys ?r \<subseteq> ?U" using r(2) view_universe [OF w(1,2)] by simp
  have j: "joins_ok ?init" "joins_ok ?step" using w(2) by (simp_all add: maintainable_def)
  have add: "set_value ?step S (A \<union> B) = set_value ?step S A \<union> set_value ?step S B" for A B
    by (rule set_value_additive [OF j(2)])
  obtain od0 where od0: "seed_all fuel fx ops s to (fx_base_rels fx) ([], []) = Inr (od0, od0)" "is_set od0"
    "keys od0 \<subseteq> keys ?r"
    "\<forall>x\<in>set (fx_base_rels fx). S x - S' x \<noteq> {} \<longrightarrow>
       (set_value ?init (S(x := S x - S' x)) {} \<union> set_value ?step (S(x := S x - S' x)) (keys ?r)) \<inter>
         keys ?r \<subseteq> keys od0"
    using seed_all_ok [OF i w r(1) rU S_def S'_def, of "fx_base_rels fx" "[]"] rels by auto
  have fuel: "card (keys ?r) < fuel"
    using card_mono [OF finite_universe [OF V(1)] rU] V by (simp add: card_universe)
  obtain od rounds where od: "propagate fuel fuel fx ops s od0 od0 0 = Inr (od, rounds)" "is_set od"
    "keys od0 \<subseteq> keys od" "keys od \<subseteq> keys ?r"
    "keys od = {} \<or> set_value ?step S (keys od) \<inter> keys ?r \<subseteq> keys od"
    using propagate_closed [where U = ?U and fuel = fuel and ops = ops and s = s and k = fuel and i = 0,
        OF add r(1) rU _ od0(2) od0(2) _ od0(3)] eval_step_ok [OF i(1,2) w(1,2,4)] fuel
    unfolding S_def by auto
  have broken: "t \<in> set_value q S' X \<or> t \<in> keys od"
    if q: "q = ?init \<and> X = {} \<or> q = ?step \<and> X \<subseteq> keys ?r" and t: "t \<in> set_value q S X" "t \<in> keys ?r" for q t X
  proof (rule disjCI)
    assume no: "t \<notin> keys od"
    show "t \<in> set_value q S' X"
    proof (rule ccontr)
      assume "t \<notin> set_value q S' X"
      moreover have "joins_ok q" using q j by auto
      ultimately obtain x where x: "x \<in> collect_base_relations q" "S x - S' x \<noteq> {}"
        "t \<in> set_value q (S(x := S x - S' x)) X"
        using broken_derivation t(1) by blast
      have "x \<in> set (fx_base_rels fx)" using x(1) q rels by (auto simp: view_rels_def)
      with x(2) od0(4) have sub: "(set_value ?init (S(x := S x - S' x)) {} \<union>
          set_value ?step (S(x := S x - S' x)) (keys ?r)) \<inter> keys ?r \<subseteq> keys od0" by blast
      have "t \<in> set_value ?init (S(x := S x - S' x)) {} \<union> set_value ?step (S(x := S x - S' x)) (keys ?r)"
        using x(3) q set_value_mono [of "S(x := S x - S' x)" "S(x := S x - S' x)" X "keys ?r" ?step] by blast
      with sub t(2) od(3) no show False by blast
    qed
  qed
  let ?surv = "subtract_in_place ?r od"
  have "keys ?r - keys od \<subseteq> view ?init ?step S'"
  proof (rule survivors_sound [where F = "set_value ?step S" and F' = "set_value ?step S'" and r = "keys ?r"
        and I = "set_value ?init S {}" and I' = "set_value ?init S' {}"])
    show "mono (set_value ?step S')" by (rule monoI) (rule set_value_mono, auto)
    show "keys ?r = lfp (\<lambda>X. set_value ?init S {} \<union> set_value ?step S X)"
      by (simp add: r(2) S_def view_def view_step_def [abs_def])
    show "view ?init ?step S' = lfp (\<lambda>X. set_value ?init S' {} \<union> set_value ?step S' X)"
      by (simp add: view_def view_step_def [abs_def])
    have I: "set_value ?init S {} \<subseteq> keys ?r"
      using view_unfold [of ?init ?step S] by (simp add: r(2) S_def view_step_def) blast
    show "t \<in> set_value ?init S' {} \<or> t \<in> keys od" if "t \<in> set_value ?init S {}" for t
      using broken [of ?init "{}" t] that I by blast
    show "t \<in> set_value ?step S' X \<or> t \<in> keys od"
      if "X \<subseteq> keys ?r" "t \<in> keys ?r" "t \<in> set_value ?step S X" for t X
      using broken [of ?step X t] that by blast
  qed (use add od in auto)
  then have "keys ?surv \<subseteq> view ?init ?step S'" by (simp add: keys_subtract)
  then show ?thesis using od0(1) od(1) r(1) by (simp add: overdelete_def S'_def)
qed

lemma is_monotone_ok:
  assumes "inv s" "ts_watermark ops s \<le> from" "ts_watermark ops s \<le> to"
  shows "is_monotone ops s rels from to =
    Inr (\<forall>r\<in>set rels. support (contents ops s from r) \<subseteq> support (contents ops s to r))"
proof (induction rels)
  case (Cons r rels)
  then show ?case
    using contents_ok(1,2) [OF assms(1,2), of r] contents_ok(1,2) [OF assms(1,3), of r]
    by (simp add: vanished_iff)
qed simp

lemma view_value:
  assumes i: "inv s" "ts_watermark ops s \<le> e"
    and w: "world_ok fuel (W s) (contents ops s e) e ar V init step"
    and ty: "same_arity ar n init step" and V: "finite V" "card V ^ n < fuel"
  shows "\<exists>out. query_value fuel (QIterate init step) (contents ops s e) None None = Inr out \<and> is_set out \<and>
    keys out = view init step (base_sets (view_rels init step) (contents ops s e))"
proof -
  let ?RS = "view_rels init step"
  have g: "good (only ?RS (contents ops s e) r)" for r
    using w contents_ok(2) [OF i] by (auto simp: only_def good_def world_ok_def)
  have "\<exists>out. query_value fuel (QIterate init step) (only ?RS (contents ops s e)) None None = Inr out \<and>
      is_set out \<and> keys out = view init step (\<lambda>r. support (only ?RS (contents ops s e) r))"
    by (rule iterate_value [where ar = ar and n = n and V = V])
      (use g ty V w in \<open>auto simp: world_ok_def only_def\<close>)
  then show ?thesis
    using only_value [of "QIterate init step" ?RS] by (simp add: base_sets_only view_rels_def)
qed

lemma advance_correct:
  assumes i: "inv s" "ts_watermark ops s \<le> fx_at fx" "ts_watermark ops s \<le> to"
    and old: "world_ok fuel (W s) (contents ops s (fx_at fx)) (fx_at fx) ar V (fx_init fx) (fx_step fx)"
    and new: "world_ok fuel (W s) (contents ops s to) to ar V (fx_init fx) (fx_step fx)"
    and m: "maintainable ar n (fx_init fx) (fx_step fx)" "arcs_ok env (fx_init fx)" "arcs_ok env (fx_step fx)"
    and V: "finite V" "card V ^ n < fuel"
    and rels: "set (fx_base_rels fx) = view_rels (fx_init fx) (fx_step fx)"
    and r: "query_value fuel (QIterate (fx_init fx) (fx_step fx)) (contents ops s (fx_at fx)) None None = Inr (fx_r fx)"
  shows "\<exists>d fx'. advance fuel fx ops s to = Inr (d, fx') \<and> fx_at fx' = to \<and>
    fx_init fx' = fx_init fx \<and> fx_step fx' = fx_step fx \<and> fx_base_rels fx' = fx_base_rels fx \<and>
    query_value fuel (QIterate (fx_init fx) (fx_step fx)) (contents ops s to) None None = Inr (fx_r fx') \<and>
    is_delta d (fx_r fx) (fx_r fx')"
proof -
  let ?init = "fx_init fx" and ?step = "fx_step fx"
  let ?RS = "view_rels ?init ?step"
  let ?S = "\<lambda>e. base_sets ?RS (contents ops s e)"
  have ty: "same_arity ar n ?init ?step" using m(1) by (simp add: maintainable_def)
  note val = view_value [OF i(1) _ _ ty V]
  from val [OF i(2) old] r have r': "is_set (fx_r fx)" "keys (fx_r fx) = view ?init ?step (?S (fx_at fx))" by auto
  from val [OF i(3) new] obtain out where out: "query_value fuel (QIterate ?init ?step) (contents ops s to) None None = Inr out"
    "is_set out" "keys out = view ?init ?step (?S to)" by blast
  let ?mono = "\<forall>x\<in>set (fx_base_rels fx). support (contents ops s (fx_at fx) x) \<subseteq> support (contents ops s to x)"
  obtain start rounds path where start: "(if ?mono then Inr (fx_r fx, 0, Grow)
            else rbind (overdelete fuel fx ops s to) (\<lambda>(survivors, rounds).
                   Inr (survivors, rounds, DeleteRederive))) = Inr (start, rounds, path)"
    "is_set start" "keys start \<subseteq> view ?init ?step (?S to)"
  proof (cases ?mono)
    case True
    have "view ?init ?step (?S (fx_at fx)) \<subseteq> view ?init ?step (?S to)"
      by (rule view_mono) (use True rels in \<open>auto simp: base_sets_def\<close>)
    then show ?thesis using that [of "fx_r fx" 0 Grow] True r' by auto
  next
    case False
    obtain surv k where "overdelete fuel fx ops s to = Inr (surv, k)" "is_set surv"
      "keys surv \<subseteq> view ?init ?step (?S to)"
      using overdelete_ok [OF i old m V rels r'] by blast
    then show ?thesis using that [of surv k DeleteRederive] unfolding if_not_P [OF False] by simp
  qed
  obtain g iters where g: "grow fuel fx ops s to start = Inr (g, iters)" "is_set g"
    "keys g = view ?init ?step (?S to)"
    using grow_ok [OF i(1,3) new m V start(2,3)] by blast
  have "g = out" by (rule is_set_eqI) (use g out in auto)
  have "advance fuel fx ops s to = Inr (set_difference g (fx_r fx),
            fx\<lparr>fx_last_path := path, fx_last_overdeletion_rounds := rounds,
               fx_last_iterations := iters, fx_r := g, fx_at := to\<rparr>)"
    unfolding advance_def is_monotone_ok [OF i] rbind.simps start(1) by (simp add: g(1))
  then show ?thesis
    using out(1) set_difference_delta [OF g(2) r'(1)] by (simp add: \<open>g = out\<close>)
qed

end

end
