(* ===== verification/Schema.thy ===== *)
theory Schema
  imports Values
begin

text \<open>
  Relation schemas (\<^verbatim>\<open>grmpl-core/src/schema.rs\<close>): an ordered list of named, typed
  columns, what inhabits a column, and the additive evolution that is the only change of a
  schema the registry accepts.
\<close>

section \<open>Types, columns and schemas\<close>

datatype ty = TyEnt | TyInt | TyFloat | TyText | TyBool | TyTuple | TyBytes | TyCode | TyAny

fun ty_admits :: "ty \<Rightarrow> val \<Rightarrow> bool" where
  "ty_admits TyAny v = True"
| "ty_admits TyEnt v = (case v of VEnt _ \<Rightarrow> True | _ \<Rightarrow> False)"
| "ty_admits TyInt v = (case v of VInt _ \<Rightarrow> True | _ \<Rightarrow> False)"
| "ty_admits TyFloat v = (case v of VFloat _ \<Rightarrow> True | _ \<Rightarrow> False)"
| "ty_admits TyText v = (case v of VText _ \<Rightarrow> True | _ \<Rightarrow> False)"
| "ty_admits TyBool v = (case v of VBool _ \<Rightarrow> True | _ \<Rightarrow> False)"
| "ty_admits TyTuple v = (case v of VTuple _ \<Rightarrow> True | _ \<Rightarrow> False)"
| "ty_admits TyBytes v = (case v of VBytes _ \<Rightarrow> True | _ \<Rightarrow> False)"
| "ty_admits TyCode v = (case v of VCode _ \<Rightarrow> True | _ \<Rightarrow> False)"

fun ty_name :: "ty \<Rightarrow> string" where
  "ty_name TyEnt = ''Ent''"
| "ty_name TyInt = ''Int''"
| "ty_name TyFloat = ''Float''"
| "ty_name TyText = ''Text''"
| "ty_name TyBool = ''Bool''"
| "ty_name TyTuple = ''Tuple''"
| "ty_name TyBytes = ''Bytes''"
| "ty_name TyCode = ''Code''"
| "ty_name TyAny = ''Any''"

definition ty_parse :: "string \<Rightarrow> ty option" where
  "ty_parse name =
     (if name = ''Ent'' then Some TyEnt
      else if name = ''Int'' then Some TyInt
      else if name = ''Float'' then Some TyFloat
      else if name = ''Text'' then Some TyText
      else if name = ''Bool'' then Some TyBool
      else if name = ''Tuple'' then Some TyTuple
      else if name = ''Bytes'' then Some TyBytes
      else if name = ''Code'' then Some TyCode
      else if name = ''Any'' then Some TyAny
      else None)"

record column =
  col_name :: string
  col_ty :: ty

type_synonym schema = "column list"

fun position :: "('a \<Rightarrow> bool) \<Rightarrow> 'a list \<Rightarrow> nat option" where
  "position P [] = None"
| "position P (x # xs) = (if P x then Some 0 else map_option Suc (position P xs))"

definition column_index :: "schema \<Rightarrow> string \<Rightarrow> nat option" where
  "column_index s name = position (\<lambda>c. col_name c = name) s"

definition schema_column :: "schema \<Rightarrow> string \<Rightarrow> column option" where
  "schema_column s name = List.find (\<lambda>c. col_name c = name) s"

text \<open>\<open>check\<close>: an error message, or nothing when the tuple is well typed.\<close>

fun check_columns :: "schema \<Rightarrow> tuple \<Rightarrow> string option" where
  "check_columns (c # cs) (v # vs) =
     (if \<not> ty_admits (col_ty c) v then Some (''column expects '' @ ty_name (col_ty c))
      else check_columns cs vs)"
| "check_columns cs vs = None"

definition schema_check :: "schema \<Rightarrow> tuple \<Rightarrow> string option" where
  "schema_check s t =
     (if length t \<noteq> length s then Some ''arity mismatch'' else check_columns s t)"

definition is_additive_over :: "schema \<Rightarrow> schema \<Rightarrow> bool" where
  "is_additive_over s prev \<longleftrightarrow> length prev \<le> length s \<and> take (length prev) s = prev"

section \<open>What the schema checks guarantee\<close>

lemma ty_parse_name: "ty_parse name = Some t \<longleftrightarrow> name = ty_name t"
  by (cases t) (auto simp: ty_parse_def)

lemma position_Some:
  "position P xs = Some i \<longleftrightarrow> i < length xs \<and> P (xs ! i) \<and> (\<forall>j<i. \<not> P (xs ! j))"
proof (induction xs arbitrary: i)
  case Nil
  then show ?case by simp
next
  case (Cons x xs)
  show ?case
    by (cases i) (auto simp: Cons All_less_Suc2)
qed

lemma position_append: "position P xs = Some i \<Longrightarrow> position P (xs @ ys) = Some i"
  by (induction xs arbitrary: i) auto

lemma check_columns_None:
  "length cs = length vs \<Longrightarrow>
     check_columns cs vs = None \<longleftrightarrow> list_all2 (\<lambda>c v. ty_admits (col_ty c) v) cs vs"
  by (induction cs vs rule: list_induct2) auto

lemma schema_check_None:
  "schema_check s t = None \<longleftrightarrow> list_all2 (\<lambda>c v. ty_admits (col_ty c) v) s t"
  using check_columns_None [of s t] list_all2_lengthD [of _ s t]
  by (auto simp: schema_check_def)

lemma additive_iff: "is_additive_over s prev \<longleftrightarrow> (\<exists>cols. s = prev @ cols)"
proof
  assume "is_additive_over s prev"
  then have "s = prev @ drop (length prev) s"
    by (metis append_take_drop_id is_additive_over_def)
  then show "\<exists>cols. s = prev @ cols" by blast
qed (auto simp: is_additive_over_def)

lemma additive_refl [simp]: "is_additive_over s s"
  by (simp add: additive_iff)

lemma additive_trans: "is_additive_over c b \<Longrightarrow> is_additive_over b a \<Longrightarrow> is_additive_over c a"
  by (auto simp: additive_iff)

lemma additive_column_index:
  "is_additive_over s prev \<Longrightarrow> column_index prev name = Some i \<Longrightarrow> column_index s name = Some i"
  by (auto simp: additive_iff column_index_def position_append)

lemma additive_check:
  "is_additive_over s prev \<Longrightarrow> schema_check s t = None \<Longrightarrow> schema_check prev (take (length prev) t) = None"
  by (auto simp: additive_iff schema_check_None list_all2_append1)

end
