(* ===== verification/Wire.thy ===== *)
theory Wire
  imports Schema
begin

text \<open>
  The canonical serialization of values, tuples, messages and schemas
  (\<^verbatim>\<open>grmpl-core/src/wire.rs\<close>). Decoders
  read a byte string at a position and return the position after, as in the source. What
  \<open>Vec::with_capacity\<close> reserves is given by \<open>capacity\<close> and does not affect a result.
\<close>

section \<open>Big-endian words and UTF-8\<close>

text \<open>\<open>to_be_bytes\<close> of a \<open>k\<close>-byte word, and its reading.\<close>

fun be_bytes :: "nat \<Rightarrow> nat \<Rightarrow> bytes" where
  "be_bytes 0 n = []"
| "be_bytes (Suc k) n = be_bytes k (n div 256) @ [word_of_nat (n mod 256)]"

definition be_value :: "bytes \<Rightarrow> nat" where
  "be_value bs = foldl (\<lambda>a b. a * 256 + unat b) 0 bs"

lemma length_be_bytes [simp]: "length (be_bytes k n) = k"
  by (induction k arbitrary: n) auto

lemma be_value_snoc [simp]: "be_value (bs @ [b]) = be_value bs * 256 + unat b"
  by (simp add: be_value_def)

lemma be_value_be_bytes: "be_value (be_bytes k n) = n mod 256 ^ k"
proof (induction k arbitrary: n)
  case 0
  then show ?case by (simp add: be_value_def)
next
  case (Suc k)
  have "unat (word_of_nat (n mod 256) :: u8) = n mod 256"
    by (simp add: unat_of_nat)
  then show ?case by (simp add: Suc mod_mult2_eq)
qed

lemma be_value_less: "be_value bs < 256 ^ length bs"
proof (induction bs rule: rev_induct)
  case (snoc b bs)
  have "unat b < 2 ^ LENGTH(8)" by (rule unsigned_less)
  then show ?case using snoc by simp
qed (simp add: be_value_def)

text \<open>
  \<open>str::from_utf8\<close>: the well-formed byte sequences. A Rust string is always one, so
  \<open>text_ok\<close> holds of every text the program can hold.
\<close>

definition cont :: "u8 \<Rightarrow> bool" where
  "cont b \<longleftrightarrow> 0x80 \<le> b \<and> b \<le> 0xBF"

definition lead2 :: "u8 \<Rightarrow> bool" where
  "lead2 a \<longleftrightarrow> 0xC2 \<le> a \<and> a \<le> 0xDF"

definition lead3 :: "u8 \<Rightarrow> u8 \<Rightarrow> bool" where
  "lead3 a b \<longleftrightarrow> 0xE0 \<le> a \<and> a \<le> 0xEF \<and> cont b \<and> (a = 0xE0 \<longrightarrow> 0xA0 \<le> b) \<and> (a = 0xED \<longrightarrow> b \<le> 0x9F)"

definition lead4 :: "u8 \<Rightarrow> u8 \<Rightarrow> bool" where
  "lead4 a b \<longleftrightarrow> 0xF0 \<le> a \<and> a \<le> 0xF4 \<and> cont b \<and> (a = 0xF0 \<longrightarrow> 0x90 \<le> b) \<and> (a = 0xF4 \<longrightarrow> b \<le> 0x8F)"

fun utf8_ok :: "bytes \<Rightarrow> bool" where
  "utf8_ok [] = True"
| "utf8_ok (a # bs) =
     (if a < 0x80 then utf8_ok bs
      else case bs of
        [] \<Rightarrow> False
      | b # bs2 \<Rightarrow>
          if lead2 a then cont b \<and> utf8_ok bs2
          else case bs2 of
            [] \<Rightarrow> False
          | c # bs3 \<Rightarrow>
              if lead3 a b then cont c \<and> utf8_ok bs3
              else case bs3 of
                [] \<Rightarrow> False
              | d # bs4 \<Rightarrow> lead4 a b \<and> cont c \<and> cont d \<and> utf8_ok bs4)"

definition text_bytes :: "string \<Rightarrow> bytes" where
  "text_bytes s = map (\<lambda>c. word_of_nat (of_char c)) s"

definition bytes_text :: "bytes \<Rightarrow> string" where
  "bytes_text bs = map (\<lambda>b. char_of (unat b)) bs"

definition text_ok :: "string \<Rightarrow> bool" where
  "text_ok s \<longleftrightarrow> utf8_ok (text_bytes s)"

lemma unat_of_char [simp]: "unat (word_of_nat (of_char c) :: u8) = of_char c"
proof -
  have "of_char c < (256::nat)" by (rule nat_of_char_less_256)
  then show ?thesis by (simp add: unat_of_nat)
qed

lemma word_of_unat_mod [simp]: "word_of_nat (unat (b :: u8) mod 256) = b"
proof -
  have "unat b < 2 ^ LENGTH(8)" by (rule unsigned_less)
  then show ?thesis by simp
qed

lemma bytes_text_bytes [simp]: "bytes_text (text_bytes s) = s"
  by (simp add: text_bytes_def bytes_text_def comp_def)

lemma length_text_bytes [simp]: "length (text_bytes s) = length s"
  by (simp add: text_bytes_def)

lemma text_bytes_text [simp]: "text_bytes (bytes_text bs) = bs"
  by (simp add: text_bytes_def bytes_text_def comp_def)

section \<open>Encoding\<close>

definition FORMAT_VERSION :: u8 where "FORMAT_VERSION = 11"
definition MAX_DEPTH :: nat where "MAX_DEPTH = 64"

definition TAG_ENT :: u8 where "TAG_ENT = 1"
definition TAG_INT :: u8 where "TAG_INT = 2"
definition TAG_TEXT :: u8 where "TAG_TEXT = 3"
definition TAG_BOOL :: u8 where "TAG_BOOL = 4"
definition TAG_TUPLE :: u8 where "TAG_TUPLE = 5"
definition TAG_BYTES :: u8 where "TAG_BYTES = 6"
definition TAG_CODE :: u8 where "TAG_CODE = 7"
definition TAG_FLOAT :: u8 where "TAG_FLOAT = 8"

lemmas tag_defs = TAG_ENT_def TAG_INT_def TAG_TEXT_def TAG_BOOL_def TAG_TUPLE_def TAG_BYTES_def
  TAG_CODE_def TAG_FLOAT_def

fun ty_tag :: "ty \<Rightarrow> u8" where
  "ty_tag TyEnt = 1"
| "ty_tag TyInt = 2"
| "ty_tag TyText = 3"
| "ty_tag TyBool = 4"
| "ty_tag TyTuple = 5"
| "ty_tag TyAny = 6"
| "ty_tag TyBytes = 7"
| "ty_tag TyCode = 8"
| "ty_tag TyFloat = 9"

definition codec :: "string \<Rightarrow> failure" where
  "codec msg = Err (ECodec msg)"

definition ty_from_tag :: "u8 \<Rightarrow> ty result" where
  "ty_from_tag tag =
     (if tag = 1 then Inr TyEnt
      else if tag = 2 then Inr TyInt
      else if tag = 9 then Inr TyFloat
      else if tag = 3 then Inr TyText
      else if tag = 4 then Inr TyBool
      else if tag = 5 then Inr TyTuple
      else if tag = 7 then Inr TyBytes
      else if tag = 8 then Inr TyCode
      else if tag = 6 then Inr TyAny
      else Inl (codec ''unknown column-type tag''))"

text \<open>A length as a \<open>u32\<close>: the cast keeps it modulo \<open>2\<^sup>3\<^sup>2\<close>.\<close>

definition len32 :: "nat \<Rightarrow> bytes" where
  "len32 n = be_bytes 4 n"

fun encode_value :: "val \<Rightarrow> bytes" where
  "encode_value (VEnt e) = TAG_ENT # be_bytes 8 (unat e)"
| "encode_value (VInt i) = TAG_INT # be_bytes 8 (unat i)"
| "encode_value (VFloat b) = TAG_FLOAT # be_bytes 8 (unat b)"
| "encode_value (VText s) = TAG_TEXT # len32 (length (text_bytes s)) @ text_bytes s"
| "encode_value (VBool b) = [TAG_BOOL, if b then 1 else 0]"
| "encode_value (VTuple vs) = TAG_TUPLE # len32 (length vs) @ concat (map encode_value vs)"
| "encode_value (VBytes b) = TAG_BYTES # len32 (length b) @ b"
| "encode_value (VCode b) = TAG_CODE # len32 (length b) @ b"

definition encode_tuple :: "tuple \<Rightarrow> bytes" where
  "encode_tuple t = len32 (length t) @ concat (map encode_value t)"

record message =
  m_inbox :: rel_id
  m_body :: tuple

definition encode_message :: "message \<Rightarrow> bytes" where
  "encode_message m = FORMAT_VERSION # be_bytes 4 (unat (m_inbox m)) @ encode_tuple (m_body m)"

definition encode_column :: "column \<Rightarrow> bytes" where
  "encode_column c = ty_tag (col_ty c) # len32 (length (text_bytes (col_name c))) @ text_bytes (col_name c)"

definition encode_schema :: "schema \<Rightarrow> bytes" where
  "encode_schema s = FORMAT_VERSION # len32 (length s) @ concat (map encode_column s)"

section \<open>Decoding\<close>

definition read_version :: "bytes \<Rightarrow> nat result" where
  "read_version bs = (case bs of
     [] \<Rightarrow> Inl (codec ''empty buffer (no format version)'')
   | b # _ \<Rightarrow> if b = FORMAT_VERSION then Inr 1 else Inl (codec ''unsupported format version''))"

definition capacity :: "nat \<Rightarrow> bytes \<Rightarrow> nat \<Rightarrow> nat" where
  "capacity n bs pos = min n (length bs - pos)"

definition read_slice :: "bytes \<Rightarrow> nat \<Rightarrow> nat \<Rightarrow> (bytes \<times> nat) result" where
  "read_slice bs pos len =
     (if pos + len \<le> length bs then Inr (take len (drop pos bs), pos + len)
      else Inl (codec ''unexpected end''))"

definition read_u32 :: "bytes \<Rightarrow> nat \<Rightarrow> (nat \<times> nat) result" where
  "read_u32 bs pos = rbind (read_slice bs pos 4) (\<lambda>(s, pos). Inr (be_value s, pos))"

definition read_u64 :: "bytes \<Rightarrow> nat \<Rightarrow> (u64 \<times> nat) result" where
  "read_u64 bs pos = rbind (read_slice bs pos 8) (\<lambda>(s, pos). Inr (word_of_nat (be_value s), pos))"

definition read_byte :: "bytes \<Rightarrow> nat \<Rightarrow> u8 result" where
  "read_byte bs pos = (if pos < length bs then Inr (bs ! pos) else Inl (codec ''unexpected end''))"

text \<open>A length prefix and that many bytes.\<close>

definition read_counted :: "bytes \<Rightarrow> nat \<Rightarrow> (bytes \<times> nat) result" where
  "read_counted bs pos = rbind (read_u32 bs pos) (\<lambda>(len, pos). read_slice bs pos len)"

definition from_utf8 :: "bytes \<Rightarrow> string result" where
  "from_utf8 bs = (if utf8_ok bs then Inr (bytes_text bs) else Inl (codec ''invalid utf-8''))"

function decode_value_at :: "bytes \<Rightarrow> nat \<Rightarrow> nat \<Rightarrow> (val \<times> nat) result"
  and decode_n :: "bytes \<Rightarrow> nat \<Rightarrow> nat \<Rightarrow> nat \<Rightarrow> (val list \<times> nat) result" where
  "decode_value_at bs pos depth =
     rbind (read_byte bs pos) (\<lambda>tag. let pos = pos + 1 in
       if tag = TAG_ENT then rbind (read_u64 bs pos) (\<lambda>(w, pos). Inr (VEnt w, pos))
       else if tag = TAG_INT then rbind (read_u64 bs pos) (\<lambda>(w, pos). Inr (VInt w, pos))
       else if tag = TAG_FLOAT then
         rbind (read_u64 bs pos) (\<lambda>(w, pos).
           case finite_from_bits w of
             None \<Rightarrow> Inl (codec ''non-finite float payload'') | Some f \<Rightarrow> Inr (VFloat f, pos))
       else if tag = TAG_TEXT then
         rbind (read_counted bs pos) (\<lambda>(s, pos). rbind (from_utf8 s) (\<lambda>t. Inr (VText t, pos)))
       else if tag = TAG_BOOL then
         rbind (read_byte bs pos) (\<lambda>b. Inr (VBool (b \<noteq> 0), pos + 1))
       else if tag = TAG_TUPLE then
         (if MAX_DEPTH \<le> depth then Inl (codec ''value nests deeper than MAX_DEPTH tuples'')
          else rbind (read_u32 bs pos) (\<lambda>(len, pos).
                 rbind (decode_n bs pos (depth + 1) len) (\<lambda>(vals, pos). Inr (VTuple vals, pos))))
       else if tag = TAG_BYTES then rbind (read_counted bs pos) (\<lambda>(s, pos). Inr (VBytes s, pos))
       else if tag = TAG_CODE then rbind (read_counted bs pos) (\<lambda>(s, pos). Inr (VCode s, pos))
       else Inl (codec ''unknown value tag''))"
| "decode_n bs pos depth n =
     (case n of
        0 \<Rightarrow> Inr ([], pos)
      | Suc m \<Rightarrow>
          rbind (decode_value_at bs pos depth) (\<lambda>(v, pos).
            rbind (decode_n bs pos depth m) (\<lambda>(vals, pos). Inr (v # vals, pos))))"
  by pat_completeness auto

text \<open>
  The depth bound is what ends the recursion into tuples; the count ends the loop over one
  tuple's cells.
\<close>

termination
  by (relation "measures [\<lambda>x. case x of Inl (bs, pos, depth) \<Rightarrow> Suc MAX_DEPTH - depth
                                       | Inr (bs, pos, depth, n) \<Rightarrow> Suc MAX_DEPTH - depth,
                          \<lambda>x. case x of Inl (bs, pos, depth) \<Rightarrow> 0 | Inr (bs, pos, depth, n) \<Rightarrow> n]")
    auto

declare decode_value_at.simps [simp del] decode_n.simps [simp del]

definition decode_cells :: "bytes \<Rightarrow> nat \<Rightarrow> nat \<Rightarrow> (val list \<times> nat) result" where
  "decode_cells bs pos depth = rbind (read_u32 bs pos) (\<lambda>(len, pos). decode_n bs pos depth len)"

definition decode_value :: "bytes \<Rightarrow> nat \<Rightarrow> (val \<times> nat) result" where
  "decode_value bs pos = decode_value_at bs pos 0"

definition decode_tuple :: "bytes \<Rightarrow> nat \<Rightarrow> (tuple \<times> nat) result" where
  "decode_tuple bs pos = decode_cells bs pos 0"

text \<open>\<open>map_err\<close> to a codec error with its own message.\<close>

definition codec_err :: "string \<Rightarrow> 'a result \<Rightarrow> 'a result" where
  "codec_err msg r = (case r of Inl e \<Rightarrow> Inl (codec msg) | Inr x \<Rightarrow> Inr x)"

definition decode_message :: "bytes \<Rightarrow> message result" where
  "decode_message bs =
     rbind (read_version bs) (\<lambda>pos.
     rbind (codec_err ''message shorter than inbox header'' (read_u32 bs pos)) (\<lambda>(inbox, pos).
     rbind (decode_tuple bs pos) (\<lambda>(body, pos).
       if pos \<noteq> length bs then Inl (codec ''trailing bytes after message body'')
       else Inr \<lparr>m_inbox = word_of_nat inbox, m_body = body\<rparr>)))"

fun decode_columns :: "bytes \<Rightarrow> nat \<Rightarrow> nat \<Rightarrow> (schema \<times> nat) result" where
  "decode_columns bs pos 0 = Inr ([], pos)"
| "decode_columns bs pos (Suc n) =
     rbind (read_byte bs pos) (\<lambda>tag.
     rbind (ty_from_tag tag) (\<lambda>ty.
     rbind (read_counted bs (pos + 1)) (\<lambda>(s, pos).
     rbind (from_utf8 s) (\<lambda>name.
     rbind (decode_columns bs pos n) (\<lambda>(cols, pos).
       Inr (\<lparr>col_name = name, col_ty = ty\<rparr> # cols, pos))))))"

definition decode_schema :: "bytes \<Rightarrow> schema result" where
  "decode_schema bs =
     rbind (read_version bs) (\<lambda>pos.
     rbind (read_u32 bs pos) (\<lambda>(ncols, pos).
     rbind (decode_columns bs pos ncols) (\<lambda>(cols, pos).
       if pos \<noteq> length bs then Inl (codec ''trailing bytes after schema'') else Inr cols)))"


lemma codec_err_Inr_iff [simp]: "codec_err msg r = Inr x \<longleftrightarrow> r = Inr x"
  by (simp add: codec_err_def split: sum.splits)

lemma codec_err_Inr [simp]: "codec_err msg (Inr x) = Inr x"
  by (simp add: codec_err_def)

section \<open>Reading what was written\<close>

text \<open>\<open>s\<close> stands in \<open>bs\<close> at position \<open>pos\<close>: what a decoder meets where an encoder wrote.\<close>

definition stands_at :: "bytes \<Rightarrow> nat \<Rightarrow> bytes \<Rightarrow> bool" where
  "stands_at bs pos s \<longleftrightarrow> pos + length s \<le> length bs \<and> take (length s) (drop pos bs) = s"

lemma stands_at_append:
  "stands_at bs pos (s @ t) \<longleftrightarrow> stands_at bs pos s \<and> stands_at bs (pos + length s) t"
  by (auto simp: stands_at_def take_add add.commute add.left_commute append_eq_append_conv)

lemma stands_at_Cons:
  "stands_at bs pos (b # t) \<longleftrightarrow> pos < length bs \<and> bs ! pos = b \<and> stands_at bs (Suc pos) t"
  by (auto simp: stands_at_def take_Suc hd_drop_conv_nth drop_Suc tl_drop)

lemma stands_at_Nil [simp]: "stands_at bs pos [] \<longleftrightarrow> pos \<le> length bs"
  by (simp add: stands_at_def)

lemma stands_at_whole [simp]: "stands_at bs 0 bs"
  by (simp add: stands_at_def)

lemma stands_at_middle: "stands_at (pre @ s @ rest) (length pre) s"
  by (simp add: stands_at_def)

lemma read_slice_stands: "stands_at bs pos s \<Longrightarrow> read_slice bs pos (length s) = Inr (s, pos + length s)"
  by (simp add: read_slice_def stands_at_def)

lemma read_byte_stands: "stands_at bs pos (b # s) \<Longrightarrow> read_byte bs pos = Inr b"
  by (simp add: read_byte_def stands_at_Cons)

lemma read_u32_stands:
  "stands_at bs pos (be_bytes 4 n) \<Longrightarrow> read_u32 bs pos = Inr (n mod 2 ^ 32, pos + 4)"
  using read_slice_stands [of bs pos "be_bytes 4 n"] by (simp add: read_u32_def be_value_be_bytes)

lemma read_u64_stands:
  fixes w :: u64
  assumes "stands_at bs pos (be_bytes 8 (unat w))"
  shows "read_u64 bs pos = Inr (w, pos + 8)"
proof -
  have "unat w < 2 ^ LENGTH(64)" by (rule unsigned_less)
  then show ?thesis
    using read_slice_stands [OF assms] by (simp add: read_u64_def be_value_be_bytes)
qed

lemma read_counted_stands:
  assumes "stands_at bs pos (len32 (length s) @ s)" and "length s < 2 ^ 32"
  shows "read_counted bs pos = Inr (s, pos + 4 + length s)"
  using assms read_u32_stands [of bs pos "length s"] read_slice_stands [of bs "pos + 4" s]
  by (simp add: read_counted_def len32_def stands_at_append)

lemmas read_stands = read_byte_stands read_u32_stands read_u64_stands read_counted_stands

text \<open>
  The values the format can carry inside \<open>d\<close> tuples: what the Rust types guarantee of
  every value (UTF-8 text, canonical finite floats), lengths that fit the \<open>u32\<close> prefix, and
  nesting the decoder accepts.
\<close>

fun encodable :: "nat \<Rightarrow> val \<Rightarrow> bool" where
  "encodable d (VFloat b) = (finite_from_bits b = Some b)"
| "encodable d (VText s) = (text_ok s \<and> length s < 2 ^ 32)"
| "encodable d (VTuple vs) =
     (d < MAX_DEPTH \<and> length vs < 2 ^ 32 \<and> (\<forall>v\<in>set vs. encodable (Suc d) v))"
| "encodable d (VBytes b) = (length b < 2 ^ 32)"
| "encodable d (VCode b) = (length b < 2 ^ 32)"
| "encodable d _ = True"

definition tuple_encodable :: "tuple \<Rightarrow> bool" where
  "tuple_encodable t \<longleftrightarrow> length t < 2 ^ 32 \<and> (\<forall>v\<in>set t. encodable 0 v)"

lemma decode_n_stands:
  assumes "\<And>v pos. v \<in> set vs \<Longrightarrow> stands_at bs pos (encode_value v) \<Longrightarrow>
             decode_value_at bs pos d = Inr (v, pos + length (encode_value v))"
    and "stands_at bs pos (concat (map encode_value vs))"
  shows "decode_n bs pos d (length vs) = Inr (vs, pos + length (concat (map encode_value vs)))"
  using assms
proof (induction vs arbitrary: pos)
  case Nil
  then show ?case by (simp add: decode_n.simps)
next
  case (Cons v vs)
  have "stands_at bs pos (encode_value v)"
    and rest: "stands_at bs (pos + length (encode_value v)) (concat (map encode_value vs))"
    using Cons.prems(2) by (simp_all add: stands_at_append)
  then have "decode_value_at bs pos d = Inr (v, pos + length (encode_value v))"
    using Cons.prems(1) by simp
  moreover have "decode_n bs (pos + length (encode_value v)) d (length vs)
      = Inr (vs, pos + length (encode_value v) + length (concat (map encode_value vs)))"
    using Cons.IH [OF _ rest] Cons.prems(1) by simp
  ultimately show ?case by (simp add: decode_n.simps [of _ _ _ "Suc _"] add.assoc)
qed

lemma decode_value_stands:
  "encodable d v \<Longrightarrow> stands_at bs pos (encode_value v) \<Longrightarrow>
     decode_value_at bs pos d = Inr (v, pos + length (encode_value v))"
proof (induction v arbitrary: d pos)
  case (VTuple vs)
  let ?p = "pos + 5"
  have tag: "read_byte bs pos = Inr TAG_TUPLE"
    and len: "read_u32 bs (Suc pos) = Inr (length vs, ?p)"
    and body: "stands_at bs ?p (concat (map encode_value vs))"
    using VTuple.prems read_u32_stands [of bs "Suc pos" "length vs"]
    by (auto simp: stands_at_append stands_at_Cons len32_def read_byte_def add.commute)
  have "decode_n bs ?p (d + 1) (length vs) = Inr (vs, ?p + length (concat (map encode_value vs)))"
    by (rule decode_n_stands [OF _ body]) (use VTuple in auto)
  then show ?case
    using VTuple.prems(1) tag len
    by (simp add: decode_value_at.simps [of bs pos d] Let_def tag_defs len32_def)
next
  case (VBool b)
  then show ?case
    by (simp add: decode_value_at.simps stands_at_Cons read_byte_def tag_defs)
next
  case (VText x)
  then have "read_counted bs (Suc pos) = Inr (text_bytes x, pos + 5 + length x)"
    using read_counted_stands [of bs "Suc pos" "text_bytes x"]
    by (simp add: stands_at_Cons)
  then show ?case
    using VText by (simp add: decode_value_at.simps stands_at_Cons read_byte_def
        tag_defs text_ok_def from_utf8_def len32_def)
qed (use read_counted_stands in \<open>auto simp: decode_value_at.simps stands_at_Cons read_byte_def
       tag_defs read_u64_stands text_ok_def from_utf8_def len32_def\<close>)


lemma decode_tuple_stands:
  assumes "tuple_encodable t" and "stands_at bs pos (encode_tuple t)"
  shows "decode_tuple bs pos = Inr (t, pos + length (encode_tuple t))"
proof -
  have len: "read_u32 bs pos = Inr (length t, pos + 4)"
    using assms read_u32_stands [of bs pos "length t"]
    by (auto simp: encode_tuple_def stands_at_append len32_def tuple_encodable_def)
  have "decode_n bs (pos + 4) 0 (length t) = Inr (t, pos + 4 + length (concat (map encode_value t)))"
    by (rule decode_n_stands)
      (use assms in \<open>auto simp: tuple_encodable_def encode_tuple_def stands_at_append len32_def
         intro: decode_value_stands\<close>)
  then show ?thesis
    using len by (simp add: decode_tuple_def decode_cells_def encode_tuple_def len32_def)
qed

lemma decode_message_encode:
  assumes "tuple_encodable (m_body m)"
  shows "decode_message (encode_message m) = Inr m"
proof -
  let ?bs = "encode_message m"
  have at: "stands_at ?bs 1 (be_bytes 4 (unat (m_inbox m)) @ encode_tuple (m_body m))"
    using stands_at_whole [of ?bs] by (simp add: encode_message_def stands_at_Cons)
  have "unat (m_inbox m) < 2 ^ LENGTH(32)" by (rule unsigned_less)
  then have inbox: "read_u32 ?bs 1 = Inr (unat (m_inbox m), 5)"
    using at read_u32_stands [of ?bs 1 "unat (m_inbox m)"] by (simp add: stands_at_append)
  have "stands_at ?bs 5 (encode_tuple (m_body m))"
    using at by (simp add: stands_at_append)
  then have "decode_tuple ?bs 5 = Inr (m_body m, length ?bs)"
    using decode_tuple_stands [OF assms] by (simp add: encode_message_def)
  then show ?thesis
    using inbox by (simp add: decode_message_def read_version_def encode_message_def)
qed

definition column_encodable :: "column \<Rightarrow> bool" where
  "column_encodable c \<longleftrightarrow> text_ok (col_name c) \<and> length (col_name c) < 2 ^ 32"

definition schema_encodable :: "schema \<Rightarrow> bool" where
  "schema_encodable s \<longleftrightarrow> length s < 2 ^ 32 \<and> (\<forall>c\<in>set s. column_encodable c)"

lemma ty_from_tag_ty_tag [simp]: "ty_from_tag (ty_tag t) = Inr t"
  by (cases t) (simp_all add: ty_from_tag_def)

lemma ty_from_tag_Inr: "ty_from_tag b = Inr t \<longleftrightarrow> b = ty_tag t"
  by (cases t) (auto simp: ty_from_tag_def codec_def split: if_splits)

lemma decode_columns_stands:
  assumes "\<forall>c\<in>set s. column_encodable c" and "stands_at bs pos (concat (map encode_column s))"
  shows "decode_columns bs pos (length s)
    = Inr (s, pos + length (concat (map encode_column s)))"
  using assms
proof (induction s arbitrary: pos)
  case Nil
  then show ?case by simp
next
  case (Cons c s)
  let ?next = "pos + length (encode_column c)"
  have c: "column_encodable c" using Cons.prems(1) by simp
  have at: "stands_at bs pos (encode_column c)"
    and rest: "stands_at bs ?next (concat (map encode_column s))"
    using Cons.prems(2) by (simp_all add: stands_at_append)
  have "read_counted bs (pos + 1) = Inr (text_bytes (col_name c), ?next)"
    using at c read_counted_stands [of bs "Suc pos" "text_bytes (col_name c)"]
    by (simp add: encode_column_def stands_at_Cons column_encodable_def len32_def)
  then show ?case
    using Cons.IH [OF _ rest] Cons.prems(1) at c
    by (simp add: encode_column_def [of c] read_byte_def stands_at_Cons from_utf8_def
        column_encodable_def text_ok_def add.assoc)
qed

lemma decode_schema_encode:
  assumes "schema_encodable s"
  shows "decode_schema (encode_schema s) = Inr s"
proof -
  let ?bs = "encode_schema s"
  have at: "stands_at ?bs 1 (len32 (length s) @ concat (map encode_column s))"
    using stands_at_whole [of ?bs] by (simp add: encode_schema_def stands_at_Cons)
  have "read_u32 ?bs 1 = Inr (length s, 5)"
    using at assms read_u32_stands [of ?bs 1 "length s"]
    by (simp add: stands_at_append len32_def schema_encodable_def)
  moreover have "decode_columns ?bs 5 (length s) = Inr (s, length ?bs)"
    using at assms decode_columns_stands [of s ?bs 5]
    by (simp add: stands_at_append len32_def schema_encodable_def encode_schema_def)
  ultimately show ?thesis
    by (simp add: decode_schema_def read_version_def encode_schema_def)
qed


section \<open>What a decoder accepts\<close>

text \<open>Every reader advances within the buffer, and what it reads is within its range.\<close>

lemma read_slice_Inr:
  "read_slice bs pos n = Inr (s, p) \<longleftrightarrow> pos + n \<le> length bs \<and> p = pos + n \<and> s = take n (drop pos bs)"
  by (auto simp: read_slice_def)

lemma read_byte_Inr: "read_byte bs pos = Inr b \<longleftrightarrow> pos < length bs \<and> b = bs ! pos"
  by (auto simp: read_byte_def)

lemma read_u32_Inr:
  assumes "read_u32 bs pos = Inr (n, p)"
  shows "p = pos + 4 \<and> p \<le> length bs \<and> n < 2 ^ 32"
proof -
  have n: "n = be_value (take 4 (drop pos bs))" and p: "p = pos + 4" "p \<le> length bs"
    using assms by (auto simp: read_u32_def result_simps read_slice_Inr)
  have "n < 256 ^ length (take 4 (drop pos bs))" unfolding n by (rule be_value_less)
  then show ?thesis using p by simp
qed

lemma read_u64_Inr: "read_u64 bs pos = Inr (w, p) \<Longrightarrow> p = pos + 8 \<and> p \<le> length bs"
  by (auto simp: read_u64_def result_simps read_slice_Inr)

lemma read_counted_Inr:
  assumes "read_counted bs pos = Inr (s, p)"
  shows "pos + 4 \<le> p \<and> p \<le> length bs \<and> length s < 2 ^ 32"
proof -
  obtain n q where n: "read_u32 bs pos = Inr (n, q)" and s: "read_slice bs q n = Inr (s, p)"
    using assms by (auto simp: read_counted_def result_simps)
  show ?thesis using read_u32_Inr [OF n] s by (auto simp: read_slice_Inr)
qed

lemma from_utf8_Inr: "from_utf8 bs = Inr s \<longleftrightarrow> utf8_ok bs \<and> s = bytes_text bs"
  by (auto simp: from_utf8_def codec_def)

lemma finite_from_bits_canonical: "finite_from_bits w = Some f \<Longrightarrow> finite_from_bits f = Some f"
  by (auto simp: finite_from_bits_def finite_new_def Let_def f64_is_zero_def f64_is_finite_def
      split: if_splits)

lemma text_ok_bytes_text [simp]: "text_ok (bytes_text s) \<longleftrightarrow> utf8_ok s"
  by (simp add: text_ok_def)

lemma length_bytes_text [simp]: "length (bytes_text s) = length s"
  by (simp add: bytes_text_def)

lemmas read_Inr = read_byte_Inr read_u32_Inr read_u64_Inr read_counted_Inr from_utf8_Inr

lemma decode_sound:
  "decode_value_at bs pos d = Inr (v, p) \<Longrightarrow> encodable d v \<and> pos < p \<and> p \<le> length bs"
  "decode_n bs pos d n = Inr (vs, q) \<Longrightarrow> pos \<le> length bs \<Longrightarrow>
     length vs = n \<and> (\<forall>v\<in>set vs. encodable d v) \<and> pos + n \<le> q \<and> q \<le> length bs"
proof (induction bs pos d and bs pos d n arbitrary: v p and vs q
    rule: decode_value_at_decode_n.induct)
  case (1 bs pos d)
  obtain tag where tag: "read_byte bs pos = Inr tag"
    using "1.prems" by (auto simp: decode_value_at.simps [of bs pos d] result_simps)
  show ?case
  proof (cases "tag = TAG_TUPLE")
    case True
    have d: "d < MAX_DEPTH"
      using "1.prems" tag True
      by (auto simp: decode_value_at.simps [of bs pos d] tag_defs codec_def split: if_splits)
    obtain n r vs where n: "read_u32 bs (pos + 1) = Inr (n, r)"
      and vs: "decode_n bs r (d + 1) n = Inr (vs, p)" and v: "v = VTuple vs"
      using "1.prems" tag True d
      by (auto simp: decode_value_at.simps [of bs pos d] tag_defs result_simps)
    have "r \<le> length bs" and r: "r = pos + 5" and "n < 2 ^ 32"
      using read_u32_Inr [OF n] by auto
    have "length vs = n \<and> (\<forall>v\<in>set vs. encodable (d + 1) v) \<and> r + n \<le> p \<and> p \<le> length bs"
      using "1.IH" [OF tag refl] True d n vs \<open>r \<le> length bs\<close> by (simp add: tag_defs)
    then show ?thesis using v d r \<open>n < 2 ^ 32\<close> by simp
  next
    case False
    then show ?thesis
      using "1.prems" tag
      by (auto simp: decode_value_at.simps [of bs pos d] Let_def codec_def result_simps
          read_byte_Inr from_utf8_Inr dest!: read_u64_Inr read_counted_Inr
          split: if_splits option.splits)
        (metis finite_from_bits_canonical)
  qed
next
  case (2 bs pos d n)
  show ?case
  proof (cases n)
    case 0
    then show ?thesis using "2.prems" by (simp add: decode_n.simps)
  next
    case (Suc m)
    then obtain v r ws where v: "decode_value_at bs pos d = Inr (v, r)"
      and ws: "decode_n bs r d m = Inr (ws, q)" and vs: "vs = v # ws"
      using "2.prems" by (auto simp: decode_n.simps [of bs pos d "Suc m"] result_simps)
    have "encodable d v \<and> pos < r \<and> r \<le> length bs"
      using "2.IH"(1) [OF Suc] v by blast
    moreover have "length ws = m \<and> (\<forall>v\<in>set ws. encodable d v) \<and> r + m \<le> q \<and> q \<le> length bs"
      using "2.IH"(2) [OF Suc v refl] ws calculation by blast
    ultimately show ?thesis using Suc vs by auto
  qed
qed


section \<open>How a decoder fails\<close>

text \<open>A decoder fails with a codec error and in no other way: no slice index is out of range.\<close>

definition codec_only :: "'a result \<Rightarrow> bool" where
  "codec_only r \<longleftrightarrow> (\<forall>e. r = Inl e \<longrightarrow> (\<exists>msg. e = Err (ECodec msg)))"

lemma codec_only_Inr [simp]: "codec_only (Inr x)"
  by (simp add: codec_only_def)

lemma codec_only_codec [simp]: "codec_only (Inl (codec msg))"
  by (simp add: codec_only_def codec_def)

lemma codec_only_rbind [intro]:
  "codec_only m \<Longrightarrow> (\<And>x. m = Inr x \<Longrightarrow> codec_only (f x)) \<Longrightarrow> codec_only (rbind m f)"
  by (cases m) (auto simp: codec_only_def)

lemma codec_only_readers [simp]:
  "codec_only (read_version bs)" "codec_only (read_byte bs pos)" "codec_only (read_slice bs pos n)"
  "codec_only (read_u32 bs pos)" "codec_only (read_u64 bs pos)" "codec_only (read_counted bs pos)"
  "codec_only (from_utf8 bs)" "codec_only (codec_err msg r)" "codec_only (ty_from_tag b)"
proof -
  show slice: "codec_only (read_slice bs pos n)" for pos n by (simp add: read_slice_def)
  show u32: "codec_only (read_u32 bs pos)"
    unfolding read_u32_def by (rule codec_only_rbind) (auto simp: slice)
  show "codec_only (read_u64 bs pos)"
    unfolding read_u64_def by (rule codec_only_rbind) (auto simp: slice)
  show "codec_only (read_counted bs pos)"
    unfolding read_counted_def by (rule codec_only_rbind) (auto simp: slice u32)
qed (simp_all add: read_version_def read_byte_def from_utf8_def codec_err_def ty_from_tag_def
      split: list.splits sum.splits)

lemma codec_only_decode:
  "codec_only (decode_value_at bs pos d)"
  "codec_only (decode_n bs pos d n)"
proof (induction bs pos d and bs pos d n rule: decode_value_at_decode_n.induct)
  case (1 bs pos d)
  have tuple: "codec_only (decode_n bs p (Suc d) n)"
    if "read_byte bs pos = Inr TAG_TUPLE" "\<not> MAX_DEPTH \<le> d" "read_u32 bs (Suc pos) = Inr (n, p)"
    for n p
    using "1.IH" [OF that(1) refl] that by (simp add: tag_defs)
  show ?case
    unfolding decode_value_at.simps [of bs pos d] Let_def
    by (auto simp: tuple split: option.splits intro!: codec_only_rbind)
next
  case (2 bs pos d n)
  then show ?case
    unfolding decode_n.simps [of bs pos d n]
    by (auto split: nat.splits intro!: codec_only_rbind)
qed

lemma codec_only_decode_message: "codec_only (decode_message bs)"
  unfolding decode_message_def decode_tuple_def decode_cells_def
  by (auto simp: codec_only_decode split: sum.splits intro!: codec_only_rbind)

lemma codec_only_decode_columns: "codec_only (decode_columns bs pos n)"
  by (induction bs pos n rule: decode_columns.induct) (auto intro!: codec_only_rbind)

lemma codec_only_decode_schema: "codec_only (decode_schema bs)"
  unfolding decode_schema_def
  by (auto simp: codec_only_decode_columns intro!: codec_only_rbind)

text \<open>A message that decodes holds a body the encoder can write.\<close>

lemma decode_message_sound:
  assumes "decode_message bs = Inr m"
  shows "tuple_encodable (m_body m)"
proof -
  obtain n p where n: "decode_tuple bs p = Inr (m_body m, n)"
    using assms by (auto simp: decode_message_def result_simps split: sum.splits if_splits)
  then obtain k q where k: "read_u32 bs p = Inr (k, q)"
    and d: "decode_n bs q 0 k = Inr (m_body m, n)"
    by (auto simp: decode_tuple_def decode_cells_def result_simps)
  show ?thesis
    using decode_sound(2) [OF d] read_u32_Inr [OF k] by (simp add: tuple_encodable_def)
qed

text \<open>The capacity reserved for a count is the count itself whenever the cells are there.\<close>

lemma capacity_enough:
  assumes "decode_n bs pos d n = Inr (vs, q)" and "pos \<le> length bs"
  shows "capacity n bs pos = n"
  using decode_sound(2) [OF assms] by (auto simp: capacity_def min_def)

end
