(* ===== verification/Registry.thy ===== *)
theory Registry
  imports Wire Ordered_Map
begin

text \<open>
  The context enfilade with the durable catalog and the schema registry that live in it
  (\<^verbatim>\<open>grmpl-ent/src/context.rs\<close> and the \<open>Catalog\<close> and \<open>SchemaCatalog\<close> instances
  of \<^verbatim>\<open>grmpl-ent/src/store.rs\<close>). The enfilade is an ordered map from keys to
  values; each question is one span of its order. The trait contract of a schema catalog is
  the locale at the end.
\<close>

section \<open>Keys\<close>

type_synonym context_enf = "(tuple \<times> val) list"

definition NS_CATALOG :: i64 where "NS_CATALOG = 1"
definition NS_SCHEMA :: i64 where "NS_SCHEMA = 2"

definition ROOT_SCOPE :: "u64 list" where "ROOT_SCOPE = []"

definition scope_value :: "u64 list \<Rightarrow> val" where
  "scope_value scope = VTuple (map VInt scope)"

definition catalog_key :: "string \<Rightarrow> tuple" where
  "catalog_key name = [scope_value ROOT_SCOPE, VInt NS_CATALOG, VText name]"

definition catalog_span :: "tuple \<times> tuple" where
  "catalog_span = ([scope_value ROOT_SCOPE, VInt NS_CATALOG], [scope_value ROOT_SCOPE, VInt (NS_CATALOG + 1)])"

text \<open>The saturating cast of an edition to an \<open>i64\<close>.\<close>

definition edition_value :: "edition \<Rightarrow> val" where
  "edition_value e = VInt (word_of_nat (min e (2 ^ 63 - 1)))"

definition schema_key :: "rel_id \<Rightarrow> edition \<Rightarrow> tuple" where
  "schema_key rel e = [scope_value ROOT_SCOPE, VInt NS_SCHEMA, VInt (ucast rel), edition_value e]"

definition schema_span :: "rel_id \<Rightarrow> edition \<Rightarrow> edition \<Rightarrow> tuple \<times> tuple" where
  "schema_span rel from to = (schema_key rel from, schema_key rel to)"

definition schema_all_span :: "rel_id \<Rightarrow> tuple \<times> tuple" where
  "schema_all_span rel =
     (schema_key rel 0, [scope_value ROOT_SCOPE, VInt NS_SCHEMA, VInt (ucast rel + 1)])"

section \<open>The catalog\<close>

definition as_rel :: "val \<Rightarrow> rel_id option" where
  "as_rel v = (case v of VInt i \<Rightarrow> Some (ucast i) | _ \<Rightarrow> None)"

definition as_name :: "tuple \<Rightarrow> string option" where
  "as_name k = (case get k 2 of Some (VText s) \<Rightarrow> Some s | _ \<Rightarrow> None)"

definition catalog_rel_id :: "context_enf \<Rightarrow> string \<Rightarrow> rel_id option" where
  "catalog_rel_id ctx name = Option.bind (om_get ctx (catalog_key name)) as_rel"

definition catalog_register :: "string \<Rightarrow> rel_id \<Rightarrow> (context_enf, unit) op" where
  "catalog_register name i ctx =
     (case Option.bind (om_get ctx (catalog_key name)) as_rel of
        Some existing \<Rightarrow>
          if existing \<noteq> i then (Inl (Err (EStore ''catalog conflict'')), ctx) else (Inr (), ctx)
      | None \<Rightarrow> (Inr (), om_put (catalog_key name) (VInt (ucast i)) ctx))"

definition catalog_entries :: "context_enf \<Rightarrow> (string \<times> rel_id) list" where
  "catalog_entries ctx = (case catalog_span of (lo, hi) \<Rightarrow>
     List.map_filter (\<lambda>(k, v). case (as_name k, as_rel v) of
       (Some n, Some r) \<Rightarrow> Some (n, r) | _ \<Rightarrow> None) (om_range lo hi ctx))"

section \<open>The schema registry\<close>

definition decode_schema_value :: "val \<Rightarrow> schema result" where
  "decode_schema_value v = (case v of
     VBytes b \<Rightarrow> decode_schema b
   | _ \<Rightarrow> Inl (codec ''context: schema binding is not bytes''))"

definition last_opt :: "'a list \<Rightarrow> 'a option" where
  "last_opt xs = (if xs = [] then None else Some (last xs))"

definition latest_schema :: "context_enf \<Rightarrow> rel_id \<Rightarrow> (edition \<times> schema) option result" where
  "latest_schema ctx rel = (case schema_all_span rel of (lo, hi) \<Rightarrow>
     case last_opt (om_range lo hi ctx) of
       None \<Rightarrow> Inr None
     | Some (k, v) \<Rightarrow>
         (case get k 3 of
            Some (VInt e) \<Rightarrow> rbind (decode_schema_value v) (\<lambda>s. Inr (Some (unat e, s)))
          | _ \<Rightarrow> Inl (codec ''context: schema key has no edition'')))"

text \<open>\<open>put_schema\<close>: the first schema, the same again, or an additive one that takes effect later.\<close>

definition put_schema :: "rel_id \<Rightarrow> schema \<Rightarrow> edition \<Rightarrow> (context_enf, unit) op" where
  "put_schema rel schema at ctx =
     (let write = (Inr (), om_put (schema_key rel at) (VBytes (encode_schema schema)) ctx) in
      case latest_schema ctx rel of
        Inl e \<Rightarrow> (Inl e, ctx)
      | Inr None \<Rightarrow> write
      | Inr (Some (cur_edition, current)) \<Rightarrow>
          if current = schema then (Inr (), ctx)
          else if \<not> is_additive_over schema current then
            (Inl (Err (ESchema ''non-additive schema change'')), ctx)
          else if at \<le> cur_edition then
            (Inl (Err (ESchema ''schema evolution must take effect later'')), ctx)
          else write)"

definition get_schema :: "context_enf \<Rightarrow> rel_id \<Rightarrow> schema option result" where
  "get_schema ctx rel = rbind (latest_schema ctx rel) (\<lambda>r. Inr (map_option snd r))"

definition schema_at :: "context_enf \<Rightarrow> rel_id \<Rightarrow> edition \<Rightarrow> schema option result" where
  "schema_at ctx rel at = (case schema_span rel 0 (min (at + 1) (2 ^ 64 - 1)) of (lo, hi) \<Rightarrow>
     case last_opt (om_range lo hi ctx) of
       None \<Rightarrow> Inr None
     | Some (k, v) \<Rightarrow> rbind (decode_schema_value v) (\<lambda>s. Inr (Some s)))"

section \<open>The spans of the order\<close>

text \<open>Numbers below \<open>2\<^sup>6\<^sup>3\<close> keep their order as \<open>i64\<close> cells.\<close>

lemma sint_of_nat63: "n < 2 ^ 63 \<Longrightarrow> sint (word_of_nat n :: i64) = int n"
  by (simp add: signed_of_nat signed_take_bit_int_eq_self)

lemma unat_rel: "unat (r :: rel_id) < 2 ^ 32"
  using unsigned_less [of r, where 'a=nat] by simp

lemma sint_ucast_rel [simp]: "sint (ucast (r :: rel_id) :: i64) = int (unat r)"
  using sint_of_nat63 [of "unat r"] unat_rel [of r] by simp

lemma sint_ucast_rel_Suc [simp]: "sint (ucast (r :: rel_id) + 1 :: i64) = int (unat r) + 1"
  using sint_of_nat63 [of "Suc (unat r)"] unat_rel [of r] by (simp add: add.commute)

lemma ucast_ucast_rel [simp]: "(ucast (ucast (r :: rel_id) :: i64) :: rel_id) = r"
  by (rule ucast_up_ucast_id) (simp add: is_up)

lemma ucast_rel_inject [simp]: "(ucast (r :: rel_id) :: i64) = ucast r' \<longleftrightarrow> r = r'"
  by (metis ucast_ucast_rel)

lemma edition_value_nat: "e < 2 ^ 63 \<Longrightarrow> edition_value e = VInt (word_of_nat e)"
  by (simp add: edition_value_def min_def)

lemma unat_of_edition: "e < 2 ^ 63 \<Longrightarrow> unat (word_of_nat e :: i64) = e"
  by (simp add: unat_of_nat)

lemma edition_word_inject:
  "e < 2 ^ 63 \<Longrightarrow> e' < 2 ^ 63 \<Longrightarrow> (word_of_nat e :: i64) = word_of_nat e' \<longleftrightarrow> e = e'"
  by (metis unat_of_edition)

lemma schema_key_inject:
  "e < 2 ^ 63 \<Longrightarrow> e' < 2 ^ 63 \<Longrightarrow> schema_key r e = schema_key r' e' \<longleftrightarrow> r = r' \<and> e = e'"
  by (simp add: schema_key_def edition_value_nat edition_word_inject)

lemma schema_key_less:
  "e < 2 ^ 63 \<Longrightarrow> e' < 2 ^ 63 \<Longrightarrow>
     schema_key r e < schema_key r' e' \<longleftrightarrow> r < r' \<or> r = r' \<and> e < e'"
  by (auto simp: schema_key_def edition_value_nat sint_of_nat63 word_less_def)

lemma catalog_key_less: "catalog_key n < schema_key r e"
  by (simp add: catalog_key_def schema_key_def NS_CATALOG_def NS_SCHEMA_def)

lemma catalog_key_inject [simp]: "catalog_key n = catalog_key n' \<longleftrightarrow> n = n'"
  by (simp add: catalog_key_def)

lemma schema_key_in_all_span:
  assumes "e < 2 ^ 63" and "schema_all_span r = (lo, hi)"
  shows "lo \<le> schema_key r' e \<and> schema_key r' e < hi \<longleftrightarrow> r' = r"
proof -
  have lo: "lo = schema_key r 0" and hi: "hi = [scope_value ROOT_SCOPE, VInt NS_SCHEMA, VInt (ucast r + 1)]"
    using assms(2) by (simp_all add: schema_all_span_def)
  have "schema_key r' e < hi \<longleftrightarrow> r' \<le> r"
    by (auto simp: schema_key_def hi word_le_def)
  moreover have "lo \<le> schema_key r' e \<longleftrightarrow> r \<le> r'"
    using schema_key_less [of e 0 r' r] assms(1)
    by (auto simp: lo linorder_not_less [symmetric])
  ultimately show ?thesis by auto
qed


lemma schema_key_in_span:
  assumes "e < 2 ^ 63" and "to < 2 ^ 63" and "schema_span r 0 to = (lo, hi)"
  shows "lo \<le> schema_key r' e \<and> schema_key r' e < hi \<longleftrightarrow> r' = r \<and> e < to"
proof -
  have lo: "lo = schema_key r 0" and hi: "hi = schema_key r to"
    using assms(3) by (simp_all add: schema_span_def)
  show ?thesis
    using schema_key_less [of e 0 r' r] schema_key_less [of e to r' r] assms(1,2)
    by (auto simp: lo hi linorder_not_less [symmetric])
qed

lemma catalog_key_not_in_span: "schema_key r e \<le> catalog_key n \<Longrightarrow> False"
  using catalog_key_less [of n r e] by simp

lemma om_range_last:
  assumes "osorted m"
  shows "last_opt (om_range lo hi m) = Some (k, v) \<Longrightarrow>
      (k, v) \<in> set m \<and> lo \<le> k \<and> k < hi \<and> (\<forall>p\<in>set m. lo \<le> fst p \<and> fst p < hi \<longrightarrow> fst p \<le> k)"
    and "last_opt (om_range lo hi m) = None \<Longrightarrow> \<forall>p\<in>set m. \<not> (lo \<le> fst p \<and> fst p < hi)"
proof -
  let ?r = "om_range lo hi m"
  assume last: "last_opt ?r = Some (k, v)"
  then have ne: "?r \<noteq> []" and kv: "last ?r = (k, v)" by (auto simp: last_opt_def split: if_splits)
  have split: "?r = butlast ?r @ [(k, v)]" using ne kv by (metis append_butlast_last_id)
  have "osorted (butlast ?r @ [(k, v)])" using osorted_range [OF assms, of lo hi] split by simp
  then have "\<forall>p\<in>set (butlast ?r). fst p < k" by (auto simp: osorted_append)
  then have "\<forall>p\<in>set ?r. fst p \<le> k" by (subst split) (auto intro: less_imp_le)
  moreover have "(k, v) \<in> set ?r" by (subst split) simp
  ultimately show "(k, v) \<in> set m \<and> lo \<le> k \<and> k < hi \<and>
      (\<forall>p\<in>set m. lo \<le> fst p \<and> fst p < hi \<longrightarrow> fst p \<le> k)" by auto
next
  assume "last_opt (om_range lo hi m) = None"
  then have "om_range lo hi m = []" by (simp add: last_opt_def split: if_splits)
  then have "set (om_range lo hi m) = {}" by (simp only: list.set)
  then show "\<forall>p\<in>set m. \<not> (lo \<le> fst p \<and> fst p < hi)" unfolding set_om_range by blast
qed

section \<open>What the context holds\<close>

text \<open>The schema a relation took at an edition, among the editions an \<open>i64\<close> tells apart.\<close>

definition registered :: "context_enf \<Rightarrow> rel_id \<Rightarrow> edition \<Rightarrow> schema option" where
  "registered ctx r e =
     (if e < 2 ^ 63 - 1 then
        (case om_get ctx (schema_key r e) of
           Some (VBytes b) \<Rightarrow> (case decode_schema b of Inr s \<Rightarrow> Some s | Inl _ \<Rightarrow> None)
         | _ \<Rightarrow> None)
      else None)"

datatype binding = BName string rel_id | BSchema rel_id edition schema

fun binding_entry :: "binding \<Rightarrow> tuple \<times> val" where
  "binding_entry (BName n r) = (catalog_key n, VInt (ucast r))"
| "binding_entry (BSchema r e s) = (schema_key r e, VBytes (encode_schema s))"

fun binding_ok :: "binding \<Rightarrow> bool" where
  "binding_ok (BName n r) = True"
| "binding_ok (BSchema r e s) = (e < 2 ^ 63 - 1 \<and> schema_encodable s)"

text \<open>
  Every entry is a binding the two registries write, and a relation's later schemas extend
  its earlier ones.
\<close>

definition context_ok :: "context_enf \<Rightarrow> bool" where
  "context_ok ctx \<longleftrightarrow> osorted ctx \<and>
     (\<forall>p\<in>set ctx. \<exists>b. binding_ok b \<and> p = binding_entry b) \<and>
     (\<forall>r e s e' s'. registered ctx r e = Some s \<longrightarrow> registered ctx r e' = Some s' \<longrightarrow> e \<le> e' \<longrightarrow>
        is_additive_over s' s)"

lemma context_ok_Nil [simp]: "context_ok []"
  by (simp add: context_ok_def registered_def)

lemma schema_entry:
  assumes "context_ok ctx" and "(schema_key r e, v) \<in> set ctx" and "e < 2 ^ 63 - 1"
  shows "\<exists>s. registered ctx r e = Some s \<and> schema_encodable s \<and> v = VBytes (encode_schema s)"
proof -
  obtain b where ok: "binding_ok b" and b: "(schema_key r e, v) = binding_entry b"
    using assms(1,2) unfolding context_ok_def by blast
  have "schema_key r e \<noteq> catalog_key n" for n using catalog_key_less [of n r e] by auto
  then obtain r' e' s where bs: "b = BSchema r' e' s" using b by (cases b) auto
  then have "schema_encodable s" "v = VBytes (encode_schema s)" using b ok by auto
  moreover have "om_get ctx (schema_key r e) = Some v"
    using assms(1,2) by (simp add: context_ok_def om_get_in_iff)
  ultimately show ?thesis using assms(3) by (simp add: registered_def decode_schema_encode)
qed

lemma registered_bound: "registered ctx r e = Some s \<Longrightarrow> e < 2 ^ 63 - 1"
  by (simp add: registered_def split: if_splits)

lemma registered_entry:
  assumes "context_ok ctx" and "registered ctx r e = Some s"
  shows "(schema_key r e, VBytes (encode_schema s)) \<in> set ctx \<and> schema_encodable s"
proof -
  obtain w where "om_get ctx (schema_key r e) = Some w"
    using assms(2) by (auto simp: registered_def split: if_splits option.splits)
  then have mem: "(schema_key r e, w) \<in> set ctx" by (rule om_get_set)
  show ?thesis
    using schema_entry [OF assms(1) mem registered_bound [OF assms(2)]] assms(2) mem by auto
qed

definition is_newest :: "(edition \<Rightarrow> schema option) \<Rightarrow> (edition \<times> schema) option \<Rightarrow> bool" where
  "is_newest M res \<longleftrightarrow> (case res of
     None \<Rightarrow> (\<forall>e. M e = None)
   | Some (e, s) \<Rightarrow> M e = Some s \<and> (\<forall>e'. M e' \<noteq> None \<longrightarrow> e' \<le> e))"

text \<open>The last row of a span that holds one relation's versions below an edition.\<close>

lemma last_version:
  assumes ok: "context_ok ctx"
    and span: "\<And>r' e. e < 2 ^ 63 - 1 \<Longrightarrow> lo \<le> schema_key r' e \<and> schema_key r' e < hi \<longleftrightarrow> r' = r \<and> e < b"
    and low: "schema_key r 0 \<le> lo"
  shows "case last_opt (om_range lo hi ctx) of
      None \<Rightarrow> is_newest (\<lambda>e. if e < b then registered ctx r e else None) None
    | Some (k, v) \<Rightarrow> \<exists>e s. k = schema_key r e \<and> e < 2 ^ 63 - 1 \<and> v = VBytes (encode_schema s) \<and>
        schema_encodable s \<and>
        is_newest (\<lambda>e. if e < b then registered ctx r e else None) (Some (e, s))"
proof -
  have sorted: "osorted ctx" using ok by (simp add: context_ok_def)
  have in_span: "\<exists>s. registered ctx r e = Some s \<Longrightarrow> e < b \<Longrightarrow>
      \<exists>v. (schema_key r e, v) \<in> set ctx \<and> lo \<le> schema_key r e \<and> schema_key r e < hi" for e
    using registered_entry [OF ok] span [of e r] registered_bound by blast
  show ?thesis
  proof (cases "last_opt (om_range lo hi ctx)")
    case None
    then have "\<forall>p\<in>set ctx. \<not> (lo \<le> fst p \<and> fst p < hi)" by (rule om_range_last(2) [OF sorted])
    then show ?thesis using None in_span by (fastforce simp: is_newest_def)
  next
    case (Some p)
    obtain k v where p: "p = (k, v)" by (cases p)
    have kv: "(k, v) \<in> set ctx" "lo \<le> k" "k < hi"
      and top: "\<And>p. p \<in> set ctx \<Longrightarrow> lo \<le> fst p \<Longrightarrow> fst p < hi \<Longrightarrow> fst p \<le> k"
      using om_range_last(1) [OF sorted, of lo hi k v] Some p by auto
    obtain b' where b': "binding_ok b'" "(k, v) = binding_entry b'"
      using ok kv(1) unfolding context_ok_def by blast
    have "k \<noteq> catalog_key n" for n
      using catalog_key_not_in_span [of r 0 n] low kv(2) by (metis order_trans)
    then obtain r' e s where "b' = BSchema r' e s" using b' by (cases b') auto
    then have k: "k = schema_key r' e" and e: "e < 2 ^ 63 - 1" and s: "schema_encodable s"
      and v: "v = VBytes (encode_schema s)" using b' by auto
    have r': "r' = r" and eb: "e < b" using span [of e r'] kv k e by auto
    have "om_get ctx (schema_key r e) = Some v"
      using sorted kv(1) k r' by (simp add: om_get_in_iff)
    then have reg: "registered ctx r e = Some s"
      using e v s by (simp add: registered_def decode_schema_encode)
    have "e' \<le> e" if "registered ctx r e' \<noteq> None" "e' < b" for e'
    proof -
      have e': "e' < 2 ^ 63 - 1" using that registered_bound by blast
      then have "schema_key r e' \<le> k" using in_span [of e'] top that by fastforce
      then show ?thesis
        using schema_key_less [of e e' r r] e e' k r' by (auto simp: linorder_not_less [symmetric])
    qed
    then show ?thesis using Some p k e s v r' reg eb by (auto simp: is_newest_def)
  qed
qed


lemma latest_newest:
  assumes "context_ok ctx"
  shows "\<exists>res. latest_schema ctx r = Inr res \<and> is_newest (registered ctx r) res \<and>
    (\<forall>e s. res = Some (e, s) \<longrightarrow> schema_encodable s)"
proof -
  obtain lo hi where span: "schema_all_span r = (lo, hi)" by fastforce
  have lo: "schema_key r 0 \<le> lo" using span by (simp add: schema_all_span_def)
  let ?M = "\<lambda>e. if e < 2 ^ 63 - 1 then registered ctx r e else None"
  have M: "?M = registered ctx r" by (auto simp: fun_eq_iff registered_def)
  have *: "case last_opt (om_range lo hi ctx) of
      None \<Rightarrow> is_newest ?M None
    | Some (k, v) \<Rightarrow> \<exists>e s. k = schema_key r e \<and> e < 2 ^ 63 - 1 \<and> v = VBytes (encode_schema s) \<and>
        schema_encodable s \<and> is_newest ?M (Some (e, s))"
    by (rule last_version [OF assms _ lo]) (use schema_key_in_all_span [OF _ span] in auto)
  show ?thesis
  proof (cases "last_opt (om_range lo hi ctx)")
    case None
    then show ?thesis using * M by (simp add: latest_schema_def span)
  next
    case (Some p)
    then obtain e s where p: "p = (schema_key r e, VBytes (encode_schema s))" "e < 2 ^ 63 - 1"
        "schema_encodable s" "is_newest (registered ctx r) (Some (e, s))"
      using * M by (cases p) auto
    have "get (schema_key r e) 3 = Some (VInt (word_of_nat e))"
      using p(2) by (simp add: schema_key_def get_def edition_value_nat)
    then show ?thesis
      using p Some unat_of_edition [of e]
      by (simp add: latest_schema_def span decode_schema_value_def decode_schema_encode)
  qed
qed

lemma schema_at_newest:
  assumes "context_ok ctx" and "at < 2 ^ 63 - 1"
  shows "\<exists>res. schema_at ctx r at = Inr (map_option snd res) \<and>
    is_newest (\<lambda>e. if e \<le> at then registered ctx r e else None) res"
proof -
  let ?M = "\<lambda>e. if e < Suc at then registered ctx r e else None"
  obtain lo hi where span: "schema_span r 0 (Suc at) = (lo, hi)" by fastforce
  have lo: "schema_key r 0 \<le> lo" using span by (simp add: schema_span_def)
  have "Suc at < 2 ^ 63" using assms(2) by simp
  then have *: "case last_opt (om_range lo hi ctx) of
      None \<Rightarrow> is_newest ?M None
    | Some (k, v) \<Rightarrow> \<exists>e s. k = schema_key r e \<and> e < 2 ^ 63 - 1 \<and> v = VBytes (encode_schema s) \<and>
        schema_encodable s \<and> is_newest ?M (Some (e, s))"
    by (intro last_version [OF assms(1) _ lo]) (use schema_key_in_span [OF _ _ span] in auto)
  have span': "schema_span r 0 (min (at + 1) (2 ^ 64 - 1)) = (lo, hi)"
    using assms(2) span by (simp add: min_def)
  show ?thesis
  proof (cases "last_opt (om_range lo hi ctx)")
    case None
    then have "schema_at ctx r at = Inr None" unfolding schema_at_def span' by simp
    then show ?thesis using * None by (intro exI [of _ None]) (simp add: less_Suc_eq_le)
  next
    case (Some p)
    then obtain e s where p: "p = (schema_key r e, VBytes (encode_schema s))"
        "schema_encodable s" "is_newest ?M (Some (e, s))"
      using * by (cases p) auto
    then have "schema_at ctx r at = Inr (Some s)"
      using Some unfolding schema_at_def span' by (simp add: decode_schema_value_def decode_schema_encode)
    then show ?thesis using p(3) by (intro exI [of _ "Some (e, s)"]) (simp add: less_Suc_eq_le)
  qed
qed


section \<open>Writing\<close>

lemma as_rel_ucast [simp]: "as_rel (VInt (ucast r)) = Some r"
  by (simp add: as_rel_def)

lemma context_ok_sorted [simp]: "context_ok ctx \<Longrightarrow> osorted ctx"
  by (simp add: context_ok_def)

lemma registered_put:
  assumes "osorted ctx" and "e < 2 ^ 63 - 1" and "schema_encodable s"
  shows "registered (om_put (schema_key r e) (VBytes (encode_schema s)) ctx) r' e' =
    (if r' = r \<and> e' = e then Some s else registered ctx r' e')"
proof (cases "e' < 2 ^ 63 - 1")
  case True
  then have "schema_key r' e' = schema_key r e \<longleftrightarrow> r' = r \<and> e' = e"
    using assms(2) by (intro schema_key_inject) auto
  then show ?thesis using True assms by (auto simp: registered_def decode_schema_encode)
qed (use assms in \<open>auto simp: registered_def\<close>)

lemma context_ok_put:
  assumes "context_ok ctx" and "e < 2 ^ 63 - 1" and "schema_encodable s"
    and "\<And>e' s'. registered ctx r e' = Some s' \<Longrightarrow> e' < e \<and> is_additive_over s s'"
  shows "context_ok (om_put (schema_key r e) (VBytes (encode_schema s)) ctx)"
    (is "context_ok ?ctx")
proof -
  have "\<exists>b. binding_ok b \<and> p = binding_entry b" if p: "p \<in> set ?ctx" for p
  proof (cases "p \<in> set ctx")
    case True
    then show ?thesis using assms(1) unfolding context_ok_def by blast
  next
    case False
    then have "p = binding_entry (BSchema r e s)" using p set_om_put by fastforce
    then show ?thesis using assms(2,3) by (intro exI [of _ "BSchema r e s"]) auto
  qed
  moreover have "is_additive_over s2 s1"
    if "registered ?ctx r' e1 = Some s1" "registered ?ctx r' e2 = Some s2" "e1 \<le> e2" for r' e1 s1 e2 s2
    using that assms(4) [of e1 s1] assms(4) [of e2 s2] assms(1)
    by (auto simp: registered_put [OF context_ok_sorted [OF assms(1)] assms(2,3)] context_ok_def
        split: if_splits)
  moreover have "osorted ?ctx" using assms(1) by (simp add: context_ok_def)
  ultimately show ?thesis unfolding context_ok_def by blast
qed

lemma newest_additive:
  assumes "context_ok ctx" and "is_newest (registered ctx r) (Some (e0, s0))"
    and "is_additive_over s s0" and "e0 < e" and "registered ctx r e' = Some s'"
  shows "e' < e \<and> is_additive_over s s'"
proof -
  have "registered ctx r e0 = Some s0" "e' \<le> e0" using assms(2,5) by (auto simp: is_newest_def)
  then have "is_additive_over s0 s'" using assms(1,5) unfolding context_ok_def by blast
  then show ?thesis using assms(3,4) \<open>e' \<le> e0\<close> by (auto intro: additive_trans)
qed

lemma is_newest_unique: "is_newest M a \<Longrightarrow> is_newest M b \<Longrightarrow> a = b"
proof (cases a; cases b)
  fix p q assume a: "is_newest M a" "a = Some p" and b: "is_newest M b" "b = Some q"
  obtain e s where p: "p = (e, s)" by (cases p)
  obtain e' s' where q: "q = (e', s')" by (cases q)
  have "M e = Some s" "M e' = Some s'" "e' \<le> e" "e \<le> e'"
    using a b by (auto simp: is_newest_def p q)
  then show "a = b" using a b p q by simp
qed (auto simp: is_newest_def)

text \<open>The catalog and the registry do not disturb each other.\<close>

lemma registered_catalog_put [simp]:
  "osorted ctx \<Longrightarrow> registered (om_put (catalog_key n) v ctx) r e = registered ctx r e"
  using catalog_key_less [of n r e] by (auto simp: registered_def)

lemma context_ok_catalog_put:
  assumes "context_ok ctx"
  shows "context_ok (om_put (catalog_key n) (VInt (ucast (r :: rel_id))) ctx)" (is "context_ok ?ctx")
proof -
  have "\<exists>b. binding_ok b \<and> p = binding_entry b" if p: "p \<in> set ?ctx" for p
  proof (cases "p \<in> set ctx")
    case True
    then show ?thesis using assms unfolding context_ok_def by blast
  next
    case False
    then have "p = binding_entry (BName n r)" using p set_om_put by fastforce
    then show ?thesis by (intro exI [of _ "BName n r"]) auto
  qed
  moreover have "osorted ?ctx" using assms by (simp add: context_ok_def)
  ultimately show ?thesis using assms unfolding context_ok_def by simp
qed

lemma catalog_rel_id_put:
  "osorted ctx \<Longrightarrow> catalog_rel_id (om_put (catalog_key n) (VInt (ucast r)) ctx) n' =
     (if n' = n then Some r else catalog_rel_id ctx n')"
  by (simp add: catalog_rel_id_def)

lemma catalog_rel_id_schema_put [simp]:
  "osorted ctx \<Longrightarrow> catalog_rel_id (om_put (schema_key r e) v ctx) n = catalog_rel_id ctx n"
  using catalog_key_less [of n r e] by (auto simp: catalog_rel_id_def)

lemma catalog_register_ok:
  assumes "context_ok ctx" and "catalog_register n r ctx = (res, ctx')"
  shows "context_ok ctx' \<and> registered ctx' = registered ctx \<and>
    (if catalog_rel_id ctx n \<in> {None, Some r}
     then res = Inr () \<and> catalog_rel_id ctx' = (catalog_rel_id ctx)(n := Some r)
     else res = Inl (Err (EStore ''catalog conflict'')) \<and> ctx' = ctx)"
proof (cases "catalog_rel_id ctx n")
  case None
  then show ?thesis
    using assms by (auto simp: catalog_register_def catalog_rel_id_def [symmetric]
        context_ok_catalog_put catalog_rel_id_put fun_eq_iff)
next
  case (Some r')
  then show ?thesis
    using assms by (auto simp: catalog_register_def catalog_rel_id_def [symmetric] fun_eq_iff
        split: if_splits)
qed

section \<open>The contract of a schema catalog\<close>

text \<open>
  \<open>V c r e\<close> is the schema relation \<open>r\<close> took at edition \<open>e\<close>. Editions from \<open>limit\<close> on are
  outside what the store can date.
\<close>

locale schema_registry =
  fixes put :: "rel_id \<Rightarrow> schema \<Rightarrow> edition \<Rightarrow> ('c, unit) op"
    and latest :: "'c \<Rightarrow> rel_id \<Rightarrow> schema option result"
    and as_of :: "'c \<Rightarrow> rel_id \<Rightarrow> edition \<Rightarrow> schema option result"
    and inv :: "'c \<Rightarrow> bool"
    and V :: "'c \<Rightarrow> rel_id \<Rightarrow> edition \<Rightarrow> schema option"
    and limit :: edition
  assumes law_latest: "inv c \<Longrightarrow>
      \<exists>res. latest c r = Inr (map_option snd res) \<and> is_newest (V c r) res"
    and law_as_of: "inv c \<Longrightarrow> e < limit \<Longrightarrow>
      \<exists>res. as_of c r e = Inr (map_option snd res) \<and> is_newest (\<lambda>e'. if e' \<le> e then V c r e' else None) res"
    and law_additive: "inv c \<Longrightarrow> V c r e = Some s \<Longrightarrow> V c r e' = Some s' \<Longrightarrow> e \<le> e' \<Longrightarrow> is_additive_over s' s"
    and law_same: "inv c \<Longrightarrow> is_newest (V c r) (Some (e0, s)) \<Longrightarrow> put r s e c = (Inr (), c)"
    and law_refused: "inv c \<Longrightarrow> is_newest (V c r) (Some (e0, s0)) \<Longrightarrow> s0 \<noteq> s \<Longrightarrow>
      \<not> (is_additive_over s s0 \<and> e0 < e) \<Longrightarrow> \<exists>m. put r s e c = (Inl (Err (ESchema m)), c)"
    and law_written: "inv c \<Longrightarrow> schema_encodable s \<Longrightarrow> e < limit \<Longrightarrow> is_newest (V c r) res \<Longrightarrow>
      (\<And>e0 s0. res = Some (e0, s0) \<Longrightarrow> s0 \<noteq> s \<and> is_additive_over s s0 \<and> e0 < e) \<Longrightarrow>
      \<exists>c'. put r s e c = (Inr (), c') \<and> inv c' \<and> V c' = (V c)(r := (V c r)(e := Some s))"

context schema_registry
begin

lemma as_of_unique:
  "inv c \<Longrightarrow> e < limit \<Longrightarrow> is_newest (\<lambda>e'. if e' \<le> e then V c r e' else None) res \<Longrightarrow>
     as_of c r e = Inr (map_option snd res)"
  using law_as_of [of c e r] is_newest_unique by metis

lemma as_of_Some:
  assumes "inv c" and "e < limit" and "as_of c r e = Inr (Some s)"
  shows "\<exists>e0\<le>e. V c r e0 = Some s \<and> (\<forall>e'\<le>e. V c r e' \<noteq> None \<longrightarrow> e' \<le> e0)"
proof -
  obtain res where "as_of c r e = Inr (map_option snd res)"
    and n: "is_newest (\<lambda>e'. if e' \<le> e then V c r e' else None) res"
    using law_as_of [OF assms(1,2)] by blast
  then obtain e0 where "res = Some (e0, s)" using assms(3) by (cases res) auto
  then show ?thesis using n by (intro exI [of _ e0]) (fastforce simp: is_newest_def split: if_splits)
qed

text \<open>What a reader sees at an edition is a prefix of what it sees later.\<close>

lemma as_of_grows:
  assumes "inv c" and "e' < limit" and "e \<le> e'" and "as_of c r e = Inr (Some s)"
  shows "\<exists>s'. as_of c r e' = Inr (Some s') \<and> is_additive_over s' s"
proof -
  have "e < limit" using assms(2,3) by simp
  then obtain e0 where e0: "e0 \<le> e" "V c r e0 = Some s" using as_of_Some assms(1,4) by blast
  obtain res where res: "as_of c r e' = Inr (map_option snd res)"
    and n: "is_newest (\<lambda>i. if i \<le> e' then V c r i else None) res"
    using law_as_of [OF assms(1,2)] by blast
  have "e0 \<le> e'" using e0(1) assms(3) by simp
  then have "res \<noteq> None" using n e0(2) by (auto simp: is_newest_def dest: spec [of _ e0] split: option.splits)
  then obtain e1 s1 where r: "res = Some (e1, s1)" by auto
  then have "V c r e1 = Some s1" "e0 \<le> e1"
    using n e0(2) \<open>e0 \<le> e'\<close> by (auto simp: is_newest_def split: if_splits)
  then show ?thesis using law_additive [OF assms(1) e0(2)] res r by auto
qed

text \<open>A schema that takes effect at an edition does not change what was in force before it.\<close>

lemma put_keeps_past:
  assumes "inv c" and "schema_encodable s" and "e < limit" and "e' < e"
    and "put r s e c = (x, c')"
  shows "inv c' \<and> as_of c' r' e' = as_of c r' e'"
proof -
  obtain res where n: "is_newest (V c r) res" using law_latest [OF assms(1)] by blast
  show ?thesis
  proof (cases "\<forall>e0 s0. res = Some (e0, s0) \<longrightarrow> s0 \<noteq> s \<and> is_additive_over s s0 \<and> e0 < e")
    case True
    then obtain c2 where "put r s e c = (Inr (), c2)" "inv c2" "V c2 = (V c)(r := (V c r)(e := Some s))"
      using law_written [OF assms(1-3) n] by blast
    then have inv': "inv c'" and V': "V c' = (V c)(r := (V c r)(e := Some s))" using assms(5) by auto
    have lim: "e' < limit" using assms(3,4) by simp
    obtain res' where res': "as_of c r' e' = Inr (map_option snd res')"
      and n': "is_newest (\<lambda>i. if i \<le> e' then V c r' i else None) res'"
      using law_as_of [OF assms(1) lim] by blast
    have "(\<lambda>i. if i \<le> e' then V c' r' i else None) = (\<lambda>i. if i \<le> e' then V c r' i else None)"
      using assms(4) by (auto simp: V' fun_eq_iff)
    then show ?thesis using as_of_unique [OF inv' lim, of r' res'] n' res' inv' by simp
  next
    case False
    then obtain e0 s0 where r: "res = Some (e0, s0)"
      and bad: "s0 = s \<or> \<not> (is_additive_over s s0 \<and> e0 < e)" by blast
    then have "c' = c"
      using law_same [OF assms(1), of r e0 s e] law_refused [OF assms(1), of r e0 s0 s e] n assms(5)
      by (cases "s0 = s") auto
    then show ?thesis using assms(1) by simp
  qed
qed

end

interpretation ent_schemas: schema_registry put_schema get_schema schema_at context_ok registered "2 ^ 63 - 1"
proof
  fix c :: context_enf and r e
  assume c: "context_ok c"
  show "\<exists>res. get_schema c r = Inr (map_option snd res) \<and> is_newest (registered c r) res"
    using latest_newest [OF c, of r] by (auto simp: get_schema_def)
  show "\<exists>res. schema_at c r e = Inr (map_option snd res) \<and>
      is_newest (\<lambda>e'. if e' \<le> e then registered c r e' else None) res" if "e < 2 ^ 63 - 1"
    using schema_at_newest [OF c that] .
  show "is_additive_over s' s"
    if "registered c r e = Some s" "registered c r e' = Some s'" "e \<le> e'" for s e' s'
    using c that unfolding context_ok_def by blast
next
  fix c :: context_enf and r e e0 s
  assume c: "context_ok c" and n: "is_newest (registered c r) (Some (e0, s))"
  have l: "latest_schema c r = Inr (Some (e0, s))" using latest_newest [OF c, of r] n is_newest_unique by metis
  show "put_schema r s e c = (Inr (), c)" by (simp add: put_schema_def l)
  show "\<exists>m. put_schema r s' e c = (Inl (Err (ESchema m)), c)"
    if "s \<noteq> s'" "\<not> (is_additive_over s' s \<and> e0 < e)" for s'
    using that by (auto simp: put_schema_def l)
next
  fix c :: context_enf and r e s res
  assume c: "context_ok c" and s: "schema_encodable s" and e: "e < 2 ^ 63 - 1"
    and n: "is_newest (registered c r) res"
    and new: "\<And>e0 s0. res = Some (e0, s0) \<Longrightarrow> s0 \<noteq> s \<and> is_additive_over s s0 \<and> e0 < e"
  have l: "latest_schema c r = Inr res" using latest_newest [OF c, of r] n is_newest_unique by metis
  let ?c = "om_put (schema_key r e) (VBytes (encode_schema s)) c"
  have "put_schema r s e c = (Inr (), ?c)"
    using new by (cases res) (auto simp: put_schema_def l)
  moreover have "context_ok ?c"
  proof (rule context_ok_put [OF c e s])
    fix e' s' assume reg: "registered c r e' = Some s'"
    then obtain e0 s0 where r: "res = Some (e0, s0)"
      using n by (cases res) (auto simp: is_newest_def)
    then show "e' < e \<and> is_additive_over s s'" using newest_additive [OF c _ _ _ reg] n new by blast
  qed
  moreover have "registered ?c = (registered c)(r := (registered c r)(e := Some s))"
    using c by (auto simp: fun_eq_iff registered_put [OF _ e s])
  ultimately show "\<exists>c'. put_schema r s e c = (Inr (), c') \<and> context_ok c' \<and>
      registered c' = (registered c)(r := (registered c r)(e := Some s))" by blast
qed

end
