(* ===== verification/Commit.thy ===== *)
theory Commit
  imports Wire Delta_Correct
begin

text \<open>
  Patches (\<^verbatim>\<open>grmpl-core/src/patch.rs\<close>), authority domains
  (\<^verbatim>\<open>authority.rs\<close>) and the commit boundary (\<^verbatim>\<open>grmpl-proc/src/commit.rs\<close>):
  what a patch must satisfy before it reaches the store, and what it writes when it does.
\<close>

section \<open>Patches\<close>

record scheduled =
  sc_timers :: rel_id
  sc_due :: i64
  sc_inbox :: rel_id
  sc_target :: entity
  sc_body :: tuple

record cursor_move =
  cm_rel :: rel_id
  cm_retract :: "tuple option"
  cm_assert :: tuple

record patch =
  p_preconditions :: "fact list"
  p_asserts :: "fact list"
  p_retracts :: "fact list"
  p_emits :: "message list"
  p_scheduled :: "scheduled list"
  p_cursor_advance :: "cursor_move option"

definition patch_new :: patch where
  "patch_new = \<lparr>p_preconditions = [], p_asserts = [], p_retracts = [], p_emits = [],
     p_scheduled = [], p_cursor_advance = None\<rparr>"

text \<open>The builder methods.\<close>

definition patch_expect :: "fact \<Rightarrow> patch \<Rightarrow> patch" where
  "patch_expect f p = p\<lparr>p_preconditions := p_preconditions p @ [f]\<rparr>"

definition patch_assert :: "fact \<Rightarrow> patch \<Rightarrow> patch" where
  "patch_assert f p = p\<lparr>p_asserts := p_asserts p @ [f]\<rparr>"

definition patch_retract :: "fact \<Rightarrow> patch \<Rightarrow> patch" where
  "patch_retract f p = p\<lparr>p_retracts := p_retracts p @ [f]\<rparr>"

definition patch_emit :: "message \<Rightarrow> patch \<Rightarrow> patch" where
  "patch_emit m p = p\<lparr>p_emits := p_emits p @ [m]\<rparr>"

definition patch_schedule :: "scheduled \<Rightarrow> patch \<Rightarrow> patch" where
  "patch_schedule sc p = p\<lparr>p_scheduled := p_scheduled p @ [sc]\<rparr>"

definition patch_advance_cursor :: "cursor_move \<Rightarrow> patch \<Rightarrow> patch" where
  "patch_advance_cursor mv p = p\<lparr>p_cursor_advance := Some mv\<rparr>"

lemmas patch_builders = patch_new_def patch_expect_def patch_assert_def patch_retract_def
  patch_emit_def patch_schedule_def patch_advance_cursor_def

section \<open>Authority\<close>

record key_range =
  kr_col :: nat
  kr_lo :: i64
  kr_hi :: i64

text \<open>An entity id is read as an \<open>i64\<close>: the same 64 bits.\<close>

definition range_contains :: "key_range \<Rightarrow> tuple \<Rightarrow> bool" where
  "range_contains kr t = (case get t (kr_col kr) of
     Some (VEnt e) \<Rightarrow> sint e \<ge> sint (kr_lo kr) \<and> sint e \<le> sint (kr_hi kr)
   | Some (VInt i) \<Rightarrow> sint i \<ge> sint (kr_lo kr) \<and> sint i \<le> sint (kr_hi kr)
   | _ \<Rightarrow> False)"

record scope =
  s_rel :: rel_id
  s_range :: "key_range option"

definition scope_whole :: "rel_id \<Rightarrow> scope" where
  "scope_whole rel = \<lparr>s_rel = rel, s_range = None\<rparr>"

record authority =
  a_domain :: domain_id
  a_owns :: "scope list"

definition permits :: "authority \<Rightarrow> fact \<Rightarrow> bool" where
  "permits a f \<longleftrightarrow> (\<exists>sc\<in>set (a_owns a). s_rel sc = f_rel f \<and>
     (case s_range sc of None \<Rightarrow> True | Some r \<Rightarrow> range_contains r (f_tuple f)))"

section \<open>The commit boundary\<close>

text \<open>
  The two hooks of the boundary: a schema catalog answers for the state of the store, and a
  behavior checker looks at one asserted fact.
\<close>

type_synonym schemas = "rel_id \<Rightarrow> schema option result"
type_synonym checker = "fact \<Rightarrow> authority \<Rightarrow> unit result"

definition no_schemas :: schemas where
  "no_schemas rel = Inr None"

definition no_behavior_check :: checker where
  "no_behavior_check f a = Inr ()"

fun check_schema :: "schemas \<Rightarrow> fact list \<Rightarrow> unit result" where
  "check_schema sch [] = Inr ()"
| "check_schema sch (f # fs) =
     rbind (sch (f_rel f)) (\<lambda>s.
       case s of
         None \<Rightarrow> check_schema sch fs
       | Some schema \<Rightarrow>
           (case schema_check schema (f_tuple f) of
              Some e \<Rightarrow> Inl (Err (ESchema (''write to relation: '' @ e)))
            | None \<Rightarrow> check_schema sch fs))"

fun check_facts :: "checker \<Rightarrow> authority \<Rightarrow> fact list \<Rightarrow> unit result" where
  "check_facts chk a [] = Inr ()"
| "check_facts chk a (f # fs) = rbind (chk f a) (\<lambda>_. check_facts chk a fs)"

definition timer_row :: "scheduled \<Rightarrow> tuple" where
  "timer_row sc = [VInt (sc_due sc), VInt (ucast (sc_inbox sc)), VEnt (sc_target sc), VTuple (sc_body sc)]"

record checked_patch =
  ck_preconditions :: "precond list"
  ck_writes :: "upd list"
  ck_rest :: "upd list"

definition signed :: "diff \<Rightarrow> fact list \<Rightarrow> upd list" where
  "signed d fs = map (\<lambda>f. (f_rel f, f_tuple f, d)) fs"

definition timer_facts :: "patch \<Rightarrow> fact list" where
  "timer_facts p = map (\<lambda>sc. fact_new (sc_timers sc) (timer_row sc)) (p_scheduled p)"

definition cursor_updates :: "cursor_move option \<Rightarrow> upd list" where
  "cursor_updates mv = (case mv of
     None \<Rightarrow> []
   | Some cm \<Rightarrow> (case cm_retract cm of None \<Rightarrow> [] | Some old \<Rightarrow> [(cm_rel cm, old, -1)]) @
       [(cm_rel cm, cm_assert cm, 1)])"

definition check_patch :: "schemas \<Rightarrow> checker \<Rightarrow> patch \<Rightarrow> authority \<Rightarrow> checked_patch result" where
  "check_patch sch chk p a =
     (let sched = timer_facts p; written = p_asserts p @ p_retracts p @ sched in
      if \<exists>f\<in>set written. \<not> permits a f
      then Inl (Err (EAuthority ''write outside authority domain''))
      else rbind (check_schema sch written) (\<lambda>_.
           rbind (check_facts chk a (p_asserts p)) (\<lambda>_.
             Inr \<lparr>ck_preconditions = map (\<lambda>f. (f_rel f, f_tuple f)) (p_preconditions p),
                  ck_writes = signed 1 (p_asserts p) @ signed (-1) (p_retracts p),
                  ck_rest = signed 1 sched @ cursor_updates (p_cursor_advance p)\<rparr>)))"

datatype commit_outcome = Committed edition | Rejected

definition outcome_of :: "edition option \<Rightarrow> commit_outcome" where
  "outcome_of r = (case r of Some e \<Rightarrow> Committed e | None \<Rightarrow> Rejected)"

definition commit_patch_checked ::
  "'s trace_ops \<Rightarrow> ('s \<Rightarrow> schemas) \<Rightarrow> checker \<Rightarrow> patch \<Rightarrow> authority \<Rightarrow> ('s, commit_outcome) op" where
  "commit_patch_checked ops sch chk p a =
     obind (oread (\<lambda>s. check_patch (sch s) chk p a)) (\<lambda>ck.
       let updates = ck_writes ck @ map (\<lambda>m. (m_inbox m, m_body m, 1)) (p_emits p) @ ck_rest ck in
       obind (ts_commit_if ops (ck_preconditions ck) updates) (\<lambda>r. oret (outcome_of r)))"

definition commit_patch ::
  "'s trace_ops \<Rightarrow> ('s \<Rightarrow> schemas) \<Rightarrow> patch \<Rightarrow> authority \<Rightarrow> ('s, commit_outcome) op" where
  "commit_patch ops sch p a = commit_patch_checked ops sch no_behavior_check p a"

section \<open>What a commit does\<close>

text \<open>The laws of the boundary, and what a lawful patch asks of the store.\<close>

definition lawful :: "schemas \<Rightarrow> checker \<Rightarrow> patch \<Rightarrow> authority \<Rightarrow> bool" where
  "lawful sch chk p a \<longleftrightarrow>
     (\<forall>f\<in>set (p_asserts p @ p_retracts p @ timer_facts p). permits a f \<and>
        (\<exists>s. sch (f_rel f) = Inr s \<and> (\<forall>schema. s = Some schema \<longrightarrow> schema_check schema (f_tuple f) = None))) \<and>
     (\<forall>f\<in>set (p_asserts p). chk f a = Inr ())"

definition patch_preconditions :: "patch \<Rightarrow> precond list" where
  "patch_preconditions p = map (\<lambda>f. (f_rel f, f_tuple f)) (p_preconditions p)"

definition patch_updates :: "patch \<Rightarrow> upd list" where
  "patch_updates p = signed 1 (p_asserts p) @ signed (-1) (p_retracts p) @
     map (\<lambda>m. (m_inbox m, m_body m, 1)) (p_emits p) @
     signed 1 (timer_facts p) @ cursor_updates (p_cursor_advance p)"

lemma check_schema_ok:
  "check_schema sch fs = Inr () \<longleftrightarrow>
     (\<forall>f\<in>set fs. \<exists>s. sch (f_rel f) = Inr s \<and> (\<forall>schema. s = Some schema \<longrightarrow> schema_check schema (f_tuple f) = None))"
proof (induction fs)
  case (Cons f fs)
  show ?case
  proof (cases "sch (f_rel f)")
    case (Inr s)
    then show ?thesis using Cons by (cases s) (auto split: option.splits)
  qed simp
qed simp

lemma check_facts_ok: "check_facts chk a fs = Inr () \<longleftrightarrow> (\<forall>f\<in>set fs. chk f a = Inr ())"
  by (induction fs) (auto simp: result_simps)

lemma check_patch_ok:
  assumes "lawful sch chk p a"
  shows "check_patch sch chk p a = Inr \<lparr>ck_preconditions = patch_preconditions p,
    ck_writes = signed 1 (p_asserts p) @ signed (-1) (p_retracts p),
    ck_rest = signed 1 (timer_facts p) @ cursor_updates (p_cursor_advance p)\<rparr>"
proof -
  have "check_schema sch (p_asserts p @ p_retracts p @ timer_facts p) = Inr ()"
    "check_facts chk a (p_asserts p) = Inr ()"
    using assms by (auto simp: check_schema_ok check_facts_ok lawful_def)
  then show ?thesis
    using assms by (auto simp: check_patch_def lawful_def patch_preconditions_def)
qed

lemma check_patch_unlawful: "\<not> lawful sch chk p a \<Longrightarrow> \<exists>e. check_patch sch chk p a = Inl e"
proof (rule ccontr)
  assume bad: "\<not> lawful sch chk p a" and "\<not> (\<exists>e. check_patch sch chk p a = Inl e)"
  then obtain ck where "check_patch sch chk p a = Inr ck" by (cases "check_patch sch chk p a") auto
  then have "lawful sch chk p a"
    by (auto simp: check_patch_def lawful_def Let_def result_simps check_schema_ok check_facts_ok
        split: if_splits)
  with bad show False by simp
qed

text \<open>A state one commit later: a new edition that adds the updates to the world.\<close>

definition stepped ::
  "'s trace_ops \<Rightarrow> ('s \<Rightarrow> bool) \<Rightarrow> ('s \<Rightarrow> rel_id \<Rightarrow> edition \<Rightarrow> tuple \<Rightarrow> diff) \<Rightarrow> 's \<Rightarrow> upd list \<Rightarrow> 's \<Rightarrow> bool" where
  "stepped ops I W s us s' \<longleftrightarrow> I s' \<and> ts_current ops s' = Suc (ts_current ops s) \<and>
     ts_watermark ops s' = ts_watermark ops s \<and> advances (W s) (ts_current ops s) us (W s')"

text \<open>The world at the current edition.\<close>

definition world_now ::
  "'s trace_ops \<Rightarrow> ('s \<Rightarrow> rel_id \<Rightarrow> edition \<Rightarrow> tuple \<Rightarrow> diff) \<Rightarrow> 's \<Rightarrow> rel_id \<Rightarrow> tuple \<Rightarrow> diff" where
  "world_now ops W s r t = W s r (ts_current ops s) t"

lemma stepped_now:
  "stepped ops I W s us s' \<Longrightarrow> world_now ops W s' r t = world_now ops W s r t + upd_weight us r t"
  by (simp add: stepped_def world_now_def advances_def)

lemma stepped_past:
  "stepped ops I W s us s' \<Longrightarrow> e \<le> ts_current ops s \<Longrightarrow> W s' r e t = W s r e t"
  by (simp add: stepped_def advances_def)

text \<open>
  What other writers may have done between two looks at a store: more editions, perhaps a
  higher watermark, and the same past.
\<close>

definition later ::
  "'s trace_ops \<Rightarrow> ('s \<Rightarrow> bool) \<Rightarrow> ('s \<Rightarrow> rel_id \<Rightarrow> edition \<Rightarrow> tuple \<Rightarrow> diff) \<Rightarrow> 's \<Rightarrow> 's \<Rightarrow> bool" where
  "later ops I W s s' \<longleftrightarrow> I s' \<and> ts_current ops s \<le> ts_current ops s' \<and>
     ts_watermark ops s \<le> ts_watermark ops s' \<and>
     (\<forall>r e t. ts_watermark ops s' \<le> e \<longrightarrow> e \<le> ts_current ops s \<longrightarrow> W s' r e t = W s r e t)"

lemma stepped_later: "stepped ops I W s us s' \<Longrightarrow> later ops I W s s'"
  by (simp add: stepped_def later_def advances_def)

lemma later_refl: "I s \<Longrightarrow> later ops I W s s"
  by (simp add: later_def)

lemma later_trans: "later ops I W s t \<Longrightarrow> later ops I W t u \<Longrightarrow> later ops I W s u"
  unfolding later_def by (metis order_trans)

context trace_store
begin

abbreviation wrote :: "'s \<Rightarrow> upd list \<Rightarrow> 's \<Rightarrow> bool" where
  "wrote \<equiv> stepped ops inv W"

abbreviation now :: "'s \<Rightarrow> rel_id \<Rightarrow> tuple \<Rightarrow> diff" where
  "now \<equiv> world_now ops W"

lemma commit_wrote:
  assumes "inv s"
  obtains s' where "ts_commit ops us s = (Inr (Suc (ts_current ops s)), s')" "wrote s us s'"
  using commit [OF assms, of us] by (auto simp: stepped_def)

lemma commit_if_won_wrote:
  assumes "inv s" and "holds_all (W s) (ts_current ops s) pre"
  obtains s' where "ts_commit_if ops pre us s = (Inr (Some (Suc (ts_current ops s))), s')" "wrote s us s'"
  using commit_if_won [OF assms, of us] by (auto simp: stepped_def)

text \<open>
  The three ways a commit ends: an unlawful patch is refused, a lawful one whose
  preconditions fail is rejected, and any other is written as one edition; in the first two
  cases the store is as it was.
\<close>

lemma commit_patch_cases:
  assumes "inv s"
  obtains (refused) e where "\<not> lawful (sch s) chk p a"
      "commit_patch_checked ops sch chk p a s = (Inl e, s)"
    | (rejected) "lawful (sch s) chk p a" "\<not> holds_all (W s) (ts_current ops s) (patch_preconditions p)"
      "commit_patch_checked ops sch chk p a s = (Inr Rejected, s)"
    | (committed) s' where "lawful (sch s) chk p a"
      "holds_all (W s) (ts_current ops s) (patch_preconditions p)"
      "commit_patch_checked ops sch chk p a s = (Inr (Committed (Suc (ts_current ops s))), s')"
      "wrote s (patch_updates p) s'"
proof (cases "lawful (sch s) chk p a")
  case False
  then obtain e where "check_patch (sch s) chk p a = Inl e" using check_patch_unlawful by blast
  then show ?thesis
    using refused False by (simp add: commit_patch_checked_def obind_oread_Inl)
next
  case True
  have run: "commit_patch_checked ops sch chk p a s =
      obind (ts_commit_if ops (patch_preconditions p) (patch_updates p)) (\<lambda>r. oret (outcome_of r)) s"
    using check_patch_ok [OF True]
    by (simp add: commit_patch_checked_def obind_oread_Inr patch_updates_def)
  show ?thesis
  proof (cases "holds_all (W s) (ts_current ops s) (patch_preconditions p)")
    case False
    then show ?thesis
      using rejected [OF True] run commit_if_lost [OF assms False]
      by (simp add: obind_apply outcome_of_def)
  next
    case hold: True
    then obtain s' where "ts_commit_if ops (patch_preconditions p) (patch_updates p) s
        = (Inr (Some (Suc (ts_current ops s))), s')" "wrote s (patch_updates p) s'"
      using commit_if_won_wrote [OF assms] by blast
    then show ?thesis
      using committed [OF True hold] run by (simp add: obind_apply outcome_of_def)
  qed
qed

lemma commit_patch_result:
  assumes "inv s" and "commit_patch_checked ops sch chk p a s = (r, s')"
  shows "inv s' \<and> ts_current ops s \<le> ts_current ops s' \<and> ts_watermark ops s' = ts_watermark ops s \<and>
    (r = Inr Rejected \<longrightarrow> s' = s) \<and> (\<forall>e. r = Inl e \<longrightarrow> s' = s) \<and>
    (\<forall>e. r = Inr (Committed e) \<longrightarrow> e = Suc (ts_current ops s) \<and> lawful (sch s) chk p a \<and>
       holds_all (W s) (ts_current ops s) (patch_preconditions p) \<and> wrote s (patch_updates p) s')"
  using assms(1)
  by (rule commit_patch_cases [of s sch chk p a]) (use assms in \<open>auto simp: stepped_def\<close>)

end

end
