(* ===== verification/Views.thy ===== *)
theory Views
  imports Commit
begin

text \<open>
  Snapshots (\<^verbatim>\<open>grmpl-diff/src/snapshot.rs\<close>) and maintained queries
  (\<^verbatim>\<open>grmpl-diff/src/watch.rs\<close>). A snapshot is the reader of one edition; a delta
  stream is a cursor that hands out the change of a query since the last look. The law that
  ties the two is proved over any store that meets the contract.
\<close>

section \<open>Snapshots\<close>

record snapshot =
  sn_edition :: edition
  sn_reader :: edition_reader

definition snapshot_new :: "'s trace_ops \<Rightarrow> 's \<Rightarrow> edition \<Rightarrow> snapshot" where
  "snapshot_new ops s e = \<lparr>sn_edition = e, sn_reader = ts_reader_at ops s e\<rparr>"

definition snapshot_at_current :: "'s trace_ops \<Rightarrow> 's \<Rightarrow> snapshot" where
  "snapshot_at_current ops s = snapshot_new ops s (ts_current ops s)"

definition snapshot_read :: "snapshot \<Rightarrow> rel_id \<Rightarrow> rows result" where
  "snapshot_read snap rel = er_read (sn_reader snap) rel"

definition snapshot_holds :: "snapshot \<Rightarrow> fact \<Rightarrow> bool result" where
  "snapshot_holds snap f =
     rbind (er_read (sn_reader snap) (f_rel f)) (\<lambda>rows. Inr (\<exists>(t, d)\<in>set rows. d > 0 \<and> t = f_tuple f))"

definition query_find :: "nat \<Rightarrow> query \<Rightarrow> snapshot \<Rightarrow> rows result" where
  "query_find fuel q snap =
     rbind (eval_snapshot_on fuel q (sn_reader snap)) (\<lambda>m. Inr (to_sorted_vec m))"

section \<open>Delta streams\<close>

record delta_stream =
  ds_query :: query
  ds_cursor :: edition
  ds_started :: bool

definition stream_new :: "query \<Rightarrow> edition \<Rightarrow> delta_stream" where
  "stream_new q from = \<lparr>ds_query = q, ds_cursor = from, ds_started = False\<rparr>"

text \<open>
  \<open>poll\<close>: the initial snapshot at first, then the change up to the current edition. The
  stream is returned with its cursor moved only when the delta was computed.
\<close>

definition stream_poll ::
  "nat \<Rightarrow> 's trace_ops \<Rightarrow> 's \<Rightarrow> delta_stream \<Rightarrow> rows result \<times> delta_stream" where
  "stream_poll fuel ops s ds =
     (if \<not> ds_started ds then
        (rbind (eval_snapshot fuel (ds_query ds) ops s (ds_cursor ds)) (\<lambda>m. Inr (to_sorted_vec m)),
         ds\<lparr>ds_started := True\<rparr>)
      else
        let to = ts_current ops s in
        if to = ds_cursor ds then (Inr [], ds)
        else case eval_delta fuel (ds_query ds) ops s (ds_cursor ds) to of
          Inl e \<Rightarrow> (Inl e, ds)
        | Inr delta \<Rightarrow> (Inr (to_sorted_vec delta), ds\<lparr>ds_cursor := to\<rparr>))"

text \<open>Polling a stream against a sequence of states, with everything it handed out.\<close>

fun stream_run ::
  "nat \<Rightarrow> 's trace_ops \<Rightarrow> 's list \<Rightarrow> delta_stream \<Rightarrow> rows result \<times> delta_stream" where
  "stream_run fuel ops [] ds = (Inr [], ds)"
| "stream_run fuel ops (s # ss) ds =
     (case stream_poll fuel ops s ds of
        (Inl e, ds') \<Rightarrow> (Inl e, ds')
      | (Inr rows, ds') \<Rightarrow>
          (case stream_run fuel ops ss ds' of
             (Inl e, ds'') \<Rightarrow> (Inl e, ds'')
           | (Inr rest, ds'') \<Rightarrow> (Inr (rows @ rest), ds'')))"

section \<open>What a view says\<close>

text \<open>
  At edition \<open>e\<close> of state \<open>s\<close> the view \<open>q\<close> has the value \<open>v\<close>, and the engine's side
  conditions hold there: materialized copies are maintained, shared nodes have one address
  each, and the rows fit the columns the query projects.
\<close>

definition answered ::
  "nat \<Rightarrow> 's trace_ops \<Rightarrow> ('s \<Rightarrow> rel_id \<Rightarrow> edition \<Rightarrow> tuple \<Rightarrow> diff) \<Rightarrow> (nat \<Rightarrow> query) \<Rightarrow>
   query \<Rightarrow> 's \<Rightarrow> edition \<Rightarrow> zset \<Rightarrow> bool" where
  "answered fuel ops W env q s e v \<longleftrightarrow>
     copies_ok fuel (W s) (contents ops s e) e q \<and> arcs_ok env q \<and>
     delta_ready (contents ops s e) q \<and> query_value fuel q (contents ops s e) None None = Inr v"

definition followable ::
  "nat \<Rightarrow> 's trace_ops \<Rightarrow> ('s \<Rightarrow> rel_id \<Rightarrow> edition \<Rightarrow> tuple \<Rightarrow> diff) \<Rightarrow> (nat \<Rightarrow> query) \<Rightarrow> query \<Rightarrow> 's \<Rightarrow> bool" where
  "followable fuel ops W env q s \<longleftrightarrow>
     (\<forall>e. ts_watermark ops s \<le> e \<longrightarrow> e \<le> ts_current ops s \<longrightarrow> (\<exists>v. answered fuel ops W env q s e v))"

lemma answered_unique: "answered fuel ops W env q s e v \<Longrightarrow> answered fuel ops W env q s e v' \<Longrightarrow> v = v'"
  by (simp add: answered_def)

lemma canonical_sorted_vec: "canonical m \<Longrightarrow> to_sorted_vec m = m"
proof -
  assume c: "canonical m"
  then have "\<forall>(t, d)\<in>set m. d \<noteq> 0" by (simp add: canonical_def nonzero_def)
  then have "filter (\<lambda>(t, d). d \<noteq> 0) m = m" by (simp add: filter_id_conv)
  moreover have "sorted m"
    using c by (auto simp: canonical_def osorted_def sorted_wrt_map less_prod_def less_eq_prod_def
        intro: sorted_wrt_mono_rel [where P = "\<lambda>a b. fst a < fst b"])
  ultimately show ?thesis by (simp add: to_sorted_vec_def sorted_sort_id)
qed

context trace_store
begin

lemma answered_snapshot:
  assumes "inv s" "ts_watermark ops s \<le> e" "answered fuel ops W env q s e v"
  shows "eval_snapshot fuel q ops s e = Inr v" and "canonical v"
  using snapshot_meaning [OF assms(1,2), of fuel q env] value_canonical [OF assms(1,2), of fuel q v] assms(3)
  by (simp_all add: answered_def)

lemma answered_delta:
  assumes "inv s" "ts_watermark ops s \<le> from" "from \<le> to"
    and "answered fuel ops W env q s from a" "answered fuel ops W env q s to b"
  shows "\<exists>d. eval_delta fuel q ops s from to = Inr d \<and> is_delta d a b"
  using eval_delta_correct [OF assms(1-3), of fuel q env a b] assms(4,5) by (simp add: answered_def)

lemma later_contents:
  assumes "inv s" "later ops inv W s s'" "ts_watermark ops s' \<le> e" "e \<le> ts_current ops s"
  shows "contents ops s' e = contents ops s e"
proof (rule ext)
  fix r
  have s': "inv s'" and w: "ts_watermark ops s \<le> e"
    and eq: "W s' r e t = W s r e t" for t using assms(2-4) by (auto simp: later_def)
  show "contents ops s' e r = contents ops s e r"
    by (rule canonical_ext) (simp_all add: contents_ok s' assms(1,3) w eq)
qed

lemma later_value:
  assumes "inv s" "later ops inv W s s'" "ts_watermark ops s' \<le> e" "e \<le> ts_current ops s"
    and "answered fuel ops W env q s e v" "answered fuel ops W env q s' e v'"
  shows "v' = v"
  using later_contents [OF assms(1-4)] assms(5,6) by (simp add: answered_def)

lemma find_value:
  assumes "inv s" "ts_watermark ops s \<le> e" "answered fuel ops W env q s e v"
  shows "query_find fuel q (snapshot_new ops s e) = Inr v"
  using answered_snapshot [OF assms]
  by (simp add: query_find_def snapshot_new_def eval_snapshot_def canonical_sorted_vec)

text \<open>A fact holds in a snapshot exactly when its weight there is positive.\<close>

lemma snapshot_holds_iff:
  assumes "inv s" "ts_watermark ops s \<le> e"
  shows "snapshot_holds (snapshot_new ops s e) f = Inr (0 < W s (f_rel f) e (f_tuple f))"
proof -
  obtain rows where rows: "ts_read_at ops s (f_rel f) e = Inr rows" "canonical rows"
    "\<And>t. wsum rows t = W s (f_rel f) e t" using read_at [OF assms] by blast
  have "(\<exists>(t, d)\<in>set rows. d > 0 \<and> t = f_tuple f) \<longleftrightarrow> 0 < W s (f_rel f) e (f_tuple f)"
    using canonical_mem [OF rows(2)] rows(3)
    by (auto simp: case_prod_unfold intro!: bexI [of _ "(f_tuple f, W s (f_rel f) e (f_tuple f))"])
  then show ?thesis
    by (simp add: snapshot_holds_def snapshot_new_def reader_read [OF assms(1)] rows(1))
qed

text \<open>One poll of a started stream hands out the change of the view and moves the cursor to now.\<close>

lemma poll_started:
  assumes "inv s" "ts_watermark ops s \<le> ds_cursor ds" "ds_cursor ds \<le> ts_current ops s" "ds_started ds"
    and "answered fuel ops W env (ds_query ds) s (ds_cursor ds) a"
    and "answered fuel ops W env (ds_query ds) s (ts_current ops s) b"
  shows "\<exists>d. stream_poll fuel ops s ds = (Inr d, ds\<lparr>ds_cursor := ts_current ops s\<rparr>) \<and> is_delta d a b"
proof (cases "ts_current ops s = ds_cursor ds")
  case True
  then have "a = b" using assms(5,6) answered_unique by metis
  moreover have "ds\<lparr>ds_cursor := ts_current ops s\<rparr> = ds" using True by simp
  ultimately show ?thesis
    using True assms(4) by (simp add: stream_poll_def is_delta_same)
next
  case False
  obtain d where "eval_delta fuel (ds_query ds) ops s (ds_cursor ds) (ts_current ops s) = Inr d"
    "is_delta d a b" using answered_delta [OF assms(1-3,5,6)] by blast
  then show ?thesis
    using False assms(4) by (auto simp: stream_poll_def is_delta_def canonical_sorted_vec)
qed

text \<open>
  The snapshot-stream law for the rest of a run: what the polls hand out is the difference of
  the view between where the cursor stood and where it ends.
\<close>

lemma run_started:
  assumes "inv s0" "ds_started ds" "ds_cursor ds \<le> ts_current ops s0" "ds_query ds = q"
    and "answered fuel ops W env q s0 (ds_cursor ds) a"
    and "sorted_wrt (later ops inv W) (s0 # ss)"
    and "\<forall>s\<in>set ss. ts_watermark ops s \<le> ds_cursor ds \<and> followable fuel ops W env q s"
  shows "\<exists>rows ds' b. stream_run fuel ops ss ds = (Inr rows, ds') \<and>
    answered fuel ops W env q (last (s0 # ss)) (ds_cursor ds') b \<and>
    (ss \<noteq> [] \<longrightarrow> ds_cursor ds' = ts_current ops (last ss)) \<and>
    (\<forall>t. wsum rows t = wsum b t - wsum a t)"
  using assms
proof (induction ss arbitrary: s0 ds a)
  case Nil
  then show ?case by auto
next
  case (Cons s ss)
  have l: "later ops inv W s0 s" and s: "inv s" and wm: "ts_watermark ops s \<le> ds_cursor ds"
    using Cons.prems(6,7) by (auto simp: later_def)
  have cur: "ts_current ops s0 \<le> ts_current ops s" using l by (simp add: later_def)
  then have le: "ds_cursor ds \<le> ts_current ops s" using Cons.prems(3) by simp
  obtain a' where a': "answered fuel ops W env q s (ds_cursor ds) a'"
    using Cons.prems(7) wm le by (auto simp: followable_def)
  have "a' = a" by (rule later_value [OF Cons.prems(1) l wm Cons.prems(3,5) a'])
  obtain b where b: "answered fuel ops W env q s (ts_current ops s) b"
    using Cons.prems(7) horizon [OF s] by (auto simp: followable_def)
  let ?ds = "ds\<lparr>ds_cursor := ts_current ops s\<rparr>"
  obtain d where d: "stream_poll fuel ops s ds = (Inr d, ?ds)" "is_delta d a b"
    using poll_started [OF s wm le Cons.prems(2), of fuel env a b] a' b \<open>a' = a\<close> Cons.prems(4) by auto
  have "\<exists>rows ds' b'. stream_run fuel ops ss ?ds = (Inr rows, ds') \<and>
    answered fuel ops W env q (last (s # ss)) (ds_cursor ds') b' \<and>
    (ss \<noteq> [] \<longrightarrow> ds_cursor ds' = ts_current ops (last ss)) \<and>
    (\<forall>t. wsum rows t = wsum b' t - wsum b t)"
    by (rule Cons.IH [OF s]) (use Cons.prems b le in \<open>auto intro: order_trans\<close>)
  then obtain rows ds' b' where run: "stream_run fuel ops ss ?ds = (Inr rows, ds')"
    and b': "answered fuel ops W env q (last (s # ss)) (ds_cursor ds') b'"
    and cursor: "ss \<noteq> [] \<longrightarrow> ds_cursor ds' = ts_current ops (last ss)"
    and rows: "\<And>t. wsum rows t = wsum b' t - wsum b t" by blast
  have "stream_run fuel ops (s # ss) ds = (Inr (d @ rows), ds')" using d(1) run by simp
  moreover have "wsum (d @ rows) t = wsum b' t - wsum a t" for t
    using d(2) rows [of t] by (simp add: is_delta_def)
  moreover have "ds_cursor ds' = ts_current ops (last (s # ss))"
    using cursor run by (cases ss) auto
  ultimately show ?case using b' by auto
qed

text \<open>The snapshot-stream law: initial snapshot and deltas add up to the view at the cursor.\<close>

lemma stream_law:
  assumes "inv s" "from \<le> ts_current ops s"
    and "sorted_wrt (later ops inv W) (s # ss)"
    and "\<forall>s'\<in>set (s # ss). ts_watermark ops s' \<le> from \<and> followable fuel ops W env q s'"
  shows "\<exists>rows ds b. stream_run fuel ops (s # ss) (stream_new q from) = (Inr rows, ds) \<and>
    answered fuel ops W env q (last (s # ss)) (ds_cursor ds) b \<and>
    ds_cursor ds = (if ss = [] then from else ts_current ops (last ss)) \<and>
    (\<forall>t. wsum rows t = wsum b t)"
proof -
  obtain a where a: "answered fuel ops W env q s from a"
    using assms(2,4) by (auto simp: followable_def)
  let ?ds = "(stream_new q from)\<lparr>ds_started := True\<rparr>"
  have wm: "ts_watermark ops s \<le> from" using assms(4) by simp
  have poll: "stream_poll fuel ops s (stream_new q from) = (Inr a, ?ds)"
    using answered_snapshot [OF assms(1) wm a]
    by (simp add: stream_poll_def stream_new_def canonical_sorted_vec)
  obtain rows ds b where "stream_run fuel ops ss ?ds = (Inr rows, ds)"
    "answered fuel ops W env q (last (s # ss)) (ds_cursor ds) b"
    "ss \<noteq> [] \<longrightarrow> ds_cursor ds = ts_current ops (last ss)"
    "\<And>t. wsum rows t = wsum b t - wsum a t"
    using run_started [OF assms(1), of ?ds q fuel env a ss] a assms(2-4)
    by (auto simp: stream_new_def)
  then show ?thesis using poll by (cases ss) (auto simp: stream_new_def)
qed

end

end
