(* ===== verification/Counters.thy ===== *)
theory Counters
  imports Views
begin

text \<open>
  Counters kept as rows (\<^verbatim>\<open>grmpl-proc/src/alloc.rs\<close> and the \<open>SeqAlloc\<close> of
  \<^verbatim>\<open>schedule.rs\<close>): an allocator reads the counter, hands out numbers, and seals
  the advance into the patch that uses them, guarded by the row it read. A number is an
  \<open>i64\<close>; the sums wrap as the words do, and the theorems bound them where it matters.
\<close>

section \<open>Reading a counter\<close>

text \<open>The loop of the two \<open>from_rows\<close>: the last live row that holds a counter decides.\<close>

definition counter_scan :: "(tuple \<Rightarrow> i64 option) \<Rightarrow> i64 \<Rightarrow> rows \<Rightarrow> i64 \<times> bool" where
  "counter_scan cell base rows =
     foldl (\<lambda>(start, present) (t, d).
       if d > 0 then (case cell t of Some v \<Rightarrow> (v, True) | None \<Rightarrow> (start, present))
       else (start, present)) (base, False) rows"

definition first_int :: "tuple \<Rightarrow> i64 option" where
  "first_int t = (case get t 0 of Some (VInt v) \<Rightarrow> Some v | _ \<Rightarrow> None)"

definition keyed_int :: "val list \<Rightarrow> tuple \<Rightarrow> i64 option" where
  "keyed_int key t =
     (if length t = length key + 1 \<and> take (length key) t = key
      then (case get t (length key) of Some (VInt v) \<Rightarrow> Some v | _ \<Rightarrow> None) else None)"

section \<open>Entity ids\<close>

record alloc =
  al_rel :: rel_id
  al_start :: i64
  al_present :: bool
  al_n :: i64

definition alloc_from_rows :: "rel_id \<Rightarrow> rows \<Rightarrow> i64 \<Rightarrow> alloc" where
  "alloc_from_rows rel rows base =
     (case counter_scan first_int base rows of (start, present) \<Rightarrow>
        \<lparr>al_rel = rel, al_start = start, al_present = present, al_n = 0\<rparr>)"

definition alloc_read :: "'s trace_ops \<Rightarrow> 's \<Rightarrow> rel_id \<Rightarrow> i64 \<Rightarrow> alloc result" where
  "alloc_read ops s rel base =
     rbind (ts_read_at ops s rel (ts_current ops s)) (\<lambda>rows. Inr (alloc_from_rows rel rows base))"

definition alloc_from_snapshot :: "snapshot \<Rightarrow> rel_id \<Rightarrow> i64 \<Rightarrow> alloc result" where
  "alloc_from_snapshot snap rel base =
     rbind (snapshot_read snap rel) (\<lambda>rows. Inr (alloc_from_rows rel rows base))"

definition alloc_fresh :: "alloc \<Rightarrow> entity \<times> alloc" where
  "alloc_fresh a = (let i = al_start a + al_n a in (i, a\<lparr>al_n := al_n a + 1\<rparr>))"

definition alloc_seed :: "alloc \<Rightarrow> patch \<Rightarrow> patch" where
  "alloc_seed a p =
     (if al_present a then p else patch_assert (fact_new (al_rel a) [VInt (al_start a)]) p)"

definition alloc_seal :: "alloc \<Rightarrow> patch \<Rightarrow> patch" where
  "alloc_seal a p =
     (if al_n a = 0 then p
      else
        let guard = fact_new (al_rel a) [VInt (al_start a)];
            p = (if al_present a then patch_retract guard (patch_expect guard p) else p)
        in patch_assert (fact_new (al_rel a) [VInt (al_start a + al_n a)]) p)"

section \<open>Sequence numbers\<close>

record seq_alloc =
  sq_rel :: rel_id
  sq_key :: "val list"
  sq_start :: i64
  sq_present :: bool
  sq_n :: i64

definition seq_from_rows :: "rel_id \<Rightarrow> val list \<Rightarrow> rows \<Rightarrow> seq_alloc" where
  "seq_from_rows rel key rows =
     (case counter_scan (keyed_int key) 0 rows of (start, present) \<Rightarrow>
        \<lparr>sq_rel = rel, sq_key = key, sq_start = start, sq_present = present, sq_n = 0\<rparr>)"

definition seq_read :: "'s trace_ops \<Rightarrow> 's \<Rightarrow> rel_id \<Rightarrow> val list \<Rightarrow> seq_alloc result" where
  "seq_read ops s rel key =
     rbind (ts_read_at ops s rel (ts_current ops s)) (\<lambda>rows. Inr (seq_from_rows rel key rows))"

definition seq_from_snapshot :: "snapshot \<Rightarrow> rel_id \<Rightarrow> val list \<Rightarrow> seq_alloc result" where
  "seq_from_snapshot snap rel key =
     rbind (snapshot_read snap rel) (\<lambda>rows. Inr (seq_from_rows rel key rows))"

definition seq_peek :: "seq_alloc \<Rightarrow> i64" where
  "seq_peek a = sq_start a + sq_n a"

definition seq_fresh :: "seq_alloc \<Rightarrow> i64 \<times> seq_alloc" where
  "seq_fresh a = (let i = sq_start a + sq_n a in (i, a\<lparr>sq_n := sq_n a + 1\<rparr>))"

definition counter_tuple :: "seq_alloc \<Rightarrow> i64 \<Rightarrow> tuple" where
  "counter_tuple a v = sq_key a @ [VInt v]"

definition seq_seed :: "seq_alloc \<Rightarrow> patch \<Rightarrow> patch" where
  "seq_seed a p =
     (if sq_present a then p else patch_assert (fact_new (sq_rel a) (counter_tuple a 0)) p)"

definition seq_seal :: "seq_alloc \<Rightarrow> patch \<Rightarrow> patch" where
  "seq_seal a p =
     (if sq_n a = 0 then p
      else
        let guard = fact_new (sq_rel a) (counter_tuple a (sq_start a));
            p = (if sq_present a then patch_retract guard (patch_expect guard p) else p)
        in patch_assert (fact_new (sq_rel a) (counter_tuple a (sq_start a + sq_n a))) p)"

section \<open>What a counter row says\<close>

text \<open>One live row of weight one under the key.\<close>

definition counter :: "(rel_id \<Rightarrow> tuple \<Rightarrow> diff) \<Rightarrow> rel_id \<Rightarrow> val list \<Rightarrow> i64 \<Rightarrow> bool" where
  "counter w rel key v \<longleftrightarrow> (\<forall>x. w rel (key @ [VInt x]) = (if x = v then 1 else 0))"

definition single_column :: "(rel_id \<Rightarrow> tuple \<Rightarrow> diff) \<Rightarrow> rel_id \<Rightarrow> bool" where
  "single_column w rel \<longleftrightarrow> (\<forall>t. 0 < w rel t \<longrightarrow> length t \<le> 1)"

lemma counter_unique: "counter w rel key v \<Longrightarrow> counter w rel key v' \<Longrightarrow> v = v'"
  unfolding counter_def by (metis zero_neq_one)

lemma counter_holds: "counter w rel key v \<Longrightarrow> 0 < w rel (key @ [VInt x]) \<longleftrightarrow> x = v"
  by (simp add: counter_def)

lemma counter_scan_Nil [simp]: "counter_scan cell base [] = (base, False)"
  by (simp add: counter_scan_def)

lemma counter_scan_snoc [simp]:
  "counter_scan cell base (rows @ [(t, d)]) =
     (if 0 < d \<and> cell t \<noteq> None then (the (cell t), True) else counter_scan cell base rows)"
  by (auto simp: counter_scan_def case_prod_unfold)

lemma counter_scan_none:
  "(\<And>t d. (t, d) \<in> set rows \<Longrightarrow> 0 < d \<Longrightarrow> cell t = None) \<Longrightarrow> counter_scan cell base rows = (base, False)"
proof (induction rows rule: rev_induct)
  case (snoc p rows)
  obtain t d where p: "p = (t, d)" by (cases p)
  have "counter_scan cell base rows = (base, False)" by (rule snoc.IH) (use snoc.prems in auto)
  then show ?case using snoc.prems [of t d] by (auto simp: p)
qed simp

lemma counter_scan_some:
  assumes "\<And>t d x. (t, d) \<in> set rows \<Longrightarrow> 0 < d \<Longrightarrow> cell t = Some x \<Longrightarrow> x = v"
    and "(t, d) \<in> set rows" "0 < d" "cell t = Some v"
  shows "counter_scan cell base rows = (v, True)"
  using assms
proof (induction rows rule: rev_induct)
  case (snoc p rows)
  obtain t' d' where p: "p = (t', d')" by (cases p)
  show ?case
  proof (cases "0 < d' \<and> cell t' \<noteq> None")
    case True
    then have "cell t' = Some v" using snoc.prems(1) [of t' d'] p by auto
    then show ?thesis using True by (simp add: p)
  next
    case False
    then have "(t, d) \<in> set rows" using snoc.prems p by auto
    moreover have "x = v" if "(t, d) \<in> set rows" "0 < d" "cell t = Some x" for t d x
      using snoc.prems(1) [of t d x] that by simp
    ultimately have "counter_scan cell base rows = (v, True)"
      using snoc.IH snoc.prems(3,4) by blast
    then show ?thesis using False by (auto simp: p)
  qed
qed simp

lemma keyed_int_iff: "keyed_int key t = Some x \<longleftrightarrow> t = key @ [VInt x]"
proof
  assume "keyed_int key t = Some x"
  then have len: "length t = length key + 1" and key: "take (length key) t = key"
    and x: "t ! length key = VInt x"
    by (auto simp: keyed_int_def get_Some_iff split: if_splits option.splits val.splits)
  have "t = take (length key) t @ [t ! length key]"
    using len by (metis Suc_eq_plus1 lessI take_Suc_conv_app_nth take_all_iff order_refl)
  then show "t = key @ [VInt x]" using key x by simp
qed (simp add: keyed_int_def get_def)

lemma first_int_single: "length t \<le> 1 \<Longrightarrow> first_int t = Some x \<longleftrightarrow> t = [VInt x]"
  by (cases t) (auto simp: first_int_def get_def split: val.splits)

lemma seq_from_rows_counter:
  assumes "canonical rows" "\<And>t. wsum rows t = w rel t" "counter w rel key v"
  shows "seq_from_rows rel key rows = \<lparr>sq_rel = rel, sq_key = key, sq_start = v, sq_present = True, sq_n = 0\<rparr>"
proof -
  have mem: "(t, d) \<in> set rows \<longleftrightarrow> d \<noteq> 0 \<and> w rel t = d" for t d
    using canonical_mem [OF assms(1)] assms(2) by auto
  have "counter_scan (keyed_int key) 0 rows = (v, True)"
  proof (rule counter_scan_some)
    show "(key @ [VInt v], 1) \<in> set rows" using assms(3) by (simp add: mem counter_def)
    show "x = v" if "(t, d) \<in> set rows" "0 < d" "keyed_int key t = Some x" for t d x
      using that assms(3) by (auto simp: mem keyed_int_iff counter_def split: if_splits)
  qed (simp_all add: keyed_int_iff)
  then show ?thesis by (simp add: seq_from_rows_def)
qed

lemma seq_from_rows_unseeded:
  assumes "canonical rows" "\<And>t. wsum rows t = w rel t" "\<And>x. w rel (key @ [VInt x]) \<le> 0"
  shows "seq_from_rows rel key rows = \<lparr>sq_rel = rel, sq_key = key, sq_start = 0, sq_present = False, sq_n = 0\<rparr>"
proof -
  have "(t, d) \<in> set rows \<longleftrightarrow> d \<noteq> 0 \<and> w rel t = d" for t d
    using canonical_mem [OF assms(1)] assms(2) by auto
  then have "counter_scan (keyed_int key) 0 rows = (0, False)"
    using assms(3) by (intro counter_scan_none) (metis keyed_int_iff not_less option.exhaust)
  then show ?thesis by (simp add: seq_from_rows_def)
qed

lemma alloc_from_rows_counter:
  assumes "canonical rows" "\<And>t. wsum rows t = w rel t" "counter w rel [] v" "single_column w rel"
  shows "alloc_from_rows rel rows base = \<lparr>al_rel = rel, al_start = v, al_present = True, al_n = 0\<rparr>"
proof -
  have mem: "(t, d) \<in> set rows \<longleftrightarrow> d \<noteq> 0 \<and> w rel t = d" for t d
    using canonical_mem [OF assms(1)] assms(2) by auto
  have "counter_scan first_int base rows = (v, True)"
  proof (rule counter_scan_some)
    show "([VInt v], 1) \<in> set rows" using assms(3) by (auto simp: mem counter_def)
    show "x = v" if "(t, d) \<in> set rows" "0 < d" "first_int t = Some x" for t d x
    proof -
      have "length t \<le> 1" using that(1,2) assms(4) by (auto simp: mem single_column_def)
      then have "t = [VInt x]" using that(3) by (simp add: first_int_single)
      then show ?thesis using that(1,2) assms(3) by (auto simp: mem counter_def split: if_splits)
    qed
  qed (simp_all add: first_int_single)
  then show ?thesis by (simp add: alloc_from_rows_def)
qed

section \<open>What a sealed patch does to its counter\<close>

lemma upd_weight_signed: "upd_weight (signed d fs) r t = d * int (count_list fs (fact_new r t))"
proof (induction fs)
  case (Cons f fs)
  have "f = fact_new r t \<longleftrightarrow> f_rel f = r \<and> f_tuple f = t" by (cases f) (auto simp: fact_new_def)
  then show ?case using Cons by (auto simp: signed_def algebra_simps)
qed (simp add: signed_def)

lemma signed_append [simp]: "signed d (fs @ gs) = signed d fs @ signed d gs"
  by (simp add: signed_def)

lemma signed_Cons [simp]: "signed d (f # fs) = (f_rel f, f_tuple f, d) # signed d fs"
  by (simp add: signed_def)

lemma signed_Nil [simp]: "signed d [] = []"
  by (simp add: signed_def)

lemma upd_weight_builders [simp]:
  "upd_weight (patch_updates (patch_assert f p)) r t =
     upd_weight (patch_updates p) r t + (if f_rel f = r \<and> f_tuple f = t then 1 else 0)"
  "upd_weight (patch_updates (patch_retract f p)) r t =
     upd_weight (patch_updates p) r t - (if f_rel f = r \<and> f_tuple f = t then 1 else 0)"
  "patch_updates (patch_expect f p) = patch_updates p"
  by (simp_all add: patch_updates_def patch_builders timer_facts_def)

lemma preconditions_builders [simp]:
  "patch_preconditions (patch_assert f p) = patch_preconditions p"
  "patch_preconditions (patch_retract f p) = patch_preconditions p"
  "patch_preconditions (patch_expect f p) = patch_preconditions p @ [(f_rel f, f_tuple f)]"
  by (simp_all add: patch_preconditions_def patch_builders)

lemma holds_all_append [simp]: "holds_all w e (ps @ qs) \<longleftrightarrow> holds_all w e ps \<and> holds_all w e qs"
  by (auto simp: holds_all_def)

lemma holds_all_single [simp]: "holds_all w e [(r, t)] \<longleftrightarrow> 0 < w r e t"
  by (simp add: holds_all_def)

lemma holds_all_Nil [simp]: "holds_all w e []"
  by (simp add: holds_all_def)

text \<open>
  Sealing an allocation from a present counter adds one guard and, beside the patch's own
  updates, moves the counter's row.
\<close>

lemma seq_seal_preconditions:
  assumes "sq_n a \<noteq> 0" "sq_present a"
  shows "patch_preconditions (seq_seal a p) =
    patch_preconditions p @ [(sq_rel a, sq_key a @ [VInt (sq_start a)])]"
  using assms by (simp add: seq_seal_def Let_def counter_tuple_def)

lemma seq_seal_weight:
  assumes "sq_n a \<noteq> 0" "sq_present a"
  shows "upd_weight (patch_updates (seq_seal a p)) r t = upd_weight (patch_updates p) r t
    + (if r = sq_rel a \<and> t = sq_key a @ [VInt (sq_start a + sq_n a)] then 1 else 0)
    - (if r = sq_rel a \<and> t = sq_key a @ [VInt (sq_start a)] then 1 else 0)"
  using assms by (auto simp: seq_seal_def Let_def counter_tuple_def)

lemma alloc_seal_preconditions:
  assumes "al_n a \<noteq> 0" "al_present a"
  shows "patch_preconditions (alloc_seal a p) = patch_preconditions p @ [(al_rel a, [VInt (al_start a)])]"
  using assms by (simp add: alloc_seal_def Let_def)

lemma alloc_seal_weight:
  assumes "al_n a \<noteq> 0" "al_present a"
  shows "upd_weight (patch_updates (alloc_seal a p)) r t = upd_weight (patch_updates p) r t
    + (if r = al_rel a \<and> t = [VInt (al_start a + al_n a)] then 1 else 0)
    - (if r = al_rel a \<and> t = [VInt (al_start a)] then 1 else 0)"
  using assms by (auto simp: alloc_seal_def Let_def)

lemma counter_moves:
  assumes "counter w rel key v" "n \<noteq> 0"
    and "\<And>x. w' rel (key @ [VInt x]) = w rel (key @ [VInt x])
      + (if x = v + n then 1 else 0) - (if x = v then 1 else 0)"
  shows "counter w' rel key (v + n)"
  using assms by (auto simp: counter_def)

context trace_store
begin

text \<open>Reading at the current edition finds the counter that the world holds now.\<close>

lemma read_now:
  assumes "inv s"
  shows "\<exists>rows. ts_read_at ops s r (ts_current ops s) = Inr rows \<and> canonical rows \<and>
    (\<forall>t. wsum rows t = now s r t)"
  using read_at [OF assms horizon [OF assms]] by (simp add: world_now_def)

lemma seq_read_counter:
  assumes "inv s" "counter (now s) rel key v"
  shows "seq_read ops s rel key =
    Inr \<lparr>sq_rel = rel, sq_key = key, sq_start = v, sq_present = True, sq_n = 0\<rparr>"
  using read_now [OF assms(1), of rel] seq_from_rows_counter [of _ "now s" rel key v] assms(2)
  by (auto simp: seq_read_def)

lemma seq_read_unseeded:
  assumes "inv s" "\<And>x. now s rel (key @ [VInt x]) \<le> 0"
  shows "seq_read ops s rel key =
    Inr \<lparr>sq_rel = rel, sq_key = key, sq_start = 0, sq_present = False, sq_n = 0\<rparr>"
  using read_now [OF assms(1), of rel] seq_from_rows_unseeded [of _ "now s" rel key] assms(2)
  by (auto simp: seq_read_def)

lemma alloc_read_counter:
  assumes "inv s" "counter (now s) rel [] v" "single_column (now s) rel"
  shows "alloc_read ops s rel base =
    Inr \<lparr>al_rel = rel, al_start = v, al_present = True, al_n = 0\<rparr>"
  using read_now [OF assms(1), of rel] alloc_from_rows_counter [of _ "now s" rel v base] assms(2,3)
  by (auto simp: alloc_read_def)

text \<open>
  A sealed allocation commits only while the counter still stands where the allocator read
  it, and leaves it past every number that was handed out.
\<close>

lemma alloc_seal_committed:
  assumes "inv s" "counter (now s) (al_rel a) [] v"
    and "al_n a \<noteq> 0" "al_present a"
    and "\<And>x. upd_weight (patch_updates p) (al_rel a) [VInt x] = 0"
    and "commit_patch_checked ops sch chk (alloc_seal a p) au s = (Inr (Committed e), s')"
  shows "al_start a = v \<and> counter (now s') (al_rel a) [] (v + al_n a)"
proof -
  have h: "holds_all (W s) (ts_current ops s) (patch_preconditions (alloc_seal a p))"
    and w: "wrote s (patch_updates (alloc_seal a p)) s'"
    using commit_patch_result [OF assms(1,6)] by auto
  then have "0 < now s (al_rel a) [VInt (al_start a)]"
    by (simp add: alloc_seal_preconditions [OF assms(3,4)] world_now_def)
  then have v: "al_start a = v" using counter_holds [OF assms(2), of "al_start a"] by simp
  have "counter (now s') (al_rel a) [] (v + al_n a)"
    by (rule counter_moves [OF assms(2,3)])
      (simp add: stepped_now [OF w] alloc_seal_weight [OF assms(3,4)] assms(5) v)
  with v show ?thesis by simp
qed

end

end
