(* ===== verification/Mailbox.thy ===== *)
theory Mailbox
  imports Counters
begin

text \<open>
  Inboxes (the sender's side of \<^verbatim>\<open>grmpl-proc/src/process.rs\<close>): rows
  \<open>(process, seq, body)\<close> numbered by a durable counter. What a mailbox promises its readers
  is an abstract queue: the messages at positions \<open>0, 1, ...\<close> and a counter at their number.
  Other writers run between an attempt's reads and its commit; they are a function \<open>peers\<close>
  from the attempt to the change they make.
\<close>

section \<open>Attempts against a store that others write to\<close>

type_synonym 's peers = "nat \<Rightarrow> 's \<Rightarrow> 's"

definition opause :: "('s \<Rightarrow> 's) \<Rightarrow> ('s, unit) op" where
  "opause f s = (Inr (), f s)"

text \<open>\<open>for _ in 0..n\<close> around an attempt that may ask for another.\<close>

fun retry_loop :: "nat \<Rightarrow> nat \<Rightarrow> (nat \<Rightarrow> ('s, 'a option) op) \<Rightarrow> ('s, 'a) op \<Rightarrow> ('s, 'a) op" where
  "retry_loop 0 k attempt fallback = fallback"
| "retry_loop (Suc n) k attempt fallback =
     obind (attempt k) (\<lambda>r. case r of Some x \<Rightarrow> oret x | None \<Rightarrow> retry_loop n (Suc k) attempt fallback)"

section \<open>Sending\<close>

definition inbox_row :: "entity \<Rightarrow> i64 \<Rightarrow> tuple \<Rightarrow> tuple" where
  "inbox_row p seq body = [VEnt p, VInt seq, VTuple body]"

definition inbox_fact :: "rel_id \<Rightarrow> entity \<Rightarrow> i64 \<Rightarrow> tuple \<Rightarrow> fact" where
  "inbox_fact inbox p seq body = fact_new inbox (inbox_row p seq body)"

definition enqueue :: "'s trace_ops \<Rightarrow> rel_id \<Rightarrow> entity \<Rightarrow> i64 \<Rightarrow> tuple \<Rightarrow> ('s, edition) op" where
  "enqueue ops inbox p seq body = ts_commit ops [(inbox, inbox_row p seq body, 1)]"

definition seed_seq :: "'s trace_ops \<Rightarrow> rel_id \<Rightarrow> entity \<Rightarrow> ('s, unit) op" where
  "seed_seq ops seqs p =
     obind (oread (\<lambda>s. seq_read ops s seqs [VEnt p])) (\<lambda>a.
       let patch = seq_seed a patch_new in
       if p_asserts patch \<noteq> [] then obind (ts_commit ops (signed 1 (p_asserts patch))) (\<lambda>_. oret ())
       else oret ())"

definition enqueue_attempt ::
  "'s trace_ops \<Rightarrow> rel_id \<Rightarrow> rel_id \<Rightarrow> entity \<Rightarrow> tuple \<Rightarrow> ('s \<Rightarrow> 's) \<Rightarrow> ('s, i64 option) op" where
  "enqueue_attempt ops inbox seqs p body peer =
     obind (oread (\<lambda>s. seq_read ops s seqs [VEnt p])) (\<lambda>a.
     obind (opause peer) (\<lambda>_.
       case seq_fresh a of (seq, a) \<Rightarrow>
         let patch = seq_seal a (patch_assert (inbox_fact inbox p seq body) patch_new);
             updates = signed 1 (p_asserts patch) @ signed (-1) (p_retracts patch)
         in obind (ts_commit_if ops (patch_preconditions patch) updates) (\<lambda>r.
              oret (case r of Some _ \<Rightarrow> Some seq | None \<Rightarrow> None))))"

definition enqueue_seq ::
  "'s trace_ops \<Rightarrow> 's peers \<Rightarrow> rel_id \<Rightarrow> rel_id \<Rightarrow> entity \<Rightarrow> tuple \<Rightarrow> ('s, i64) op" where
  "enqueue_seq ops peers inbox seqs p body =
     retry_loop 256 0 (\<lambda>k. enqueue_attempt ops inbox seqs p body (peers k))
       (ofail (Err (EStore ''inbox seq allocation did not settle within retry cap'')))"

section \<open>A mailbox is a queue\<close>

text \<open>
  The rows of \<open>p\<close> in \<open>inbox\<close> are the messages \<open>ms\<close>, one row each, at their positions, and the
  counter is at their number.
\<close>

definition holds_messages :: "(rel_id \<Rightarrow> tuple \<Rightarrow> diff) \<Rightarrow> rel_id \<Rightarrow> entity \<Rightarrow> tuple list \<Rightarrow> bool" where
  "holds_messages w inbox p ms \<longleftrightarrow>
     (\<forall>x b. w inbox (inbox_row p x b) = (if unat x < length ms \<and> ms ! unat x = b then 1 else 0)) \<and>
     (\<forall>t. 0 < w inbox t \<longrightarrow> get t 0 = Some (VEnt p) \<longrightarrow> (\<exists>x b. t = inbox_row p x b))"

definition mailbox :: "(rel_id \<Rightarrow> tuple \<Rightarrow> diff) \<Rightarrow> rel_id \<Rightarrow> rel_id \<Rightarrow> entity \<Rightarrow> tuple list \<Rightarrow> bool" where
  "mailbox w inbox seqs p ms \<longleftrightarrow>
     holds_messages w inbox p ms \<and> counter w seqs [VEnt p] (word_of_nat (length ms)) \<and> inbox \<noteq> seqs"

text \<open>Peers that append to the mailbox, and otherwise do what any writer may.\<close>

definition appends ::
  "'s trace_ops \<Rightarrow> ('s \<Rightarrow> bool) \<Rightarrow> ('s \<Rightarrow> rel_id \<Rightarrow> edition \<Rightarrow> tuple \<Rightarrow> diff) \<Rightarrow>
   rel_id \<Rightarrow> rel_id \<Rightarrow> entity \<Rightarrow> 's peers \<Rightarrow> bool" where
  "appends ops I W inbox seqs p peers \<longleftrightarrow>
     (\<forall>k s ms. I s \<longrightarrow> mailbox (world_now ops W s) inbox seqs p ms \<longrightarrow> Suc (length ms) < 2 ^ 63 \<longrightarrow>
        later ops I W s (peers k s) \<and>
        (\<exists>new. mailbox (world_now ops W (peers k s)) inbox seqs p (ms @ new) \<and>
           Suc (length (ms @ new)) < 2 ^ 63))"

lemma inbox_row_inject [simp]: "inbox_row p x b = inbox_row p' x' b' \<longleftrightarrow> p = p' \<and> x = x' \<and> b = b'"
  by (simp add: inbox_row_def)

lemma inbox_row_not_counter [simp]: "inbox_row p x b \<noteq> [VEnt q, VInt y]" "[VEnt q, VInt y] \<noteq> inbox_row p x b"
  by (simp_all add: inbox_row_def)

lemma get_inbox_row [simp]: "get (inbox_row p x b) 0 = Some (VEnt p)"
  by (simp add: inbox_row_def get_def)

lemma word_of_length: "n < 2 ^ 63 \<Longrightarrow> unat (word_of_nat n :: i64) = n"
  by (simp add: unat_of_nat)

lemma word_length_inject:
  "m < 2 ^ 63 \<Longrightarrow> n < 2 ^ 63 \<Longrightarrow> (word_of_nat m :: i64) = word_of_nat n \<longleftrightarrow> m = n"
  by (metis word_of_length)

text \<open>The one update that appends a message, beside the counter's move, extends the queue.\<close>

lemma holds_messages_append:
  assumes "holds_messages w inbox p ms" "length ms < 2 ^ 63"
    and "\<And>t. w' inbox t = w inbox t + (if t = inbox_row p (word_of_nat (length ms)) body then 1 else 0)"
  shows "holds_messages w' inbox p (ms @ [body])"
proof -
  let ?n = "word_of_nat (length ms) :: i64"
  have n: "unat ?n = length ms" using assms(2) by (rule word_of_length)
  have "w' inbox (inbox_row p x b) = (if unat x < length (ms @ [body]) \<and> (ms @ [body]) ! unat x = b then 1 else 0)"
    for x b
  proof (cases "x = ?n")
    case True
    then show ?thesis using assms(1,3) n by (auto simp: holds_messages_def)
  next
    case False
    then have "unat x \<noteq> length ms" using n by (metis word_unat_eq_iff)
    then have "unat x < length (ms @ [body]) \<longleftrightarrow> unat x < length ms" by auto
    then show ?thesis using assms(1,3) False by (simp add: holds_messages_def nth_append)
  qed
  moreover have "\<exists>x b. t = inbox_row p x b" if "0 < w' inbox t" "get t 0 = Some (VEnt p)" for t
  proof (cases "t = inbox_row p ?n body")
    case False
    then have "0 < w inbox t" using that(1) assms(3) by simp
    then show ?thesis using assms(1) that(2) unfolding holds_messages_def by blast
  qed blast
  ultimately show ?thesis by (simp add: holds_messages_def)
qed

lemma mailbox_append:
  assumes "mailbox w inbox seqs p ms" "Suc (length ms) < 2 ^ 63"
    and box: "\<And>t. w' inbox t = w inbox t + (if t = inbox_row p (word_of_nat (length ms)) body then 1 else 0)"
    and seq: "\<And>x. w' seqs [VEnt p, VInt x] = w seqs [VEnt p, VInt x]
      + (if x = word_of_nat (length ms) + 1 then 1 else 0) - (if x = word_of_nat (length ms) then 1 else 0)"
  shows "mailbox w' inbox seqs p (ms @ [body])"
proof -
  have "counter w' seqs [VEnt p] (word_of_nat (length ms) + 1)"
    using assms(1) by (intro counter_moves [of w]) (auto simp: mailbox_def seq)
  then have "counter w' seqs [VEnt p] (word_of_nat (length (ms @ [body])))"
    by (simp add: add.commute)
  moreover have "holds_messages w' inbox p (ms @ [body])"
    using holds_messages_append [of w inbox p ms w' body] box assms(1,2) by (simp add: mailbox_def)
  ultimately show ?thesis using assms(1) by (simp add: mailbox_def)
qed

lemma mailbox_counter_step:
  assumes "mailbox w inbox seqs p (ms @ new)" "length (ms @ new) < 2 ^ 63"
  shows "0 < w seqs [VEnt p, VInt (word_of_nat (length ms))] \<longleftrightarrow> new = []"
  using assms counter_holds [of w seqs "[VEnt p]" "word_of_nat (length (ms @ new))" "word_of_nat (length ms)"]
    word_length_inject [of "length ms" "length (ms @ new)"]
  by (auto simp: mailbox_def)

text \<open>The updates of one append.\<close>

definition append_updates :: "rel_id \<Rightarrow> rel_id \<Rightarrow> entity \<Rightarrow> i64 \<Rightarrow> tuple \<Rightarrow> upd list" where
  "append_updates inbox seqs p n body =
     [(inbox, inbox_row p n body, 1), (seqs, [VEnt p, VInt (n + 1)], 1), (seqs, [VEnt p, VInt n], -1)]"

context trace_store
begin

lemma wrote_append:
  assumes "mailbox (now s) inbox seqs p ms" "Suc (length ms) < 2 ^ 63"
    and "wrote s (append_updates inbox seqs p (word_of_nat (length ms)) body) s'"
  shows "mailbox (now s') inbox seqs p (ms @ [body])"
  by (rule mailbox_append [OF assms(1,2)])
    (use assms(1) in \<open>auto simp: stepped_now [OF assms(3)] append_updates_def mailbox_def\<close>)

lemma enqueue_attempt_run:
  assumes "inv s" "mailbox (now s) inbox seqs p ms"
  shows "enqueue_attempt ops inbox seqs p body peer s =
    obind (ts_commit_if ops [(seqs, [VEnt p, VInt (word_of_nat (length ms))])]
        (append_updates inbox seqs p (word_of_nat (length ms)) body))
      (\<lambda>r. oret (case r of Some _ \<Rightarrow> Some (word_of_nat (length ms)) | None \<Rightarrow> None)) (peer s)"
proof -
  have "seq_read ops s seqs [VEnt p] = Inr \<lparr>sq_rel = seqs, sq_key = [VEnt p],
      sq_start = word_of_nat (length ms), sq_present = True, sq_n = 0\<rparr>"
    using assms by (intro seq_read_counter) (auto simp: mailbox_def)
  then show ?thesis
    by (simp add: enqueue_attempt_def obind_oread_Inr obind_step [of "opause peer" s "()" "peer s"]
        opause_def seq_fresh_def seq_seal_def Let_def counter_tuple_def patch_builders inbox_fact_def
        patch_preconditions_def append_updates_def cong: option.case_cong)
qed

text \<open>
  One attempt: either the peers appended first and nothing is written, or they did not and
  the message goes to the next position.
\<close>

lemma enqueue_attempt_cases:
  assumes "inv s" "mailbox (now s) inbox seqs p ms" "Suc (length ms) < 2 ^ 63"
    and "later ops inv W s (peer s)" "mailbox (now (peer s)) inbox seqs p (ms @ new)"
    and "Suc (length (ms @ new)) < 2 ^ 63"
  obtains (lost) "new \<noteq> []" "enqueue_attempt ops inbox seqs p body peer s = (Inr None, peer s)"
    | (won) s' where "new = []"
      "enqueue_attempt ops inbox seqs p body peer s = (Inr (Some (word_of_nat (length ms))), s')"
      "wrote (peer s) (append_updates inbox seqs p (word_of_nat (length ms)) body) s'"
      "mailbox (now s') inbox seqs p (ms @ [body])"
proof -
  let ?t = "peer s"
  let ?pre = "[(seqs, [VEnt p, VInt (word_of_nat (length ms))])]"
  have t: "inv ?t" using assms(4) by (simp add: later_def)
  have pre: "holds_all (W ?t) (ts_current ops ?t) ?pre \<longleftrightarrow> new = []"
    using mailbox_counter_step [OF assms(5)] assms(6) by (simp add: world_now_def)
  show ?thesis
  proof (cases "new = []")
    case True
    then obtain s' where run: "ts_commit_if ops ?pre (append_updates inbox seqs p (word_of_nat (length ms)) body) ?t
          = (Inr (Some (Suc (ts_current ops ?t))), s')"
      and w: "wrote ?t (append_updates inbox seqs p (word_of_nat (length ms)) body) s'"
      using commit_if_won_wrote [OF t, of ?pre] pre by blast
    show ?thesis
    proof (rule won [OF True _ w])
      show "enqueue_attempt ops inbox seqs p body peer s = (Inr (Some (word_of_nat (length ms))), s')"
        by (simp add: enqueue_attempt_run [OF assms(1,2)] obind_apply run)
      show "mailbox (now s') inbox seqs p (ms @ [body])"
        using wrote_append [OF _ assms(3) w] assms(5) True by simp
    qed
  next
    case False
    then have "ts_commit_if ops ?pre (append_updates inbox seqs p (word_of_nat (length ms)) body) ?t = (Inr None, ?t)"
      using pre by (intro commit_if_lost [OF t]) simp
    then show ?thesis
      by (intro lost [OF False]) (simp add: enqueue_attempt_run [OF assms(1,2)] obind_apply)
  qed
qed

text \<open>
  The loop: the message lands once, after everything the peers appended meanwhile, at the
  position it returns; or every attempt lost to a peer that appended.
\<close>

lemma enqueue_loop:
  assumes "appends ops inv W inbox seqs p peers"
    and "inv s" "mailbox (now s) inbox seqs p ms" "Suc (length ms) < 2 ^ 63"
    and "retry_loop n k (\<lambda>k. enqueue_attempt ops inbox seqs p body (peers k)) (ofail e) s = (r, s')"
  shows "inv s' \<and> (\<exists>new. case r of
      Inr seq \<Rightarrow> seq = word_of_nat (length (ms @ new)) \<and> mailbox (now s') inbox seqs p (ms @ new @ [body])
    | Inl e' \<Rightarrow> e' = e \<and> n \<le> length new \<and> mailbox (now s') inbox seqs p (ms @ new))"
  using assms(2-5)
proof (induction n arbitrary: k s ms)
  case 0
  then show ?case by (auto intro!: exI [of _ "[]"])
next
  case (Suc n)
  obtain new where l: "later ops inv W s (peers k s)"
    and m: "mailbox (now (peers k s)) inbox seqs p (ms @ new)" and len: "Suc (length (ms @ new)) < 2 ^ 63"
    using assms(1) Suc.prems(1-3) unfolding appends_def by blast
  have t: "inv (peers k s)" using l by (simp add: later_def)
  show ?case
  proof (cases rule: enqueue_attempt_cases [where peer = "peers k" and body = body,
        OF Suc.prems(1-3) l m len])
    case 1
    then have "retry_loop n (Suc k) (\<lambda>k. enqueue_attempt ops inbox seqs p body (peers k)) (ofail e) (peers k s) = (r, s')"
      using Suc.prems(4) by (simp add: obind_step ofail_def)
    from Suc.IH [OF t m len this] obtain more where inv': "inv s'" and r: "case r of
        Inr seq \<Rightarrow> seq = word_of_nat (length ((ms @ new) @ more)) \<and> mailbox (now s') inbox seqs p ((ms @ new) @ more @ [body])
      | Inl e' \<Rightarrow> e' = e \<and> n \<le> length more \<and> mailbox (now s') inbox seqs p ((ms @ new) @ more)" by blast
    show ?thesis
      using inv' r 1(1) by (intro conjI exI [of _ "new @ more"]) (cases r; cases new; auto)+
  next
    case (2 s1)
    then have "r = Inr (word_of_nat (length ms))" "s' = s1"
      using Suc.prems(4) by (simp_all add: obind_step)
    moreover have "inv s1" using 2(3) by (simp add: stepped_def)
    ultimately show ?thesis using 2(4) by (intro conjI exI [of _ "[]"]) simp_all
  qed
qed

lemma enqueue_seq_ok:
  assumes "appends ops inv W inbox seqs p peers"
    and "inv s" "mailbox (now s) inbox seqs p ms" "Suc (length ms) < 2 ^ 63"
    and "enqueue_seq ops peers inbox seqs p body s = (r, s')"
  shows "inv s' \<and> (\<exists>new. case r of
      Inr seq \<Rightarrow> seq = word_of_nat (length (ms @ new)) \<and> mailbox (now s') inbox seqs p (ms @ new @ [body])
    | Inl e' \<Rightarrow> 256 \<le> length new \<and> mailbox (now s') inbox seqs p (ms @ new))"
  using enqueue_loop [OF assms(1-4) assms(5) [unfolded enqueue_seq_def]] by (auto split: sum.splits)

text \<open>Without peers the first attempt wins.\<close>

lemma enqueue_seq_alone:
  assumes "inv s" "mailbox (now s) inbox seqs p ms" "Suc (length ms) < 2 ^ 63" "\<And>k t. peers k t = t"
  shows "\<exists>s'. enqueue_seq ops peers inbox seqs p body s = (Inr (word_of_nat (length ms)), s') \<and>
    inv s' \<and> mailbox (now s') inbox seqs p (ms @ [body])"
proof -
  have "later ops inv W s (peers 0 s)" "mailbox (now (peers 0 s)) inbox seqs p (ms @ [])"
    using assms by (simp_all add: later_refl)
  then obtain s' where "enqueue_attempt ops inbox seqs p body (peers 0) s = (Inr (Some (word_of_nat (length ms))), s')"
    "wrote (peers 0 s) (append_updates inbox seqs p (word_of_nat (length ms)) body) s'"
    "mailbox (now s') inbox seqs p (ms @ [body])"
    using enqueue_attempt_cases [OF assms(1-3), of "peers 0" "[]" body] assms(3) by auto
  moreover have "retry_loop 256 0 (\<lambda>k. enqueue_attempt ops inbox seqs p body (peers k)) f s =
      obind (enqueue_attempt ops inbox seqs p body (peers 0)) (\<lambda>r. case r of Some x \<Rightarrow> oret x
        | None \<Rightarrow> retry_loop 255 (Suc 0) (\<lambda>k. enqueue_attempt ops inbox seqs p body (peers k)) f) s" for f
  proof -
    have "(256 :: nat) = Suc 255" by simp
    then show ?thesis by (simp only: retry_loop.simps)
  qed
  ultimately show ?thesis by (auto simp: enqueue_seq_def obind_step stepped_def)
qed

text \<open>Seeding makes an empty mailbox of an untouched key.\<close>

lemma seed_seq_mailbox:
  assumes "inv s" "inbox \<noteq> seqs" "\<And>x. now s seqs [VEnt p, VInt x] = 0"
    and "holds_messages (now s) inbox p []"
  shows "\<exists>s'. seed_seq ops seqs p s = (Inr (), s') \<and> inv s' \<and> mailbox (now s') inbox seqs p []"
proof -
  have r: "seq_read ops s seqs [VEnt p] =
      Inr \<lparr>sq_rel = seqs, sq_key = [VEnt p], sq_start = 0, sq_present = False, sq_n = 0\<rparr>"
    by (rule seq_read_unseeded) (simp_all add: assms(1,3))
  obtain s' where c: "ts_commit ops [(seqs, [VEnt p, VInt 0], 1)] s = (Inr (Suc (ts_current ops s)), s')"
    and w: "wrote s [(seqs, [VEnt p, VInt 0], 1)] s'" using commit_wrote [OF assms(1)] by blast
  have "seed_seq ops seqs p s = (Inr (), s')"
    by (simp add: seed_seq_def obind_oread_Inr r seq_seed_def Let_def patch_builders counter_tuple_def
        obind_step c)
  moreover have "mailbox (now s') inbox seqs p []"
    using assms(2-4)
    by (auto simp: mailbox_def counter_def holds_messages_def stepped_now [OF w])
  ultimately show ?thesis using w by (auto simp: stepped_def)
qed

end

end
