(* ===== verification/Retry.thy ===== *)
theory Retry
  imports Commit
begin

text \<open>
  Backoff and the optimistic retry loop (\<^verbatim>\<open>grmpl-proc/src/retry.rs\<close>). A policy is a
  budget of attempts with a jittered, doubling window; the process-wide stream that seeds
  the jitter is passed in and returned. Sleeping does not change what the store says.
\<close>

section \<open>Backoff\<close>

record backoff =
  bo_left :: u32
  bo_window_us :: u64
  bo_cap_us :: u64
  bo_state :: u64

definition STREAM_INIT :: u64 where "STREAM_INIT = 0x2545F4914F6CDD1D"
definition STREAM_STEP :: u64 where "STREAM_STEP = 0x9E3779B97F4A7C15"

text \<open>\<open>new\<close> takes the stream's value and leaves it one step on.\<close>

definition backoff_new :: "u64 \<Rightarrow> u32 \<Rightarrow> u64 \<Rightarrow> u64 \<Rightarrow> backoff \<times> u64" where
  "backoff_new stream attempts base_us cap_us =
     (let seed = stream OR 1 in
      (\<lparr>bo_left = max attempts 1, bo_window_us = max base_us 1, bo_cap_us = max cap_us 1,
        bo_state = seed\<rparr>, stream + STREAM_STEP))"

definition backoff_none :: "u64 \<Rightarrow> backoff \<times> u64" where
  "backoff_none stream = backoff_new stream 1 1 1"

definition backoff_default :: "u64 \<Rightarrow> backoff \<times> u64" where
  "backoff_default stream = backoff_new stream 16 50 5000"

definition next_u64 :: "backoff \<Rightarrow> u64 \<times> backoff" where
  "next_u64 b =
     (let x = bo_state b;
          x = x XOR drop_bit 12 x;
          x = x XOR push_bit 25 x;
          x = x XOR drop_bit 27 x
      in (x * STREAM_INIT, b\<lparr>bo_state := x\<rparr>))"

text \<open>
  \<open>wait\<close>: whether another attempt is allowed, with the delay it slept. The remainder by a
  window of zero is a panic.
\<close>

definition backoff_wait :: "backoff \<Rightarrow> (bool \<times> u64 \<times> backoff) result" where
  "backoff_wait b =
     (if bo_left b \<le> 1 then Inr (False, 0, b\<lparr>bo_left := 0\<rparr>)
      else
        let b = b\<lparr>bo_left := bo_left b - 1\<rparr>; (r, b) = next_u64 b in
        if bo_window_us b = 0 then Inl Panic
        else
          let delay = r mod bo_window_us b in
          Inr (True, delay, b\<lparr>bo_window_us := min (bo_window_us b * 2) (bo_cap_us b)\<rparr>))"

section \<open>The retry loop\<close>

lemma unat_dec: "\<not> w \<le> 1 \<Longrightarrow> unat (w - 1) = unat w - 1" for w :: u32
  by (rule unat_minus_one) auto

lemma next_u64_left [simp]: "bo_left (snd (next_u64 b)) = bo_left b"
  by (simp add: next_u64_def Let_def)

lemma backoff_wait_left: "backoff_wait b = Inr (True, d, b') \<Longrightarrow> unat (bo_left b') < unat (bo_left b)"
  using unat_dec [of "bo_left b"]
  by (auto simp: backoff_wait_def Let_def case_prod_unfold word_le_nat_alt split: if_splits)

text \<open>
  \<open>commit_retrying\<close>: attempt \<open>k\<close> is \<open>attempt k\<close>, run on the state the earlier ones left.
\<close>

function commit_retrying :: "backoff \<Rightarrow> (nat \<Rightarrow> ('s, commit_outcome) op) \<Rightarrow> nat \<Rightarrow> ('s, edition) op" where
  "commit_retrying policy attempt k s =
     (case attempt k s of
        (Inl e, s') \<Rightarrow> (Inl e, s')
      | (Inr (Committed e), s') \<Rightarrow> (Inr e, s')
      | (Inr Rejected, s') \<Rightarrow>
          (case backoff_wait policy of
             Inl e \<Rightarrow> (Inl e, s')
           | Inr (again, d, policy') \<Rightarrow>
               if again then commit_retrying policy' attempt (Suc k) s'
               else (Inl (Err (EStore ''commit contention: giving up'')), s')))"
  by pat_completeness auto

termination
  by (relation "measure (\<lambda>(policy, attempt, k, s). unat (bo_left policy))") (auto dest: backoff_wait_left)

declare commit_retrying.simps [simp del]

section \<open>The policy's promises\<close>

definition backoff_ok :: "backoff \<Rightarrow> bool" where
  "backoff_ok b \<longleftrightarrow> 1 \<le> bo_window_us b \<and> 1 \<le> bo_cap_us b \<and> unat (bo_window_us b) < 2 ^ 63 \<and> unat (bo_cap_us b) < 2 ^ 63"

lemma unat_double: "unat (w :: u64) < 2 ^ 63 \<Longrightarrow> unat (w * 2) = 2 * unat w"
  by (simp add: unat_word_ariths)

lemma unat_max: "unat (max a b) = max (unat a) (unat b)"
  by (auto simp: max_def word_le_nat_alt)

lemma unat_min: "unat (min a b) = min (unat a) (unat b)"
  by (auto simp: min_def word_le_nat_alt)

lemma backoff_new_ok:
  assumes "unat base_us < 2 ^ 63" "unat cap_us < 2 ^ 63"
  shows "backoff_ok (fst (backoff_new stream attempts base_us cap_us))"
  using assms by (simp add: backoff_new_def backoff_ok_def unat_max Let_def)

text \<open>
  A wait never panics while there is a window; it spends one attempt, sleeps for less than
  the window, and doubles the window up to the cap.
\<close>

lemma backoff_wait_ok:
  assumes "backoff_ok b" "1 < bo_left b"
  shows "\<exists>d b'. backoff_wait b = Inr (True, d, b') \<and> backoff_ok b' \<and> d < bo_window_us b \<and>
    unat (bo_left b') = unat (bo_left b) - 1 \<and> bo_cap_us b' = bo_cap_us b \<and>
    unat (bo_window_us b') = min (2 * unat (bo_window_us b)) (unat (bo_cap_us b))"
proof -
  let ?x = "fst (next_u64 (b\<lparr>bo_left := bo_left b - 1\<rparr>))"
  let ?b = "snd (next_u64 (b\<lparr>bo_left := bo_left b - 1\<rparr>))"
  have same: "bo_window_us ?b = bo_window_us b" "bo_cap_us ?b = bo_cap_us b" "bo_left ?b = bo_left b - 1"
    by (simp_all add: next_u64_def Let_def)
  have w: "bo_window_us b \<noteq> 0" and w63: "unat (bo_window_us b) < 2 ^ 63"
    using assms(1) by (auto simp: backoff_ok_def)
  have run: "backoff_wait b = Inr (True, ?x mod bo_window_us b,
      ?b\<lparr>bo_window_us := min (bo_window_us b * 2) (bo_cap_us b)\<rparr>)"
    using assms(2) w by (auto simp: backoff_wait_def Let_def same not_le [symmetric] case_prod_unfold)
  have win: "unat (min (bo_window_us b * 2) (bo_cap_us b)) = min (2 * unat (bo_window_us b)) (unat (bo_cap_us b))"
    by (simp add: unat_min unat_double [OF w63])
  have "backoff_ok (?b\<lparr>bo_window_us := min (bo_window_us b * 2) (bo_cap_us b)\<rparr>)"
    using assms(1) win by (auto simp: backoff_ok_def same word_le_nat_alt)
  moreover have "?x mod bo_window_us b < bo_window_us b"
    using w by (simp add: word_less_nat_alt unat_mod word_neq_0_conv)
  moreover have "unat (bo_left b - 1) = unat (bo_left b) - 1"
    using assms(2) by (intro unat_dec) auto
  ultimately show ?thesis using run win by (auto simp: same)
qed

lemma backoff_wait_spent:
  "bo_left b \<le> 1 \<Longrightarrow> backoff_wait b = Inr (False, 0, b\<lparr>bo_left := 0\<rparr>)"
  by (simp add: backoff_wait_def)

text \<open>The states a run of rejected attempts passes through.\<close>

fun rejected_run :: "(nat \<Rightarrow> ('s, commit_outcome) op) \<Rightarrow> nat \<Rightarrow> nat \<Rightarrow> 's \<Rightarrow> 's option" where
  "rejected_run attempt k 0 s = Some s"
| "rejected_run attempt k (Suc n) s =
     (case attempt k s of (Inr Rejected, s') \<Rightarrow> rejected_run attempt (Suc k) n s' | _ \<Rightarrow> None)"

text \<open>
  The loop makes at most as many attempts as the budget holds, and stops at the first one
  that is not a rejection.
\<close>

lemma commit_retrying_wins:
  assumes "backoff_ok policy" "n < unat (bo_left policy)"
    and "rejected_run attempt k n s = Some t" "attempt (k + n) t = (Inr (Committed e), s')"
  shows "commit_retrying policy attempt k s = (Inr e, s')"
  using assms
proof (induction n arbitrary: policy k s)
  case 0
  then show ?case by (simp add: commit_retrying.simps)
next
  case (Suc n)
  obtain s1 where s1: "attempt k s = (Inr Rejected, s1)" "rejected_run attempt (Suc k) n s1 = Some t"
    using Suc.prems(3) by (auto split: prod.splits sum.splits commit_outcome.splits)
  have "1 < bo_left policy" using Suc.prems(2) by (simp add: word_less_nat_alt)
  then obtain d b' where b': "backoff_wait policy = Inr (True, d, b')" "backoff_ok b'"
    "unat (bo_left b') = unat (bo_left policy) - 1"
    using backoff_wait_ok [OF Suc.prems(1)] by blast
  have "commit_retrying b' attempt (Suc k) s1 = (Inr e, s')"
    by (rule Suc.IH) (use Suc.prems b' s1 in auto)
  then show ?case by (simp add: commit_retrying.simps [of policy] s1 b')
qed

lemma commit_retrying_gives_up:
  assumes "backoff_ok policy" "unat (bo_left policy) = Suc n"
    and "rejected_run attempt k (Suc n) s = Some t"
  shows "commit_retrying policy attempt k s = (Inl (Err (EStore ''commit contention: giving up'')), t)"
  using assms
proof (induction n arbitrary: policy k s)
  case 0
  then have "bo_left policy \<le> 1" by (simp add: word_le_nat_alt)
  then show ?case
    using 0 by (auto simp: commit_retrying.simps [of policy] backoff_wait_spent
        split: prod.splits sum.splits commit_outcome.splits)
next
  case (Suc n)
  obtain s1 where s1: "attempt k s = (Inr Rejected, s1)" "rejected_run attempt (Suc k) (Suc n) s1 = Some t"
    using Suc.prems(3) by (auto split: prod.splits sum.splits commit_outcome.splits)
  have "1 < bo_left policy" using Suc.prems(2) by (simp add: word_less_nat_alt)
  then obtain d b' where b': "backoff_wait policy = Inr (True, d, b')" "backoff_ok b'"
    "unat (bo_left b') = unat (bo_left policy) - 1"
    using backoff_wait_ok [OF Suc.prems(1)] by blast
  have "commit_retrying b' attempt (Suc k) s1
      = (Inl (Err (EStore ''commit contention: giving up'')), t)"
    by (rule Suc.IH) (use Suc.prems b' s1 in auto)
  then show ?case by (simp add: commit_retrying.simps [of policy] s1 b')
qed

end
