(* ===== verification/Process.thy ===== *)
theory Process
  imports Mailbox Retry
begin

text \<open>
  Processes (\<^verbatim>\<open>grmpl-proc/src/process.rs\<close>): an actor reads the message at its
  cursor, runs its behavior on a snapshot, and commits the patch together with the cursor's
  move. The one commit is what makes each message take effect once.
\<close>

section \<open>The process and its reads\<close>

text \<open>A behavior is a function of a snapshot and a message body.\<close>

type_synonym behavior = "snapshot \<Rightarrow> tuple \<Rightarrow> patch result"

record process =
  pr_entity :: entity
  pr_authority :: authority
  pr_inbox :: rel_id
  pr_cursor_rel :: rel_id
  pr_behavior :: behavior

definition cursor_tuple :: "entity \<Rightarrow> i64 \<Rightarrow> tuple" where
  "cursor_tuple p seq = [VEnt p, VInt seq]"

fun first_some :: "('a \<Rightarrow> 'b option) \<Rightarrow> 'a list \<Rightarrow> 'b option" where
  "first_some f [] = None"
| "first_some f (x # xs) = (case f x of Some y \<Rightarrow> Some y | None \<Rightarrow> first_some f xs)"

definition cursor_cell :: "entity \<Rightarrow> tuple \<times> diff \<Rightarrow> i64 option" where
  "cursor_cell p = (\<lambda>(t, d).
     if d > 0 \<and> get t 0 = Some (VEnt p) then (case get t 1 of Some (VInt pos) \<Rightarrow> Some pos | _ \<Rightarrow> None)
     else None)"

definition cursor_position :: "'s trace_ops \<Rightarrow> 's \<Rightarrow> process \<Rightarrow> i64 result" where
  "cursor_position ops s p =
     rbind (ts_read_at ops s (pr_cursor_rel p) (ts_current ops s)) (\<lambda>rows.
       Inr (case first_some (cursor_cell (pr_entity p)) rows of Some pos \<Rightarrow> pos | None \<Rightarrow> 0))"

definition message_cell :: "entity \<Rightarrow> i64 \<Rightarrow> tuple \<times> diff \<Rightarrow> tuple option" where
  "message_cell p seq = (\<lambda>(t, d).
     if d > 0 \<and> get t 0 = Some (VEnt p) \<and> get t 1 = Some (VInt seq)
     then (case get t 2 of Some (VTuple body) \<Rightarrow> Some body | _ \<Rightarrow> None) else None)"

definition message_at :: "'s trace_ops \<Rightarrow> 's \<Rightarrow> process \<Rightarrow> i64 \<Rightarrow> edition \<Rightarrow> tuple option result" where
  "message_at ops s p seq at =
     rbind (ts_read_at ops s (pr_inbox p) at) (\<lambda>rows.
       Inr (first_some (message_cell (pr_entity p) seq) rows))"

text \<open>A behavior's own error is reported with the actor and the position.\<close>

definition name_failure :: "failure \<Rightarrow> failure" where
  "name_failure e = (case e of Err (EBehavior m) \<Rightarrow> Err (EBehavior (''actor inbox sequence: '' @ m)) | _ \<Rightarrow> e)"

definition cursor_advance :: "process \<Rightarrow> i64 \<Rightarrow> cursor_move" where
  "cursor_advance p seq = \<lparr>
     cm_rel = pr_cursor_rel p,
     cm_retract = (if sint seq > 0 then Some (cursor_tuple (pr_entity p) seq) else None),
     cm_assert = cursor_tuple (pr_entity p) (seq + 1)\<rparr>"

definition patch_at :: "'s trace_ops \<Rightarrow> 's \<Rightarrow> process \<Rightarrow> i64 \<Rightarrow> edition \<Rightarrow> patch option result" where
  "patch_at ops s p seq at =
     rbind (message_at ops s p seq at) (\<lambda>m. case m of
       None \<Rightarrow> Inr None
     | Some body \<Rightarrow>
         (case pr_behavior p (snapshot_new ops s at) body of
            Inl e \<Rightarrow> Inl (name_failure e)
          | Inr patch \<Rightarrow> Inr (Some (patch\<lparr>p_cursor_advance := Some (cursor_advance p seq)\<rparr>))))"

definition prepare :: "'s trace_ops \<Rightarrow> 's \<Rightarrow> process \<Rightarrow> (i64 \<times> patch) option result" where
  "prepare ops s p =
     rbind (cursor_position ops s p) (\<lambda>pos.
     rbind (patch_at ops s p pos (ts_current ops s)) (\<lambda>r.
       Inr (case r of Some patch \<Rightarrow> Some (pos, patch) | None \<Rightarrow> None)))"

definition next_pending_sequence :: "'s trace_ops \<Rightarrow> 's \<Rightarrow> process \<Rightarrow> i64 option result" where
  "next_pending_sequence ops s p =
     rbind (cursor_position ops s p) (\<lambda>pos.
     rbind (message_at ops s p pos (ts_current ops s)) (\<lambda>m. Inr (map_option (\<lambda>_. pos) m)))"

section \<open>Stepping\<close>

definition step_checked ::
  "'s trace_ops \<Rightarrow> ('s \<Rightarrow> schemas) \<Rightarrow> checker \<Rightarrow> process \<Rightarrow> ('s \<Rightarrow> 's) \<Rightarrow> ('s, commit_outcome option) op" where
  "step_checked ops sch chk p peer =
     obind (oread (\<lambda>s. prepare ops s p)) (\<lambda>r. case r of
       None \<Rightarrow> oret None
     | Some (seq, patch) \<Rightarrow>
         obind (opause peer) (\<lambda>_.
         obind (commit_patch_checked ops sch chk patch (pr_authority p)) (\<lambda>out. oret (Some out))))"

definition step ::
  "'s trace_ops \<Rightarrow> ('s \<Rightarrow> schemas) \<Rightarrow> process \<Rightarrow> ('s \<Rightarrow> 's) \<Rightarrow> ('s, commit_outcome option) op" where
  "step ops sch p peer = step_checked ops sch no_behavior_check p peer"

text \<open>\<open>run_to_idle\<close>: \<open>n\<close> counts the commits; a loop that has not ended after \<open>fuel\<close> steps is cut.\<close>

fun run_to_idle ::
  "nat \<Rightarrow> 's trace_ops \<Rightarrow> ('s \<Rightarrow> schemas) \<Rightarrow> process \<Rightarrow> 's peers \<Rightarrow> nat \<Rightarrow> ('s, nat) op" where
  "run_to_idle 0 ops sch p peers n = ofail OutOfFuel"
| "run_to_idle (Suc fuel) ops sch p peers n =
     obind (step ops sch p (peers n)) (\<lambda>r. case r of
       None \<Rightarrow> oret n
     | Some (Committed _) \<Rightarrow> run_to_idle fuel ops sch p peers (n + 1)
     | Some Rejected \<Rightarrow> oret n)"

function step_retrying_checked ::
  "'s trace_ops \<Rightarrow> ('s \<Rightarrow> schemas) \<Rightarrow> checker \<Rightarrow> process \<Rightarrow> 's peers \<Rightarrow> backoff \<Rightarrow> nat \<Rightarrow> ('s, edition option) op" where
  "step_retrying_checked ops sch chk p peers policy k s =
     (case step_checked ops sch chk p (peers k) s of
        (Inl e, s') \<Rightarrow> (Inl e, s')
      | (Inr None, s') \<Rightarrow> (Inr None, s')
      | (Inr (Some (Committed e)), s') \<Rightarrow> (Inr (Some e), s')
      | (Inr (Some Rejected), s') \<Rightarrow>
          (case backoff_wait policy of
             Inl e \<Rightarrow> (Inl e, s')
           | Inr (again, d, policy') \<Rightarrow>
               if again then step_retrying_checked ops sch chk p peers policy' (Suc k) s'
               else (Inl (Err (EStore ''inbox message rejected on every attempt'')), s')))"
  by pat_completeness auto

termination
  by (relation "measure (\<lambda>(ops, sch, chk, p, peers, policy, k, s). unat (bo_left policy))")
    (auto dest: backoff_wait_left)

declare step_retrying_checked.simps [simp del]

text \<open>The retrying drain: the inner loop is the one above, with a fresh copy of the policy.\<close>

fun run_to_idle_retrying_checked ::
  "nat \<Rightarrow> 's trace_ops \<Rightarrow> ('s \<Rightarrow> schemas) \<Rightarrow> checker \<Rightarrow> process \<Rightarrow> (nat \<Rightarrow> 's peers) \<Rightarrow> backoff \<Rightarrow>
   nat \<Rightarrow> ('s, nat) op" where
  "run_to_idle_retrying_checked 0 ops sch chk p peers policy n = ofail OutOfFuel"
| "run_to_idle_retrying_checked (Suc fuel) ops sch chk p peers policy n =
     obind (step_retrying_checked ops sch chk p (peers n) policy 0) (\<lambda>r. case r of
       None \<Rightarrow> oret n
     | Some _ \<Rightarrow> run_to_idle_retrying_checked fuel ops sch chk p peers policy (n + 1))"

section \<open>Where a process stands\<close>

text \<open>The cursor is at \<open>n\<close>: its one row, or no row while \<open>n\<close> is zero.\<close>

definition cursor_stands :: "(rel_id \<Rightarrow> tuple \<Rightarrow> diff) \<Rightarrow> process \<Rightarrow> nat \<Rightarrow> bool" where
  "cursor_stands w p n \<longleftrightarrow> n < 2 ^ 63 \<and>
     (\<forall>x. w (pr_cursor_rel p) (cursor_tuple (pr_entity p) x) = (if n \<noteq> 0 \<and> x = word_of_nat n then 1 else 0)) \<and>
     (\<forall>t. 0 < w (pr_cursor_rel p) t \<longrightarrow> get t 0 = Some (VEnt (pr_entity p)) \<longrightarrow>
        (\<exists>x. t = cursor_tuple (pr_entity p) x))"

text \<open>What the behavior itself writes leaves the process's cursor rows alone.\<close>

definition minds_cursor :: "process \<Rightarrow> patch \<Rightarrow> bool" where
  "minds_cursor p patch \<longleftrightarrow>
     (\<forall>(r, t, d)\<in>set (patch_updates (patch\<lparr>p_cursor_advance := None\<rparr>)).
        r = pr_cursor_rel p \<longrightarrow> get t 0 \<noteq> Some (VEnt (pr_entity p)))"

definition careful :: "process \<Rightarrow> bool" where
  "careful p \<longleftrightarrow> (\<forall>snap body patch. pr_behavior p snap body = Inr patch \<longrightarrow> minds_cursor p patch)"

lemma cursor_tuple_inject [simp]: "cursor_tuple p x = cursor_tuple p' x' \<longleftrightarrow> p = p' \<and> x = x'"
  by (simp add: cursor_tuple_def)

lemma get_cursor_tuple [simp]: "get (cursor_tuple p x) 0 = Some (VEnt p)" "get (cursor_tuple p x) (Suc 0) = Some (VInt x)"
  by (simp_all add: cursor_tuple_def get_def)

lemma first_some_None: "(\<And>x. x \<in> set xs \<Longrightarrow> f x = None) \<Longrightarrow> first_some f xs = None"
  by (induction xs) auto

lemma first_some_unique:
  "x \<in> set xs \<Longrightarrow> f x = Some y \<Longrightarrow> (\<And>x z. x \<in> set xs \<Longrightarrow> f x = Some z \<Longrightarrow> z = y) \<Longrightarrow> first_some f xs = Some y"
proof (induction xs)
  case (Cons a xs)
  show ?case
  proof (cases "f a")
    case None
    then have "x \<in> set xs" using Cons.prems(1,2) by auto
    then have "first_some f xs = Some y"
      by (rule Cons.IH [OF _ Cons.prems(2)]) (rule Cons.prems(3), auto)
    then show ?thesis using None by simp
  next
    case (Some z)
    have "z = y" by (rule Cons.prems(3) [OF _ Some]) simp
    then show ?thesis using Some by simp
  qed
qed simp

lemma sint_of_nat_pos: "n < 2 ^ 63 \<Longrightarrow> 0 < sint (word_of_nat n :: i64) \<longleftrightarrow> n \<noteq> 0"
  by (simp add: signed_of_nat signed_take_bit_int_eq_self)

lemma first_cursor:
  assumes "canonical rows" "\<And>t. wsum rows t = w (pr_cursor_rel p) t" "cursor_stands w p n"
  shows "(case first_some (cursor_cell (pr_entity p)) rows of Some pos \<Rightarrow> pos | None \<Rightarrow> 0) = word_of_nat n"
proof -
  have mem: "(t, d) \<in> set rows \<longleftrightarrow> d \<noteq> 0 \<and> w (pr_cursor_rel p) t = d" for t d
    using canonical_mem [OF assms(1)] assms(2) by auto
  have cell: "n \<noteq> 0 \<and> x = word_of_nat n" if "(t, d) \<in> set rows" "cursor_cell (pr_entity p) (t, d) = Some x" for t d x
  proof -
    have d: "0 < d" "get t 0 = Some (VEnt (pr_entity p))" "get t 1 = Some (VInt x)"
      using that(2) by (auto simp: cursor_cell_def split: if_splits option.splits val.splits)
    moreover have "0 < w (pr_cursor_rel p) t" using that(1) d(1) by (simp add: mem)
    ultimately obtain y where t: "t = cursor_tuple (pr_entity p) y"
      using assms(3) unfolding cursor_stands_def by blast
    then have "x = y" using d(3) by simp
    moreover have "w (pr_cursor_rel p) (cursor_tuple (pr_entity p) y) = d" using that(1) t by (simp add: mem)
    ultimately show ?thesis using assms(3) d(1) by (auto simp: cursor_stands_def split: if_splits)
  qed
  show ?thesis
  proof (cases "n = 0")
    case True
    have "first_some (cursor_cell (pr_entity p)) rows = None"
      by (rule first_some_None) (use cell True in \<open>metis not_None_eq surj_pair\<close>)
    then show ?thesis using True by simp
  next
    case False
    have "first_some (cursor_cell (pr_entity p)) rows = Some (word_of_nat n)"
    proof (rule first_some_unique)
      show "(cursor_tuple (pr_entity p) (word_of_nat n), 1) \<in> set rows"
        using assms(3) False by (simp add: mem cursor_stands_def)
      show "z = word_of_nat n" if "x \<in> set rows" "cursor_cell (pr_entity p) x = Some z" for x z
        using that cell by (metis surj_pair)
    qed (simp add: cursor_cell_def)
    then show ?thesis by simp
  qed
qed

lemma first_message:
  assumes "canonical rows" "\<And>t. wsum rows t = w inbox t" "holds_messages w inbox e ms"
  shows "first_some (message_cell e x) rows = (if unat x < length ms then Some (ms ! unat x) else None)"
proof -
  have mem: "(t, d) \<in> set rows \<longleftrightarrow> d \<noteq> 0 \<and> w inbox t = d" for t d
    using canonical_mem [OF assms(1)] assms(2) by auto
  have cell: "unat x < length ms \<and> b = ms ! unat x" if "(t, d) \<in> set rows" "message_cell e x (t, d) = Some b" for t d b
  proof -
    have d: "0 < d" "get t 0 = Some (VEnt e)" "get t 1 = Some (VInt x)" "get t 2 = Some (VTuple b)"
      using that(2) by (auto simp: message_cell_def split: if_splits option.splits val.splits)
    moreover have "0 < w inbox t" using that(1) d(1) by (simp add: mem)
    ultimately obtain y c where t: "t = inbox_row e y c"
      using assms(3) unfolding holds_messages_def by blast
    then have "y = x" "c = b" using d by (auto simp: inbox_row_def get_def)
    then have "w inbox (inbox_row e x b) = d" using that(1) t by (simp add: mem)
    then show ?thesis using assms(3) d(1) by (auto simp: holds_messages_def split: if_splits)
  qed
  show ?thesis
  proof (cases "unat x < length ms")
    case True
    have "first_some (message_cell e x) rows = Some (ms ! unat x)"
    proof (rule first_some_unique)
      show "(inbox_row e x (ms ! unat x), 1) \<in> set rows"
        using assms(3) True by (simp add: mem holds_messages_def)
      show "message_cell e x (inbox_row e x (ms ! unat x), 1) = Some (ms ! unat x)"
        by (simp add: message_cell_def inbox_row_def get_def)
      show "z = ms ! unat x" if "r \<in> set rows" "message_cell e x r = Some z" for r z
        using that cell by (metis surj_pair)
    qed
    then show ?thesis using True by simp
  next
    case False
    have "first_some (message_cell e x) rows = None"
      by (rule first_some_None) (use cell False in \<open>metis not_None_eq surj_pair\<close>)
    then show ?thesis using False by simp
  qed
qed

lemma patch_updates_cursor:
  "patch_updates (patch\<lparr>p_cursor_advance := Some mv\<rparr>) =
     patch_updates (patch\<lparr>p_cursor_advance := None\<rparr>) @ cursor_updates (Some mv)"
  by (simp add: patch_updates_def cursor_updates_def timer_facts_def)

lemma upd_weight_avoids:
  "(\<And>d. (r, t, d) \<notin> set us) \<Longrightarrow> upd_weight us r t = 0"
  by (induction us) (auto, metis)

text \<open>Committing a step's patch moves the cursor by one and by nothing else.\<close>

lemma cursor_moves:
  assumes "cursor_stands w p n" "Suc n < 2 ^ 63" "minds_cursor p patch"
    and "\<And>r t. w' r t = w r t + upd_weight (patch_updates (patch\<lparr>p_cursor_advance := Some (cursor_advance p (word_of_nat n))\<rparr>)) r t"
  shows "cursor_stands w' p (Suc n)"
proof -
  let ?rel = "pr_cursor_rel p" and ?row = "cursor_tuple (pr_entity p)"
  have n: "0 < sint (word_of_nat n :: i64) \<longleftrightarrow> n \<noteq> 0"
    using sint_of_nat_pos [of n] assms(2) by simp
  have own: "upd_weight (patch_updates (patch\<lparr>p_cursor_advance := None\<rparr>)) ?rel t = 0"
    if "get t 0 = Some (VEnt (pr_entity p))" for t
    by (rule upd_weight_avoids) (use assms(3) that in \<open>auto simp: minds_cursor_def\<close>)
  have w': "w' ?rel t = w ?rel t + (if t = ?row (word_of_nat n + 1) then 1 else 0)
      - (if n \<noteq> 0 \<and> t = ?row (word_of_nat n) then 1 else 0)" if "get t 0 = Some (VEnt (pr_entity p))" for t
    using own [OF that] by (auto simp: assms(4) patch_updates_cursor cursor_updates_def cursor_advance_def n)
  have Suc: "(word_of_nat n + 1 :: i64) = word_of_nat (Suc n)" by simp
  have ne: "(word_of_nat n :: i64) \<noteq> word_of_nat (Suc n)"
    using word_length_inject [of n "Suc n"] assms(2) by simp
  have "w' ?rel (?row x) = (if x = word_of_nat (Suc n) then 1 else 0)" for x
    using assms(1) w' [of "?row x"] ne by (auto simp: cursor_stands_def Suc simp del: of_nat_Suc)
  moreover have "\<exists>x. t = ?row x" if "0 < w' ?rel t" "get t 0 = Some (VEnt (pr_entity p))" for t
  proof (cases "t = ?row (word_of_nat n + 1)")
    case False
    then have "0 < w ?rel t" using w' [OF that(2)] that(1) by (auto split: if_splits)
    then show ?thesis using assms(1) that(2) by (simp add: cursor_stands_def)
  qed blast
  ultimately show ?thesis using assms(2) by (simp add: cursor_stands_def)
qed


text \<open>Peers that leave the process's cursor to the process.\<close>

definition yields ::
  "'s trace_ops \<Rightarrow> ('s \<Rightarrow> bool) \<Rightarrow> ('s \<Rightarrow> rel_id \<Rightarrow> edition \<Rightarrow> tuple \<Rightarrow> diff) \<Rightarrow> process \<Rightarrow> 's peers \<Rightarrow> bool" where
  "yields ops I W p peers \<longleftrightarrow>
     (\<forall>k s. I s \<longrightarrow> later ops I W s (peers k s) \<and>
        (\<forall>n. cursor_stands (world_now ops W s) p n \<longrightarrow> cursor_stands (world_now ops W (peers k s)) p n))"

text \<open>What the behavior writes leaves the process's own messages alone.\<close>

definition minds_inbox :: "process \<Rightarrow> patch \<Rightarrow> bool" where
  "minds_inbox p patch \<longleftrightarrow> pr_cursor_rel p \<noteq> pr_inbox p \<and>
     (\<forall>(r, t, d)\<in>set (patch_updates (patch\<lparr>p_cursor_advance := None\<rparr>)).
        r = pr_inbox p \<longrightarrow> get t 0 \<noteq> Some (VEnt (pr_entity p)))"

definition quiet_inbox :: "process \<Rightarrow> bool" where
  "quiet_inbox p \<longleftrightarrow> (\<forall>snap body patch. pr_behavior p snap body = Inr patch \<longrightarrow> minds_inbox p patch)"

lemma inbox_kept:
  assumes "minds_inbox p patch" "holds_messages w (pr_inbox p) (pr_entity p) ms"
    and "\<And>r t. w' r t = w r t + upd_weight (patch_updates (patch\<lparr>p_cursor_advance := Some mv\<rparr>)) r t"
    and "cm_rel mv = pr_cursor_rel p"
  shows "holds_messages w' (pr_inbox p) (pr_entity p) ms"
proof -
  have own: "upd_weight (patch_updates (patch\<lparr>p_cursor_advance := None\<rparr>)) (pr_inbox p) t = 0"
    if "get t 0 = Some (VEnt (pr_entity p))" for t
    by (rule upd_weight_avoids) (use assms(1) that in \<open>auto simp: minds_inbox_def\<close>)
  have "w' (pr_inbox p) t = w (pr_inbox p) t" if "get t 0 = Some (VEnt (pr_entity p))" for t
    using own [OF that] assms(1,4)
    by (auto simp: assms(3) patch_updates_cursor cursor_updates_def minds_inbox_def split: option.splits)
  then show ?thesis using assms(2) unfolding holds_messages_def by (metis get_inbox_row)
qed

text \<open>A check does not run out of rounds unless the catalog does.\<close>

lemma check_schema_rounds: "(\<And>r. sch r \<noteq> Inl OutOfFuel) \<Longrightarrow> check_schema sch fs \<noteq> Inl OutOfFuel"
proof (induction fs)
  case (Cons f fs)
  then show ?case
    by (cases "sch (f_rel f)") (auto split: option.splits)
qed simp

lemma check_facts_none [simp]: "check_facts no_behavior_check a fs = Inr ()"
  by (induction fs) (simp_all add: no_behavior_check_def)

lemma check_patch_rounds:
  assumes "\<And>r. sch r \<noteq> Inl OutOfFuel"
  shows "check_patch sch no_behavior_check p a \<noteq> Inl OutOfFuel"
  using check_schema_rounds [of sch "p_asserts p @ p_retracts p @ timer_facts p", OF assms]
  by (cases "check_schema sch (p_asserts p @ p_retracts p @ timer_facts p)")
    (auto simp: check_patch_def Let_def)

context trace_store
begin

lemma cursor_position_ok:
  assumes "inv s" "cursor_stands (now s) p n"
  shows "cursor_position ops s p = Inr (word_of_nat n)"
proof -
  obtain rows where rows: "ts_read_at ops s (pr_cursor_rel p) (ts_current ops s) = Inr rows"
    "canonical rows" "\<And>t. wsum rows t = now s (pr_cursor_rel p) t"
    using read_now [OF assms(1)] by blast
  show ?thesis using first_cursor [OF rows(2,3) assms(2)] by (simp add: cursor_position_def rows(1))
qed

lemma message_at_ok:
  assumes "inv s" "ts_watermark ops s \<le> e" "holds_messages (\<lambda>r. W s r e) (pr_inbox p) (pr_entity p) ms"
  shows "message_at ops s p x e = Inr (if unat x < length ms then Some (ms ! unat x) else None)"
proof -
  obtain rows where rows: "ts_read_at ops s (pr_inbox p) e = Inr rows"
    "canonical rows" "\<And>t. wsum rows t = W s (pr_inbox p) e t"
    using read_at [OF assms(1,2)] by blast
  show ?thesis
    using first_message [OF rows(2) _ assms(3)] rows(3) by (simp add: message_at_def rows(1))
qed

lemma message_now:
  assumes "inv s" "holds_messages (now s) (pr_inbox p) (pr_entity p) ms" "n < 2 ^ 63"
  shows "message_at ops s p (word_of_nat n) (ts_current ops s) =
    Inr (if n < length ms then Some (ms ! n) else None)"
proof -
  have "holds_messages (\<lambda>r. W s r (ts_current ops s)) (pr_inbox p) (pr_entity p) ms"
    using assms(2) by (simp add: holds_messages_def world_now_def)
  then show ?thesis
    using message_at_ok [OF assms(1) horizon [OF assms(1)]] word_of_length [OF assms(3)] by simp
qed

text \<open>A prepared patch is the behavior's, on the message at the cursor, with the cursor's move.\<close>

lemma prepare_Some:
  assumes "inv s" "cursor_stands (now s) p n" "prepare ops s p = Inr (Some (seq, patch))"
  shows "seq = word_of_nat n \<and> (\<exists>body bp.
    message_at ops s p (word_of_nat n) (ts_current ops s) = Inr (Some body) \<and>
    pr_behavior p (snapshot_at_current ops s) body = Inr bp \<and>
    patch = bp\<lparr>p_cursor_advance := Some (cursor_advance p (word_of_nat n))\<rparr>)"
proof -
  let ?n = "word_of_nat n"
  have seq: "seq = ?n" and patch: "patch_at ops s p ?n (ts_current ops s) = Inr (Some patch)"
    using assms(3) cursor_position_ok [OF assms(1,2)]
    by (auto simp: prepare_def result_simps split: option.splits)
  then obtain m where m: "message_at ops s p ?n (ts_current ops s) = Inr m"
    by (cases "message_at ops s p ?n (ts_current ops s)") (simp_all add: patch_at_def)
  then obtain body where body: "m = Some body" using patch by (cases m) (simp_all add: patch_at_def)
  obtain bp where "pr_behavior p (snapshot_new ops s (ts_current ops s)) body = Inr bp"
    using patch by (cases "pr_behavior p (snapshot_new ops s (ts_current ops s)) body")
      (simp_all add: patch_at_def m body)
  then show ?thesis
    using seq patch m body by (simp add: patch_at_def snapshot_at_current_def)
qed

text \<open>
  One step: the cursor moves by one when the step commits, in the same edition as the
  behavior's effects, and stands still otherwise.
\<close>

lemma step_cursor:
  assumes "inv s" "careful p" "cursor_stands (now s) p n" "Suc n < 2 ^ 63"
    and "later ops inv W s (peer s)" "cursor_stands (now (peer s)) p n"
    and "step_checked ops sch chk p peer s = (r, s')"
  shows "inv s' \<and> later ops inv W s s' \<and>
    (case r of
       Inr (Some (Committed e)) \<Rightarrow> cursor_stands (now s') p (Suc n) \<and>
         (\<exists>body bp. message_at ops s p (word_of_nat n) (ts_current ops s) = Inr (Some body) \<and>
            pr_behavior p (snapshot_at_current ops s) body = Inr bp \<and> e = Suc (ts_current ops (peer s)) \<and>
            wrote (peer s) (patch_updates (bp\<lparr>p_cursor_advance := Some (cursor_advance p (word_of_nat n))\<rparr>)) s')
     | _ \<Rightarrow> cursor_stands (now s') p n)"
proof (cases "prepare ops s p")
  case (Inl e)
  then have "r = Inl e" "s' = s" using assms(7) by (simp_all add: step_checked_def obind_oread_Inl)
  then show ?thesis using assms(1,3) by (simp add: later_refl)
next
  case (Inr m)
  show ?thesis
  proof (cases m)
    case None
    then have "r = Inr None" "s' = s" using assms(7) Inr by (simp_all add: step_checked_def obind_oread_Inr)
    then show ?thesis using assms(1,3) by (simp add: later_refl)
  next
    case (Some sp)
    obtain seq patch where sp: "sp = (seq, patch)" by (cases sp)
    obtain body bp where body: "message_at ops s p (word_of_nat n) (ts_current ops s) = Inr (Some body)"
      and bp: "pr_behavior p (snapshot_at_current ops s) body = Inr bp"
      and patch: "patch = bp\<lparr>p_cursor_advance := Some (cursor_advance p (word_of_nat n))\<rparr>"
      using prepare_Some [OF assms(1,3)] Inr Some sp by blast
    have minds: "minds_cursor p bp" using assms(2) bp by (auto simp: careful_def)
    have t: "inv (peer s)" using assms(5) by (simp add: later_def)
    have run: "step_checked ops sch chk p peer s =
        obind (commit_patch_checked ops sch chk patch (pr_authority p)) (\<lambda>out. oret (Some out)) (peer s)"
      by (simp add: step_checked_def obind_oread_Inr Inr Some sp obind_step [of "opause peer" s "()" "peer s"] opause_def)
    show ?thesis
    proof (cases rule: commit_patch_cases [OF t, of sch chk patch "pr_authority p"])
      case (1 e)
      then have "r = Inl e" "s' = peer s" using run assms(7) by (simp_all add: obind_apply)
      then show ?thesis using assms(5,6) t by simp
    next
      case 2
      then have "r = Inr (Some Rejected)" "s' = peer s" using run assms(7) by (simp_all add: obind_apply)
      then show ?thesis using assms(5,6) t by simp
    next
      case (3 s1)
      then have r: "r = Inr (Some (Committed (Suc (ts_current ops (peer s)))))" "s' = s1"
        using run assms(7) by (simp_all add: obind_apply)
      have "cursor_stands (now s1) p (Suc n)"
        by (rule cursor_moves [OF assms(6,4) minds]) (simp add: stepped_now [OF 3(4)] patch)
      moreover have "later ops inv W s s1" using later_trans [OF assms(5) stepped_later [OF 3(4)]] .
      moreover have "inv s1" using 3(4) by (simp add: stepped_def)
      moreover have "wrote (peer s) (patch_updates (bp\<lparr>p_cursor_advance := Some (cursor_advance p (word_of_nat n))\<rparr>)) s1"
        using 3(4) patch by simp
      ultimately show ?thesis using r body bp by simp
    qed
  qed
qed

text \<open>The drain counts what the cursor moved.\<close>

lemma run_to_idle_counts:
  assumes "careful p" "yields ops inv W p peers"
    and "inv s" "cursor_stands (now s) p n" "n + fuel < 2 ^ 63"
    and "run_to_idle fuel ops sch p peers c s = (r, s')"
  shows "inv s' \<and> later ops inv W s s' \<and> (\<exists>m\<le>fuel. cursor_stands (now s') p (n + m) \<and>
    (\<forall>c'. r = Inr c' \<longrightarrow> c' = c + m))"
  using assms(3-6)
proof (induction fuel arbitrary: c s n)
  case 0
  then show ?case by (auto simp: later_refl)
next
  case (Suc fuel)
  have peer: "later ops inv W s (peers c s)" "cursor_stands (now (peers c s)) p n"
    using assms(2) Suc.prems(1,2) by (auto simp: yields_def)
  obtain x s1 where st: "step_checked ops sch no_behavior_check p (peers c) s = (x, s1)" by fastforce
  note once = step_cursor [OF Suc.prems(1) assms(1) Suc.prems(2) _ peer st]
  have n: "Suc n < 2 ^ 63" using Suc.prems(3) by simp
  show ?case
  proof (cases "\<exists>e. x = Inr (Some (Committed e))")
    case True
    then obtain e where x: "x = Inr (Some (Committed e))" by blast
    have s1: "inv s1" "later ops inv W s s1" "cursor_stands (now s1) p (Suc n)" using once n x by auto
    have "run_to_idle fuel ops sch p peers (c + 1) s1 = (r, s')"
      using Suc.prems(4) st x by (simp add: step_def obind_step)
    from Suc.IH [OF s1(1,3) _ this] Suc.prems(3) obtain m where
      m: "inv s'" "later ops inv W s1 s'" "m \<le> fuel" "cursor_stands (now s') p (Suc n + m)"
        "\<forall>c'. r = Inr c' \<longrightarrow> c' = c + 1 + m" by auto
    then show ?thesis
      using later_trans [OF s1(2) m(2)] by (auto intro!: exI [of _ "Suc m"])
  next
    case False
    then have "s' = s1" "\<forall>c'. r = Inr c' \<longrightarrow> c' = c"
      using Suc.prems(4) st
      by (auto simp: step_def obind_apply split: sum.splits option.splits commit_outcome.splits)
    moreover have "inv s1 \<and> later ops inv W s s1 \<and> cursor_stands (now s1) p n"
      using once n False by (auto split: sum.splits option.splits commit_outcome.splits)
    ultimately show ?thesis by (auto intro!: exI [of _ 0])
  qed
qed

lemma step_rounds:
  assumes "\<And>snap body. pr_behavior p snap body \<noteq> Inl OutOfFuel" "\<And>s r. sch s r \<noteq> Inl OutOfFuel"
    and "inv s" "cursor_stands (now s) p n"
  shows "fst (step_checked ops sch no_behavior_check p (\<lambda>s. s) s) \<noteq> Inl OutOfFuel"
proof -
  obtain rows where rows: "ts_read_at ops s (pr_inbox p) (ts_current ops s) = Inr rows"
    using read_now [OF assms(3)] by blast
  have named: "name_failure e = OutOfFuel \<longleftrightarrow> e = OutOfFuel" for e
    by (auto simp: name_failure_def split: failure.splits error.splits)
  have prep: "prepare ops s p \<noteq> Inl OutOfFuel"
    using assms(1) named
    by (auto simp: prepare_def cursor_position_ok [OF assms(3,4)] patch_at_def message_at_def rows
        split: option.splits sum.splits)
  have checks: "commit_patch_checked ops sch no_behavior_check patch a s \<noteq> (Inl OutOfFuel, s')" for patch a s'
  proof (cases rule: commit_patch_cases [OF assms(3), of sch no_behavior_check patch a])
    case (1 e)
    then have "check_patch (sch s) no_behavior_check patch a = Inl e"
      using check_patch_unlawful [OF 1(1)] by (auto simp: commit_patch_checked_def obind_oread_Inl)
    then show ?thesis using check_patch_rounds [of "sch s", OF assms(2)] 1 by auto
  qed auto
  show ?thesis
  proof (cases "prepare ops s p")
    case (Inl e)
    then show ?thesis using prep by (auto simp: step_checked_def obind_oread_Inl)
  next
    case (Inr m)
    then show ?thesis
      using checks
      by (cases m) (auto simp: step_checked_def obind_oread_Inr obind_step [of "opause (\<lambda>s. s)" s "()" s]
          opause_def obind_apply split: prod.splits sum.splits)
  qed
qed

text \<open>
  With a behavior that does not write to its own inbox, and no peers, the drain ends: one
  step more than there are messages is enough.
\<close>

lemma run_to_idle_ends:
  assumes "careful p" "quiet_inbox p" and peers: "peers = (\<lambda>k s. s)"
    and total: "\<And>snap body. pr_behavior p snap body \<noteq> Inl OutOfFuel"
      "\<And>s r. sch s r \<noteq> Inl OutOfFuel"
    and "inv s" "cursor_stands (now s) p n" "length ms < 2 ^ 63" "n \<le> length ms"
    and "holds_messages (now s) (pr_inbox p) (pr_entity p) ms" "length ms < n + fuel"
  shows "\<exists>r s'. run_to_idle fuel ops sch p peers c s = (r, s') \<and> r \<noteq> Inl OutOfFuel"
  using assms(6-)
proof (induction fuel arbitrary: c s n)
  case 0
  then show ?case by simp
next
  case (Suc fuel)
  obtain x s1 where st: "step_checked ops sch no_behavior_check p (peers c) s = (x, s1)" by fastforce
  have peer: "later ops inv W s (peers c s)" "cursor_stands (now (peers c s)) p n"
    using Suc.prems(1,2) by (simp_all add: later_refl peers)
  have run: "run_to_idle (Suc fuel) ops sch p peers c s =
      (case x of Inl e \<Rightarrow> (Inl e, s1) | Inr None \<Rightarrow> (Inr c, s1) | Inr (Some Rejected) \<Rightarrow> (Inr c, s1)
       | Inr (Some (Committed e)) \<Rightarrow> run_to_idle fuel ops sch p peers (c + 1) s1)"
    using st by (simp add: step_def obind_apply split: sum.splits option.splits commit_outcome.splits)
  show ?case
  proof (cases "\<exists>e. x = Inr (Some (Committed e))")
    case True
    then obtain e where x: "x = Inr (Some (Committed e))" by blast
    have msg: "message_at ops s p (word_of_nat n) (ts_current ops s) =
        Inr (if n < length ms then Some (ms ! n) else None)"
      by (rule message_now [OF Suc.prems(1,5)]) (use Suc.prems(3,4) in simp)
    have "n < length ms"
    proof (rule ccontr)
      assume "\<not> n < length ms"
      then have "prepare ops s p = Inr None"
        using msg cursor_position_ok [OF Suc.prems(1,2)] by (simp add: prepare_def patch_at_def)
      then show False using st x by (simp add: step_checked_def obind_oread_Inr)
    qed
    then have "Suc n < 2 ^ 63" using Suc.prems(3) by simp
    with step_cursor [OF Suc.prems(1) assms(1) Suc.prems(2) _ peer st] x obtain body bp where
      s1: "inv s1" "cursor_stands (now s1) p (Suc n)" and bp: "pr_behavior p (snapshot_at_current ops s) body = Inr bp"
      and w: "wrote s (patch_updates (bp\<lparr>p_cursor_advance := Some (cursor_advance p (word_of_nat n))\<rparr>)) s1"
      by (auto simp: peers)
    have "holds_messages (now s1) (pr_inbox p) (pr_entity p) ms"
      by (rule inbox_kept [OF _ Suc.prems(5) stepped_now [OF w]])
        (use assms(2) bp in \<open>auto simp: quiet_inbox_def cursor_advance_def\<close>)
    then show ?thesis
      using Suc.IH [OF s1 Suc.prems(3)] Suc.prems(6) \<open>n < length ms\<close> run x by simp
  next
    case False
    have "x \<noteq> Inl OutOfFuel" using step_rounds [of p sch s n] total Suc.prems(1,2) st by (auto simp: peers)
    then show ?thesis using False run by (auto split: sum.splits option.splits commit_outcome.splits)
  qed
qed

text \<open>
  Retrying a step until it commits still takes the message once: the cursor moves by one
  exactly when an edition is returned.
\<close>

lemma step_retrying_once:
  assumes "careful p" "yields ops inv W p peers"
    and "inv s" "cursor_stands (now s) p n" "Suc n < 2 ^ 63"
    and "step_retrying_checked ops sch chk p peers policy k s = (r, s')"
  shows "inv s' \<and> later ops inv W s s' \<and>
    cursor_stands (now s') p (case r of Inr (Some e) \<Rightarrow> Suc n | _ \<Rightarrow> n)"
  using assms(3-6)
proof (induction "unat (bo_left policy)" arbitrary: policy k s rule: less_induct)
  case less
  obtain x s1 where st: "step_checked ops sch chk p (peers k) s = (x, s1)" by fastforce
  have peer: "later ops inv W s (peers k s)" "cursor_stands (now (peers k s)) p n"
    using assms(2) less.prems(1,2) by (auto simp: yields_def)
  note once = step_cursor [OF less.prems(1) assms(1) less.prems(2,3) peer st]
  show ?case
  proof (cases "x = Inr (Some Rejected)")
    case False
    then show ?thesis
      using once less.prems(4) st
      by (auto simp: step_retrying_checked.simps [of ops sch chk p peers policy k s]
          split: sum.splits option.splits commit_outcome.splits)
  next
    case True
    then have s1: "inv s1" "later ops inv W s s1" "cursor_stands (now s1) p n" using once by auto
    show ?thesis
    proof (cases "\<exists>d policy'. backoff_wait policy = Inr (True, d, policy')")
      case True
      then obtain d policy' where w: "backoff_wait policy = Inr (True, d, policy')" by blast
      have "step_retrying_checked ops sch chk p peers policy' (Suc k) s1 = (r, s')"
        using less.prems(4) st \<open>x = Inr (Some Rejected)\<close> w
        by (simp add: step_retrying_checked.simps [of ops sch chk p peers policy k s])
      from less.hyps [OF backoff_wait_left [OF w] s1(1,3) less.prems(3) this]
      show ?thesis using later_trans [OF s1(2)] by blast
    next
      case False
      then have "s' = s1 \<and> (\<exists>e. r = Inl e)"
        using less.prems(4) st \<open>x = Inr (Some Rejected)\<close>
        by (auto simp: step_retrying_checked.simps [of ops sch chk p peers policy k s]
            split: sum.splits prod.splits if_splits)
      then show ?thesis using s1 by auto
    qed
  qed
qed

end

end
