(* ===== verification/Replay.thy ===== *)
theory Replay
  imports Process
begin

text \<open>
  Replay (\<^verbatim>\<open>grmpl-proc/src/replay.rs\<close>): the live log of a process's steps, and the
  log reconstructed from committed history alone. The reconstruction reads the raw updates
  of the cursor relation, so the store's contract is extended with what those are.
\<close>

section \<open>The two logs\<close>

record replay_step =
  rs_seq :: i64
  rs_patch :: patch
  rs_edition :: edition

fun record_run ::
  "nat \<Rightarrow> 's trace_ops \<Rightarrow> ('s \<Rightarrow> schemas) \<Rightarrow> process \<Rightarrow> 's peers \<Rightarrow> nat \<Rightarrow> ('s, replay_step list) op" where
  "record_run 0 ops sch p peers k = ofail OutOfFuel"
| "record_run (Suc fuel) ops sch p peers k =
     obind (oread (\<lambda>s. prepare ops s p)) (\<lambda>r. case r of
       None \<Rightarrow> oret []
     | Some (seq, patch) \<Rightarrow>
         obind (opause (peers k)) (\<lambda>_.
         obind (commit_patch ops sch patch (pr_authority p)) (\<lambda>out. case out of
           Committed e \<Rightarrow>
             obind (record_run fuel ops sch p peers (Suc k)) (\<lambda>rest.
               oret (\<lparr>rs_seq = seq, rs_patch = patch, rs_edition = e\<rparr> # rest))
         | Rejected \<Rightarrow> oret [])))"

text \<open>A positive cursor row of the process marks an advance; the paired retract does not.\<close>

definition advance_of :: "entity \<Rightarrow> update \<Rightarrow> (i64 \<times> edition) option" where
  "advance_of p u = map_option (\<lambda>k. (k, t_edition (u_time u))) (cursor_cell p (u_tuple u, u_diff u))"

fun replay_steps :: "'s trace_ops \<Rightarrow> 's \<Rightarrow> process \<Rightarrow> (i64 \<times> edition) list \<Rightarrow> replay_step list result" where
  "replay_steps ops s p [] = Inr []"
| "replay_steps ops s p ((k, e) # rest) =
     rbind (patch_at ops s p (k - 1) (e - 1)) (\<lambda>r.
     rbind (replay_steps ops s p rest) (\<lambda>out.
       Inr (case r of
              Some patch \<Rightarrow> \<lparr>rs_seq = k - 1, rs_patch = patch, rs_edition = e\<rparr> # out
            | None \<Rightarrow> out)))"

definition replay_from :: "'s trace_ops \<Rightarrow> 's \<Rightarrow> process \<Rightarrow> edition \<Rightarrow> replay_step list result" where
  "replay_from ops s p from =
     (if from < ts_watermark ops s
      then Inl (Err (EStore ''replay below the consolidation watermark''))
      else rbind (ts_scan_updates ops s (pr_cursor_rel p) from (ts_current ops s)) (\<lambda>ups.
        let advances = List.map_filter (advance_of (pr_entity p)) ups
        in replay_steps ops s p (sort_key (\<lambda>(k, e). (sint k, e)) advances)))"

section \<open>A store that keeps its log\<close>

text \<open>The rows a commit writes to one relation, in the order of the commit.\<close>

definition rel_rows :: "rel_id \<Rightarrow> upd list \<Rightarrow> rows" where
  "rel_rows r us = map (\<lambda>(r', t, d). (t, d)) (filter (\<lambda>(r', t, d). r' = r) us)"

definition log_updates :: "(edition \<Rightarrow> rows) \<Rightarrow> edition \<Rightarrow> edition \<Rightarrow> update list" where
  "log_updates l from to =
     concat (map (\<lambda>e. map (\<lambda>(t, d). \<lparr>u_tuple = t, u_time = time_input e, u_diff = d\<rparr>) (l e)) [Suc from..<Suc to])"

text \<open>
  \<open>L s r e\<close> are the raw updates of relation \<open>r\<close> at edition \<open>e\<close>. A scan returns them in commit
  order, and a commit adds its own as they were given.
\<close>

locale logged_store = trace_store ops inv W
  for ops :: "'s trace_ops" and inv and W +
  fixes L :: "'s \<Rightarrow> rel_id \<Rightarrow> edition \<Rightarrow> rows"
  assumes log_scan: "inv s \<Longrightarrow> ts_watermark ops s \<le> from \<Longrightarrow> from \<le> to \<Longrightarrow> to \<le> ts_current ops s \<Longrightarrow>
      ts_scan_updates ops s r from to = Inr (log_updates (L s r) from to)"
    and log_commit: "inv s \<Longrightarrow> ts_commit ops us s = (Inr e, s') \<Longrightarrow>
      L s' r = (L s r)(Suc (ts_current ops s) := rel_rows r us)"
    and log_commit_if: "inv s \<Longrightarrow> ts_commit_if ops pre us s = (Inr (Some e), s') \<Longrightarrow>
      L s' r = (L s r)(Suc (ts_current ops s) := rel_rows r us)"

section \<open>Pure behaviors\<close>

text \<open>A behavior is pure when what it proposes depends on the contents its snapshot shows.\<close>

definition pure_behavior :: "behavior \<Rightarrow> bool" where
  "pure_behavior f \<longleftrightarrow> (\<forall>snap snap' body. sn_edition snap = sn_edition snap' \<longrightarrow>
     (\<forall>r. snapshot_read snap r = snapshot_read snap' r) \<longrightarrow> f snap body = f snap' body)"

lemma map_filter_append [simp]: "List.map_filter f (xs @ ys) = List.map_filter f xs @ List.map_filter f ys"
  by (induction xs) (auto simp: List.map_filter_def)

lemma map_filter_none: "(\<And>x. x \<in> set xs \<Longrightarrow> f x = None) \<Longrightarrow> List.map_filter f xs = []"
  by (induction xs) (auto simp: List.map_filter_def)

lemma log_updates_snoc:
  "from \<le> to \<Longrightarrow> log_updates l from (Suc to) =
     log_updates l from to @ map (\<lambda>(t, d). \<lparr>u_tuple = t, u_time = time_input (Suc to), u_diff = d\<rparr>) (l (Suc to))"
  by (simp add: log_updates_def)

lemma log_updates_refl [simp]: "log_updates l e e = []"
  by (simp add: log_updates_def)

lemma log_updates_cong:
  "(\<And>e. from < e \<Longrightarrow> e \<le> to \<Longrightarrow> l e = l' e) \<Longrightarrow> log_updates l from to = log_updates l' from to"
  unfolding log_updates_def by (intro arg_cong [where f = concat] map_cong) auto

text \<open>The one advance that a step's patch leaves in the log of its edition.\<close>

lemma step_advance:
  assumes "minds_cursor p bp" "Suc n < 2 ^ 63"
  shows "List.map_filter (advance_of (pr_entity p))
      (map (\<lambda>(t, d). \<lparr>u_tuple = t, u_time = time_input e, u_diff = d\<rparr>)
        (rel_rows (pr_cursor_rel p)
          (patch_updates (bp\<lparr>p_cursor_advance := Some (cursor_advance p (word_of_nat n))\<rparr>))))
    = [(word_of_nat (Suc n), e)]"
proof -
  let ?mk = "\<lambda>(t, d). \<lparr>u_tuple = t, u_time = time_input e, u_diff = d\<rparr>"
  have own: "List.map_filter (advance_of (pr_entity p))
      (map ?mk (rel_rows (pr_cursor_rel p) (patch_updates (bp\<lparr>p_cursor_advance := None\<rparr>)))) = []"
    by (rule map_filter_none)
      (use assms(1) in \<open>auto simp: rel_rows_def minds_cursor_def advance_of_def cursor_cell_def\<close>)
  have split: "rel_rows r (us @ vs) = rel_rows r us @ rel_rows r vs" for r us vs
    by (simp add: rel_rows_def)
  show ?thesis
    by (simp add: patch_updates_cursor split own cursor_updates_def cursor_advance_def)
      (auto simp: rel_rows_def List.map_filter_def advance_of_def cursor_cell_def time_input_def add.commute)
qed

context trace_store
begin

lemma read_later:
  assumes "inv s" "later ops inv W s s'" "ts_watermark ops s' \<le> e" "e \<le> ts_current ops s"
  shows "ts_read_at ops s' r e = ts_read_at ops s r e"
proof -
  have s': "inv s'" and w: "ts_watermark ops s \<le> e" and eq: "\<And>t. W s' r e t = W s r e t"
    using assms(2-4) by (auto simp: later_def)
  obtain rows where "ts_read_at ops s r e = Inr rows" "canonical rows" "\<And>t. wsum rows t = W s r e t"
    using read_at [OF assms(1) w] by blast
  moreover obtain rows' where "ts_read_at ops s' r e = Inr rows'" "canonical rows'" "\<And>t. wsum rows' t = W s' r e t"
    using read_at [OF s' assms(3)] by blast
  ultimately show ?thesis using canonical_ext [of rows' rows] eq by simp
qed

text \<open>What a pure behavior proposed at an edition, it proposes at any later time.\<close>

lemma patch_at_later:
  assumes "inv s" "later ops inv W s s'" "ts_watermark ops s' \<le> e" "e \<le> ts_current ops s"
    and "pure_behavior (pr_behavior p)"
  shows "patch_at ops s' p seq e = patch_at ops s p seq e"
proof -
  have s': "inv s'" using assms(2) by (simp add: later_def)
  have "snapshot_read (snapshot_new ops s' e) r = snapshot_read (snapshot_new ops s e) r" for r
    using read_later [OF assms(1-4)]
    by (simp add: snapshot_read_def snapshot_new_def reader_read s' assms(1))
  then have "pr_behavior p (snapshot_new ops s' e) body = pr_behavior p (snapshot_new ops s e) body" for body
    using assms(5) unfolding pure_behavior_def by (metis snapshot.select_convs(1) snapshot_new_def)
  then show ?thesis
    by (simp add: patch_at_def message_at_def read_later [OF assms(1-4)] cong: option.case_cong)
qed

end

context logged_store
begin

lemma log_commit_patch:
  assumes "inv s" "commit_patch_checked ops sch chk p a s = (Inr (Committed e), s')"
  shows "L s' r = (L s r)(Suc (ts_current ops s) := rel_rows r (patch_updates p))"
proof -
  have "lawful (sch s) chk p a" using commit_patch_result [OF assms] by blast
  then have "obind (ts_commit_if ops (patch_preconditions p) (patch_updates p)) (\<lambda>r. oret (outcome_of r)) s
      = (Inr (Committed e), s')"
    using assms(2) check_patch_ok [of "sch s" chk p a]
    by (simp add: commit_patch_checked_def obind_oread_Inr patch_updates_def)
  then have "\<exists>e'. ts_commit_if ops (patch_preconditions p) (patch_updates p) s = (Inr (Some e'), s')"
    by (auto simp: obind_Inr_iff outcome_of_def split: option.splits)
  then show ?thesis using log_commit_if [OF assms(1)] by blast
qed

end

text \<open>
  A recorded run, read back: the editions follow one another, each patch is what the process
  proposes at the edition before its own, and the log holds one advance per step.
\<close>

definition replays ::
  "'s trace_ops \<Rightarrow> ('s \<Rightarrow> rel_id \<Rightarrow> edition \<Rightarrow> rows) \<Rightarrow> 's \<Rightarrow> process \<Rightarrow> nat \<Rightarrow> edition \<Rightarrow> replay_step list \<Rightarrow> bool" where
  "replays ops L s' p n c steps \<longleftrightarrow> ts_current ops s' = c + length steps \<and>
     (\<forall>i<length steps. rs_seq (steps ! i) = word_of_nat (n + i) \<and> rs_edition (steps ! i) = Suc (c + i) \<and>
        patch_at ops s' p (word_of_nat (n + i)) (c + i) = Inr (Some (rs_patch (steps ! i)))) \<and>
     List.map_filter (advance_of (pr_entity p)) (log_updates (L s' (pr_cursor_rel p)) c (c + length steps)) =
       map (\<lambda>i. (word_of_nat (Suc (n + i)), Suc (c + i))) [0..<length steps]"

lemma log_updates_Cons:
  "from < to \<Longrightarrow> log_updates l from to =
     map (\<lambda>(t, d). \<lparr>u_tuple = t, u_time = time_input (Suc from), u_diff = d\<rparr>) (l (Suc from)) @
     log_updates l (Suc from) to"
  by (cases "to = Suc from") (simp_all add: log_updates_def upt_conv_Cons)

lemma upt_Suc_map: "map f [0..<Suc m] = f 0 # map (\<lambda>i. f (Suc i)) [0..<m]"
  by (simp only: map_upt_Suc)

lemma replays_Nil [simp]: "replays ops L s' p n c [] \<longleftrightarrow> ts_current ops s' = c"
  by (simp add: replays_def List.map_filter_def)

lemma replays_Cons:
  assumes "replays ops L s' p (Suc n) (Suc c) rest"
    and "rs_seq st = word_of_nat n" "rs_edition st = Suc c"
    and "patch_at ops s' p (word_of_nat n) c = Inr (Some (rs_patch st))"
    and "List.map_filter (advance_of (pr_entity p))
      (map (\<lambda>(t, d). \<lparr>u_tuple = t, u_time = time_input (Suc c), u_diff = d\<rparr>) (L s' (pr_cursor_rel p) (Suc c)))
      = [(word_of_nat (Suc n), Suc c)]"
  shows "replays ops L s' p n c (st # rest)"
proof -
  have "rs_seq ((st # rest) ! i) = word_of_nat (n + i) \<and> rs_edition ((st # rest) ! i) = Suc (c + i) \<and>
      patch_at ops s' p (word_of_nat (n + i)) (c + i) = Inr (Some (rs_patch ((st # rest) ! i)))"
    if "i < length (st # rest)" for i
  proof (cases i)
    case 0
    then show ?thesis using assms(2-4) by simp
  next
    case (Suc j)
    then have "j < length rest" using that by simp
    then show ?thesis using assms(1) Suc by (simp add: replays_def)
  qed
  moreover have "List.map_filter (advance_of (pr_entity p))
      (log_updates (L s' (pr_cursor_rel p)) c (c + length (st # rest)))
      = map (\<lambda>i. (word_of_nat (Suc (n + i)), Suc (c + i))) [0..<length (st # rest)]"
    using assms(1,5) unfolding replays_def
    by (simp add: log_updates_Cons upt_Suc_map del: upt_Suc of_nat_Suc)
  ultimately show ?thesis using assms(1) by (simp add: replays_def)
qed

lemma sorted_advances:
  "n + m < 2 ^ 63 \<Longrightarrow>
     sort_key (\<lambda>(k, e). (sint k, e)) (map (\<lambda>i. (word_of_nat (Suc (n + i)) :: i64, Suc (c + i))) [0..<m])
       = map (\<lambda>i. (word_of_nat (Suc (n + i)), Suc (c + i))) [0..<m]"
  by (intro sort_key_id_if_sorted)
    (auto simp: sorted_wrt_map comp_def less_eq_prod_def signed_of_nat signed_take_bit_int_eq_self
      intro!: sorted_wrt_mono_rel [OF _ sorted_wrt_upt] simp del: of_nat_Suc)

lemma replay_steps_ok:
  assumes "\<forall>i<length steps. rs_seq (steps ! i) = word_of_nat (n + i) \<and> rs_edition (steps ! i) = Suc (c + i) \<and>
      patch_at ops s p (word_of_nat (n + i)) (c + i) = Inr (Some (rs_patch (steps ! i)))"
  shows "replay_steps ops s p (map (\<lambda>i. (word_of_nat (Suc (n + i)), Suc (c + i))) [0..<length steps]) = Inr steps"
  using assms
proof (induction steps arbitrary: n c)
  case (Cons st rest)
  have "rs_seq st = word_of_nat n" "rs_edition st = Suc c"
    "patch_at ops s p (word_of_nat n) c = Inr (Some (rs_patch st))"
    using Cons.prems [rule_format, of 0] by simp_all
  moreover have "\<forall>i<length rest. rs_seq (rest ! i) = word_of_nat (Suc n + i) \<and> rs_edition (rest ! i) = Suc (Suc c + i) \<and>
      patch_at ops s p (word_of_nat (Suc n + i)) (Suc c + i) = Inr (Some (rs_patch (rest ! i)))"
    using Cons.prems [rule_format, of "Suc _"] by simp
  from Cons.IH [OF this] have
    "replay_steps ops s p (map (\<lambda>i. (word_of_nat (Suc (n + Suc i)), Suc (c + Suc i))) [0..<length rest]) = Inr rest"
    by simp
  ultimately show ?case
    by (simp add: upt_Suc_map del: upt_Suc)
qed simp

context logged_store
begin

lemma record_run_replays:
  assumes "careful p" "pure_behavior (pr_behavior p)"
    and "inv s" "cursor_stands (now s) p n" "n + fuel < 2 ^ 63"
    and "record_run fuel ops sch p (\<lambda>k s. s) k s = (Inr steps, s')"
  shows "inv s' \<and> later ops inv W s s' \<and> ts_watermark ops s' = ts_watermark ops s \<and>
    (\<forall>r e. e \<le> ts_current ops s \<longrightarrow> L s' r e = L s r e) \<and>
    length steps \<le> fuel \<and> cursor_stands (now s') p (n + length steps) \<and>
    replays ops L s' p n (ts_current ops s) steps"
  using assms(3-6)
proof (induction fuel arbitrary: k s n steps)
  case 0
  then show ?case by simp
next
  case (Suc fuel)
  have n: "Suc n < 2 ^ 63" using Suc.prems(3) by simp
  obtain m where prep: "prepare ops s p = Inr m"
    using Suc.prems(4) by (cases "prepare ops s p") (simp_all add: obind_oread_Inl)
  show ?case
  proof (cases m)
    case None
    then have "steps = []" "s' = s" using Suc.prems(4) prep by (simp_all add: obind_oread_Inr)
    then show ?thesis using Suc.prems(1,2) by (simp add: later_refl)
  next
    case (Some sp)
    obtain seq patch where sp: "sp = (seq, patch)" by (cases sp)
    obtain body bp where seq: "seq = word_of_nat n"
      and body: "message_at ops s p (word_of_nat n) (ts_current ops s) = Inr (Some body)"
      and bp: "pr_behavior p (snapshot_at_current ops s) body = Inr bp"
      and patch: "patch = bp\<lparr>p_cursor_advance := Some (cursor_advance p (word_of_nat n))\<rparr>"
      using prepare_Some [OF Suc.prems(1,2)] prep Some sp by blast
    have minds: "minds_cursor p bp" using assms(1) bp unfolding careful_def by blast
    have proposed: "patch_at ops s p (word_of_nat n) (ts_current ops s) = Inr (Some patch)"
      using body bp patch by (simp add: patch_at_def snapshot_at_current_def)
    obtain out s1 where com: "commit_patch ops sch patch (pr_authority p) s = (out, s1)" by fastforce
    have run: "(case out of
          Inl e \<Rightarrow> (Inl e, s1) | Inr Rejected \<Rightarrow> (Inr [], s1)
        | Inr (Committed e) \<Rightarrow> obind (record_run fuel ops sch p (\<lambda>k s. s) (Suc k)) (\<lambda>rest.
            oret (\<lparr>rs_seq = seq, rs_patch = patch, rs_edition = e\<rparr> # rest)) s1) = (Inr steps, s')"
      using Suc.prems(4) com
      by (simp add: obind_oread_Inr prep Some sp obind_step [of "opause (\<lambda>s. s)" s "()" s] opause_def
          obind_apply [of "commit_patch ops sch patch (pr_authority p)"] split: sum.splits commit_outcome.splits)
    show ?thesis
    proof (cases "\<exists>e. out = Inr (Committed e)")
      case False
      then have "out = Inr Rejected" "steps = []" "s' = s1"
        using run by (auto split: sum.splits commit_outcome.splits)
      moreover have "s1 = s"
        using commit_patch_result [OF Suc.prems(1) com [unfolded commit_patch_def]] calculation(1) by simp
      ultimately show ?thesis using Suc.prems(1,2) by (simp add: later_refl)
    next
      case True
      then obtain e where out: "out = Inr (Committed e)" by blast
      note com' = com [unfolded commit_patch_def out]
      have e: "e = Suc (ts_current ops s)" and w: "wrote s (patch_updates patch) s1"
        using commit_patch_result [OF Suc.prems(1) com'] by auto
      have s1: "inv s1" "ts_current ops s1 = Suc (ts_current ops s)" "ts_watermark ops s1 = ts_watermark ops s"
        using w by (simp_all add: stepped_def)
      have c1: "cursor_stands (now s1) p (Suc n)"
        by (rule cursor_moves [OF Suc.prems(2) n minds]) (simp add: stepped_now [OF w] patch)
      obtain rest where rest: "record_run fuel ops sch p (\<lambda>k s. s) (Suc k) s1 = (Inr rest, s')"
        and steps: "steps = \<lparr>rs_seq = seq, rs_patch = patch, rs_edition = e\<rparr> # rest"
        using run out by (auto simp: obind_Inr_iff)
      have IH: "inv s'" "later ops inv W s1 s'" "ts_watermark ops s' = ts_watermark ops s1"
        "\<And>r e. e \<le> ts_current ops s1 \<Longrightarrow> L s' r e = L s1 r e" "length rest \<le> fuel"
        "cursor_stands (now s') p (Suc n + length rest)" "replays ops L s' p (Suc n) (ts_current ops s1) rest"
        using Suc.IH [OF s1(1) c1 _ rest] Suc.prems(3) by auto
      have l: "later ops inv W s s'" using later_trans [OF stepped_later [OF w] IH(2)] .
      have L1: "L s1 r = (L s r)(Suc (ts_current ops s) := rel_rows r (patch_updates patch))" for r
        using log_commit_patch [OF Suc.prems(1) com'] .
      have wm: "ts_watermark ops s' \<le> ts_current ops s"
        using horizon [OF Suc.prems(1)] IH(3) s1(3) by simp
      have "replays ops L s' p n (ts_current ops s) steps"
        unfolding steps
      proof (rule replays_Cons)
        show "replays ops L s' p (Suc n) (Suc (ts_current ops s)) rest" using IH(7) s1(2) by simp
        show "patch_at ops s' p (word_of_nat n) (ts_current ops s) =
            Inr (Some (rs_patch \<lparr>rs_seq = seq, rs_patch = patch, rs_edition = e\<rparr>))"
          using patch_at_later [OF Suc.prems(1) l wm _ assms(2)] proposed by simp
        show "List.map_filter (advance_of (pr_entity p)) (map (\<lambda>(t, d).
            \<lparr>u_tuple = t, u_time = time_input (Suc (ts_current ops s)), u_diff = d\<rparr>)
            (L s' (pr_cursor_rel p) (Suc (ts_current ops s)))) = [(word_of_nat (Suc n), Suc (ts_current ops s))]"
          using step_advance [OF minds n] by (simp add: IH(4) s1(2) L1 patch)
      qed (simp_all add: seq e)
      moreover have "L s' r i = L s r i" if "i \<le> ts_current ops s" for r i
        using IH(4) [of i r] that by (simp add: s1(2) L1)
      ultimately show ?thesis
        using IH(1,3,5,6) l s1(3) steps by simp
    qed
  qed
qed

text \<open>The Replay law: the log read back from history is the log that was recorded.\<close>

lemma replay_law:
  assumes "careful p" "pure_behavior (pr_behavior p)"
    and "inv s" "cursor_stands (now s) p n" "n + fuel < 2 ^ 63"
    and "record_run fuel ops sch p (\<lambda>k s. s) k s = (Inr steps, s')"
  shows "replay_from ops s' p (ts_current ops s) = Inr steps"
proof -
  have r: "inv s'" "ts_watermark ops s' = ts_watermark ops s" "length steps \<le> fuel"
    "replays ops L s' p n (ts_current ops s) steps"
    using record_run_replays [OF assms] by auto
  have wm: "ts_watermark ops s' \<le> ts_current ops s" using horizon [OF assms(3)] r(2) by simp
  have cur: "ts_current ops s' = ts_current ops s + length steps" using r(4) by (simp add: replays_def)
  have scan: "ts_scan_updates ops s' (pr_cursor_rel p) (ts_current ops s) (ts_current ops s') =
      Inr (log_updates (L s' (pr_cursor_rel p)) (ts_current ops s) (ts_current ops s + length steps))"
    using log_scan [OF r(1) wm, of "ts_current ops s'"] cur by simp
  have "n + length steps < 2 ^ 63" using assms(5) r(3) by simp
  then show ?thesis
    using r(4) wm unfolding replay_from_def scan replays_def
    by (simp add: sorted_advances replay_steps_ok Let_def del: of_nat_Suc)
qed

end

end
