(* ===== verification/Schedule.thy ===== *)
theory Schedule
  imports Mailbox
begin

text \<open>
  Timers and the clock (\<^verbatim>\<open>grmpl-proc/src/schedule.rs\<close>). A due timer is delivered
  by one commit that takes the timer row away and appends the message, guarded by the row;
  a clock sample is committed as data.
\<close>

section \<open>Timer rows\<close>

definition decode_timer_row :: "tuple \<Rightarrow> (i64 \<times> rel_id \<times> entity \<times> tuple) result" where
  "decode_timer_row t = (case t of
     [VInt due, VInt inbox, VEnt target, VTuple body] \<Rightarrow>
       if 0 \<le> sint inbox \<and> sint inbox \<le> 2 ^ 32 - 1 then Inr (due, ucast inbox, target, body)
       else Inl (codec ''malformed timer row'')
   | _ \<Rightarrow> Inl (codec ''malformed timer row''))"

section \<open>The scheduler\<close>

record scheduler =
  sd_timers :: rel_id
  sd_seqs :: rel_id
  sd_authority :: authority

definition seq_key :: "entity \<Rightarrow> val list" where
  "seq_key target = [VEnt target]"

definition timer_live :: "'s trace_ops \<Rightarrow> 's \<Rightarrow> scheduler \<Rightarrow> tuple \<Rightarrow> bool result" where
  "timer_live ops s sd row =
     rbind (ts_read_at ops s (sd_timers sd) (ts_current ops s)) (\<lambda>rows.
       Inr (\<exists>(t, d)\<in>set rows. d > 0 \<and> t = row))"

text \<open>
  One attempt to fire: \<open>Some\<close> ends the loop, with whether this call delivered the timer.
\<close>

definition fire_attempt ::
  "'s trace_ops \<Rightarrow> ('s \<Rightarrow> schemas) \<Rightarrow> scheduler \<Rightarrow> tuple \<Rightarrow> rel_id \<Rightarrow> entity \<Rightarrow> tuple \<Rightarrow> ('s \<Rightarrow> 's) \<Rightarrow>
   ('s, bool option) op" where
  "fire_attempt ops sch sd row inbox target body peer =
     obind (oread (\<lambda>s. timer_live ops s sd row)) (\<lambda>live.
       if \<not> live then oret (Some False)
       else
         obind (oread (\<lambda>s. seq_read ops s (sd_seqs sd) (seq_key target))) (\<lambda>a.
         obind (opause peer) (\<lambda>_.
           case seq_fresh a of (seq, a) \<Rightarrow>
             let timer = fact_new (sd_timers sd) row;
                 patch = seq_seal a (patch_assert (inbox_fact inbox target seq body)
                   (patch_retract timer (patch_expect timer patch_new)))
             in obind (commit_patch ops sch patch (sd_authority sd)) (\<lambda>out.
                  oret (case out of Committed _ \<Rightarrow> Some True | Rejected \<Rightarrow> None)))))"

definition fire_one ::
  "'s trace_ops \<Rightarrow> ('s \<Rightarrow> schemas) \<Rightarrow> scheduler \<Rightarrow> 's peers \<Rightarrow> tuple \<Rightarrow> ('s, bool) op" where
  "fire_one ops sch sd peers row =
     (case decode_timer_row row of
        Inl e \<Rightarrow> ofail e
      | Inr (due, inbox, target, body) \<Rightarrow>
          retry_loop 64 0 (\<lambda>k. fire_attempt ops sch sd row inbox target body (peers k)) (oret False))"

fun collect_due :: "i64 \<Rightarrow> rows \<Rightarrow> tuple list result" where
  "collect_due at [] = Inr []"
| "collect_due at ((row, weight) # rows) =
     (if weight \<le> 0 then collect_due at rows
      else rbind (decode_timer_row row) (\<lambda>(due, _).
           rbind (collect_due at rows) (\<lambda>rest.
             Inr (if sint due \<le> sint at then row # rest else rest))))"

definition due_rows :: "'s trace_ops \<Rightarrow> 's \<Rightarrow> scheduler \<Rightarrow> i64 \<Rightarrow> tuple list result" where
  "due_rows ops s sd at =
     rbind (ts_read_at ops s (sd_timers sd) (ts_current ops s)) (\<lambda>rows.
     rbind (collect_due at rows) (\<lambda>due. Inr (sort due)))"

fun fire_all ::
  "'s trace_ops \<Rightarrow> ('s \<Rightarrow> schemas) \<Rightarrow> scheduler \<Rightarrow> (nat \<Rightarrow> 's peers) \<Rightarrow> tuple list \<Rightarrow> nat \<Rightarrow> ('s, nat) op" where
  "fire_all ops sch sd peers [] fired = oret fired"
| "fire_all ops sch sd peers (row # rows) fired =
     obind (fire_one ops sch sd (peers (length rows)) row) (\<lambda>hit.
       fire_all ops sch sd peers rows (if hit then fired + 1 else fired))"

definition fire_due ::
  "'s trace_ops \<Rightarrow> ('s \<Rightarrow> schemas) \<Rightarrow> scheduler \<Rightarrow> (nat \<Rightarrow> 's peers) \<Rightarrow> i64 \<Rightarrow> ('s, nat) op" where
  "fire_due ops sch sd peers at =
     obind (oread (\<lambda>s. due_rows ops s sd at)) (\<lambda>due. fire_all ops sch sd peers due 0)"

datatype fire_next_outcome = Fired | NoneDue | Contended

definition fire_next_due ::
  "'s trace_ops \<Rightarrow> ('s \<Rightarrow> schemas) \<Rightarrow> scheduler \<Rightarrow> 's peers \<Rightarrow> i64 \<Rightarrow> ('s, fire_next_outcome) op" where
  "fire_next_due ops sch sd peers at =
     obind (oread (\<lambda>s. due_rows ops s sd at)) (\<lambda>due. case due of
       [] \<Rightarrow> oret NoneDue
     | row # _ \<Rightarrow> obind (fire_one ops sch sd peers row) (\<lambda>hit. oret (if hit then Fired else Contended)))"

section \<open>The clock\<close>

record clock_driver =
  ck_clock :: rel_id
  ck_authority :: authority

definition clock_cell :: "(i64 \<times> i64 \<times> i64) option \<Rightarrow> tuple \<times> diff \<Rightarrow> (i64 \<times> i64 \<times> i64) option" where
  "clock_cell best = (\<lambda>(t, d).
     if d \<le> 0 then best
     else case t of
       [VInt seq, VInt ms, VInt r] \<Rightarrow>
         (case best of
            None \<Rightarrow> Some (seq, ms, r)
          | Some (s, _) \<Rightarrow> if sint seq > sint s then Some (seq, ms, r) else best)
     | _ \<Rightarrow> best)"

definition clock_latest :: "'s trace_ops \<Rightarrow> 's \<Rightarrow> clock_driver \<Rightarrow> (i64 \<times> i64 \<times> i64) option result" where
  "clock_latest ops s ck =
     rbind (ts_read_at ops s (ck_clock ck) (ts_current ops s)) (\<lambda>rows. Inr (foldl clock_cell None rows))"

definition clock_sample ::
  "'s trace_ops \<Rightarrow> ('s \<Rightarrow> schemas) \<Rightarrow> clock_driver \<Rightarrow> i64 \<Rightarrow> i64 \<Rightarrow> ('s, i64 \<times> i64 \<times> i64) op" where
  "clock_sample ops sch ck wall_ms rand =
     obind (oread (\<lambda>s. clock_latest ops s ck)) (\<lambda>latest.
       if (case latest of Some (_, previous, _) \<Rightarrow> sint wall_ms < sint previous | None \<Rightarrow> False)
       then ofail (Err (EStore ''clock sample regressed''))
       else
         let seq = (case latest of Some (s, _) \<Rightarrow> s + 1 | None \<Rightarrow> 0);
             patch = patch_assert (fact_new (ck_clock ck) [VInt seq, VInt wall_ms, VInt rand]) patch_new
         in obind (commit_patch ops sch patch (ck_authority ck)) (\<lambda>out. case out of
              Committed _ \<Rightarrow> oret (seq, wall_ms, rand)
            | Rejected \<Rightarrow> ofail (Err (EStore ''clock sample rejected''))))"

section \<open>Firing a timer\<close>

lemma decode_timer_row_timer_row:
  "decode_timer_row (timer_row sc) = Inr (sc_due sc, sc_inbox sc, sc_target sc, sc_body sc)"
proof -
  have b: "uint (sc_inbox sc) < 4294967296" using unsigned_less [of "sc_inbox sc", where 'a=int] by simp
  then have "sint (word_of_int (uint (sc_inbox sc)) :: i64) = uint (sc_inbox sc)"
    using signed_take_bit_int_eq_self [of 63 "uint (sc_inbox sc)"] order_trans [OF _ uint_ge_0 [of "sc_inbox sc"]]
    by (simp add: signed_of_int del: of_int_uint)
  then have s: "sint (ucast (sc_inbox sc) :: i64) = uint (sc_inbox sc)" by simp
  have "(ucast (ucast (sc_inbox sc) :: i64) :: rel_id) = sc_inbox sc"
    by (rule ucast_up_ucast_id) (simp add: is_up)
  then show ?thesis using s b by (simp add: decode_timer_row_def timer_row_def)
qed

lemma decode_timer_row_Inr:
  "decode_timer_row row = Inr (due, inbox, target, body) \<Longrightarrow> \<exists>i. row = [VInt due, VInt i, VEnt target, VTuple body]"
  by (auto simp: decode_timer_row_def codec_def split: list.splits val.splits if_splits)

lemma timer_not_message [simp]: "[VInt due, VInt i, VEnt target, VTuple body] \<noteq> inbox_row p x b"
  by (simp add: inbox_row_def)

text \<open>The updates of a delivery, up to the order in which the patch lists them.\<close>

definition deliver_updates :: "scheduler \<Rightarrow> tuple \<Rightarrow> rel_id \<Rightarrow> entity \<Rightarrow> i64 \<Rightarrow> tuple \<Rightarrow> upd list" where
  "deliver_updates sd row inbox target n body =
     [(inbox, inbox_row target n body, 1), (sd_seqs sd, [VEnt target, VInt (n + 1)], 1),
      (sd_timers sd, row, -1), (sd_seqs sd, [VEnt target, VInt n], -1)]"

definition delivery :: "scheduler \<Rightarrow> tuple \<Rightarrow> rel_id \<Rightarrow> entity \<Rightarrow> i64 \<Rightarrow> tuple \<Rightarrow> patch" where
  "delivery sd row inbox target n body = \<lparr>
     p_preconditions = [fact_new (sd_timers sd) row, fact_new (sd_seqs sd) [VEnt target, VInt n]],
     p_asserts = [inbox_fact inbox target n body, fact_new (sd_seqs sd) [VEnt target, VInt (n + 1)]],
     p_retracts = [fact_new (sd_timers sd) row, fact_new (sd_seqs sd) [VEnt target, VInt n]],
     p_emits = [], p_scheduled = [], p_cursor_advance = None\<rparr>"

lemma delivery_updates: "patch_updates (delivery sd row inbox target n body) = deliver_updates sd row inbox target n body"
  by (simp add: patch_updates_def delivery_def deliver_updates_def timer_facts_def cursor_updates_def inbox_fact_def)

lemma delivery_preconditions:
  "patch_preconditions (delivery sd row inbox target n body) = [(sd_timers sd, row), (sd_seqs sd, [VEnt target, VInt n])]"
  by (simp add: patch_preconditions_def delivery_def)

lemma mailbox_cong:
  assumes "mailbox w inbox seqs p ms"
    and "\<And>r t. get t 0 = Some (VEnt p) \<Longrightarrow> w' r t = w r t"
  shows "mailbox w' inbox seqs p ms"
proof -
  have "w' inbox (inbox_row p x b) = w inbox (inbox_row p x b)" for x b
    by (rule assms(2)) (simp add: inbox_row_def get_def)
  moreover have "w' seqs [VEnt p, VInt x] = w seqs [VEnt p, VInt x]" for x
    by (rule assms(2)) (simp add: get_def)
  moreover have "\<exists>x b. t = inbox_row p x b" if "0 < w' inbox t" "get t 0 = Some (VEnt p)" for t
    using assms(1) that(1) that(2) unfolding assms(2) [OF that(2)] mailbox_def holds_messages_def by blast
  ultimately show ?thesis
    using assms(1) unfolding mailbox_def holds_messages_def counter_def by simp
qed

lemma deliver_mailbox:
  assumes "mailbox w inbox (sd_seqs sd) target ms" "Suc (length ms) < 2 ^ 63"
    and "decode_timer_row row = Inr (due, inbox, target, body)"
    and "\<And>r t. w' r t = w r t + upd_weight (deliver_updates sd row inbox target (word_of_nat (length ms)) body) r t"
  shows "mailbox w' inbox (sd_seqs sd) target (ms @ [body])"
proof (rule mailbox_cong)
  obtain i where row: "row = [VInt due, VInt i, VEnt target, VTuple body]"
    using decode_timer_row_Inr [OF assms(3)] by blast
  let ?v = "\<lambda>r t. w r t + upd_weight (append_updates inbox (sd_seqs sd) target (word_of_nat (length ms)) body) r t"
  show "mailbox ?v inbox (sd_seqs sd) target (ms @ [body])"
    by (rule mailbox_append [OF assms(1,2)])
      (use assms(1) in \<open>auto simp: append_updates_def mailbox_def\<close>)
  show "w' r t = ?v r t" if "get t 0 = Some (VEnt target)" for r t
    using that by (auto simp: assms(4) deliver_updates_def append_updates_def row get_def)
qed

context trace_store
begin

lemma timer_live_now:
  assumes "inv s"
  shows "timer_live ops s sd row = Inr (0 < now s (sd_timers sd) row)"
proof -
  obtain rows where rows: "ts_read_at ops s (sd_timers sd) (ts_current ops s) = Inr rows"
    "canonical rows" "\<And>t. wsum rows t = now s (sd_timers sd) t" using read_now [OF assms] by blast
  have "(\<exists>(t, d)\<in>set rows. d > 0 \<and> t = row) \<longleftrightarrow> 0 < now s (sd_timers sd) row"
    using canonical_mem [OF rows(2)] rows(3)
    by (auto simp: case_prod_unfold intro!: bexI [of _ "(row, now s (sd_timers sd) row)"])
  then show ?thesis by (simp add: timer_live_def rows(1))
qed

text \<open>
  One attempt against peers that append to the target's mailbox and may fire the timer
  themselves: it delivers exactly when the row and the counter are still as it read them.
\<close>

lemma fire_attempt_cases:
  assumes "inv s" "mailbox (now s) inbox (sd_seqs sd) target ms" "Suc (length ms) < 2 ^ 63"
    and "decode_timer_row row = Inr (due, inbox, target, body)"
    and "later ops inv W s (peer s)" "mailbox (now (peer s)) inbox (sd_seqs sd) target (ms @ new)"
    and "Suc (length (ms @ new)) < 2 ^ 63"
  obtains (gone) "now s (sd_timers sd) row \<le> 0"
      "fire_attempt ops sch sd row inbox target body peer s = (Inr (Some False), s)"
    | (refused) e where "fire_attempt ops sch sd row inbox target body peer s = (Inl e, peer s)"
      "\<not> lawful (sch (peer s)) no_behavior_check (delivery sd row inbox target (word_of_nat (length ms)) body) (sd_authority sd)"
    | (lost) "new \<noteq> [] \<or> now (peer s) (sd_timers sd) row \<le> 0"
      "fire_attempt ops sch sd row inbox target body peer s = (Inr None, peer s)"
    | (won) s' where "new = []" "0 < now (peer s) (sd_timers sd) row"
      "fire_attempt ops sch sd row inbox target body peer s = (Inr (Some True), s')"
      "wrote (peer s) (deliver_updates sd row inbox target (word_of_nat (length ms)) body) s'"
      "mailbox (now s') inbox (sd_seqs sd) target (ms @ [body])"
proof (cases "0 < now s (sd_timers sd) row")
  case False
  then have "timer_live ops s sd row = Inr False" by (simp add: timer_live_now [OF assms(1)])
  then show ?thesis
    using gone False by (simp add: fire_attempt_def obind_apply oread_def)
next
  case True
  let ?t = "peer s" and ?n = "word_of_nat (length ms) :: i64"
  let ?p = "delivery sd row inbox target ?n body"
  have t: "inv ?t" using assms(5) by (simp add: later_def)
  have read: "seq_read ops s (sd_seqs sd) (seq_key target) = Inr \<lparr>sq_rel = sd_seqs sd, sq_key = [VEnt target],
      sq_start = ?n, sq_present = True, sq_n = 0\<rparr>"
    unfolding seq_key_def using assms(1,2) by (intro seq_read_counter) (auto simp: mailbox_def)
  have live: "timer_live ops s sd row = Inr True" using True by (simp add: timer_live_now [OF assms(1)])
  have run: "fire_attempt ops sch sd row inbox target body peer s =
      obind (commit_patch_checked ops sch no_behavior_check ?p (sd_authority sd))
        (\<lambda>out. oret (case out of Committed _ \<Rightarrow> Some True | Rejected \<Rightarrow> None)) ?t"
    by (simp add: fire_attempt_def obind_oread_Inr [where r = "\<lambda>s. timer_live ops s sd row", OF live]
        obind_oread_Inr [where r = "\<lambda>s. seq_read ops s (sd_seqs sd) (seq_key target)", OF read]
        obind_step [of "opause peer" s "()" ?t] opause_def seq_fresh_def seq_seal_def Let_def counter_tuple_def
        patch_builders inbox_fact_def commit_patch_def delivery_def)
  have pre: "holds_all (W ?t) (ts_current ops ?t) (patch_preconditions ?p) \<longleftrightarrow>
      0 < now ?t (sd_timers sd) row \<and> new = []"
    using mailbox_counter_step [OF assms(6)] assms(7)
    by (auto simp: delivery_preconditions holds_all_def world_now_def)
  show ?thesis
  proof (cases rule: commit_patch_cases [OF t, of sch no_behavior_check ?p "sd_authority sd"])
    case (1 e)
    then show ?thesis using refused run by (simp add: obind_apply)
  next
    case 2
    then show ?thesis using lost run pre by (auto simp: obind_apply)
  next
    case (3 s1)
    have w: "wrote ?t (deliver_updates sd row inbox target ?n body) s1"
      using 3(4) by (simp add: delivery_updates)
    have new: "new = []" "0 < now ?t (sd_timers sd) row" using 3(2) pre by auto
    show ?thesis
    proof (rule won [OF new _ w])
      show "fire_attempt ops sch sd row inbox target body peer s = (Inr (Some True), s1)"
        using run 3(3) by (simp add: obind_apply)
      show "mailbox (now s1) inbox (sd_seqs sd) target (ms @ [body])"
        by (rule deliver_mailbox [OF _ assms(3,4)])
          (use assms(6) new stepped_now [OF w] in simp_all)
    qed
  qed
qed

text \<open>
  The loop delivers at most once: when it answers yes, the message stands at the end of the
  mailbox and one copy of the timer row, live just before, is gone; otherwise it wrote
  nothing itself.
\<close>

lemma fire_loop:
  assumes "appends ops inv W inbox (sd_seqs sd) target peers"
    and "decode_timer_row row = Inr (due, inbox, target, body)"
    and "inv s" "mailbox (now s) inbox (sd_seqs sd) target ms" "Suc (length ms) < 2 ^ 63"
    and "retry_loop n k (\<lambda>k. fire_attempt ops sch sd row inbox target body (peers k)) (oret False) s = (r, s')"
  shows "inv s' \<and> (\<exists>new. if r = Inr True
      then mailbox (now s') inbox (sd_seqs sd) target (ms @ new @ [body]) \<and>
        (\<exists>t. later ops inv W s t \<and> mailbox (now t) inbox (sd_seqs sd) target (ms @ new) \<and>
          0 < now t (sd_timers sd) row \<and>
          wrote t (deliver_updates sd row inbox target (word_of_nat (length (ms @ new))) body) s')
      else mailbox (now s') inbox (sd_seqs sd) target (ms @ new))"
  using assms(3-6)
proof (induction n arbitrary: k s ms)
  case 0
  then show ?case by (auto intro!: exI [of _ "[]"])
next
  case (Suc n)
  obtain new where l: "later ops inv W s (peers k s)"
    and m: "mailbox (now (peers k s)) inbox (sd_seqs sd) target (ms @ new)" and len: "Suc (length (ms @ new)) < 2 ^ 63"
    using assms(1) Suc.prems(1-3) unfolding appends_def by blast
  have t: "inv (peers k s)" using l by (simp add: later_def)
  show ?case
  proof (cases rule: fire_attempt_cases [where peer = "peers k" and sch = sch,
        OF Suc.prems(1-3) assms(2) l m len])
    case 1
    then have "r = Inr False" "s' = s" using Suc.prems(4) by (simp_all add: obind_step)
    then show ?thesis using Suc.prems(1,2) by (auto intro!: exI [of _ "[]"])
  next
    case (2 e)
    then have "r = Inl e" "s' = peers k s" using Suc.prems(4) by (simp_all add: obind_apply)
    then show ?thesis using t m by auto
  next
    case 3
    then have "retry_loop n (Suc k) (\<lambda>k. fire_attempt ops sch sd row inbox target body (peers k)) (oret False) (peers k s) = (r, s')"
      using Suc.prems(4) by (simp add: obind_step oret_def)
    from Suc.IH [OF t m len this] obtain more where inv': "inv s'" and more: "if r = Inr True
      then mailbox (now s') inbox (sd_seqs sd) target ((ms @ new) @ more @ [body]) \<and>
        (\<exists>t. later ops inv W (peers k s) t \<and> mailbox (now t) inbox (sd_seqs sd) target ((ms @ new) @ more) \<and>
          0 < now t (sd_timers sd) row \<and>
          wrote t (deliver_updates sd row inbox target (word_of_nat (length ((ms @ new) @ more))) body) s')
      else mailbox (now s') inbox (sd_seqs sd) target ((ms @ new) @ more)" by blast
    have "later ops inv W s u" if "later ops inv W (peers k s) u" for u
      using later_trans [OF l that] .
    then show ?thesis
      using inv' more by (intro conjI exI [of _ "new @ more"]) (auto split: if_splits)
  next
    case (4 s1)
    then have "r = Inr True" "s' = s1" using Suc.prems(4) by (simp_all add: obind_step)
    moreover have "inv s1" using 4(4) by (simp add: stepped_def)
    ultimately show ?thesis using 4 l m by (intro conjI exI [of _ "[]"]) auto
  qed
qed

lemma fire_one_loop:
  assumes "appends ops inv W inbox (sd_seqs sd) target peers"
    and "decode_timer_row row = Inr (due, inbox, target, body)"
    and "inv s" "mailbox (now s) inbox (sd_seqs sd) target ms" "Suc (length ms) < 2 ^ 63"
    and "fire_one ops sch sd peers row s = (r, s')"
  shows "inv s' \<and> (\<exists>new. if r = Inr True
      then mailbox (now s') inbox (sd_seqs sd) target (ms @ new @ [body]) \<and>
        (\<exists>t. later ops inv W s t \<and> mailbox (now t) inbox (sd_seqs sd) target (ms @ new) \<and>
          0 < now t (sd_timers sd) row \<and>
          wrote t (deliver_updates sd row inbox target (word_of_nat (length (ms @ new))) body) s')
      else mailbox (now s') inbox (sd_seqs sd) target (ms @ new))"
  using fire_loop [OF assms(1-5), of 64 0 sch r s'] assms(2,6) by (simp add: fire_one_def)

lemma fire_one_gone:
  assumes "inv s" "decode_timer_row row = Inr (due, inbox, target, body)" "now s (sd_timers sd) row \<le> 0"
  shows "fire_one ops sch sd peers row s = (Inr False, s)"
proof -
  have "timer_live ops s sd row = Inr False" using assms(1,3) by (simp add: timer_live_now)
  then have "fire_attempt ops sch sd row inbox target body peer s = (Inr (Some False), s)" for peer
    by (simp add: fire_attempt_def obind_step [of "oread (\<lambda>s. timer_live ops s sd row)" s False s])
  then show ?thesis by (simp add: fire_one_def assms(2) numeral_eq_Suc obind_step)
qed

lemma fire_one_alone:
  assumes "inv s" "decode_timer_row row = Inr (due, inbox, target, body)"
    and "mailbox (now s) inbox (sd_seqs sd) target ms" "Suc (length ms) < 2 ^ 63"
    and "0 < now s (sd_timers sd) row"
    and "lawful (sch s) no_behavior_check (delivery sd row inbox target (word_of_nat (length ms)) body) (sd_authority sd)"
  obtains s' where "fire_one ops sch sd (\<lambda>_. id) row s = (Inr True, s')"
    "wrote s (deliver_updates sd row inbox target (word_of_nat (length ms)) body) s'"
    "mailbox (now s') inbox (sd_seqs sd) target (ms @ [body])"
proof -
  have l: "later ops inv W s (id s)" using assms(1) by (simp add: later_refl)
  have m: "mailbox (now (id s)) inbox (sd_seqs sd) target (ms @ [])" using assms(3) by simp
  have len: "Suc (length (ms @ [])) < 2 ^ 63" using assms(4) by simp
  show ?thesis
  proof (cases rule: fire_attempt_cases [where peer = id and sch = sch, OF assms(1,3,4,2) l m len])
    case 1
    then show ?thesis using assms(5) by simp
  next
    case (2 e)
    then show ?thesis using assms(6) by simp
  next
    case 3
    then show ?thesis using assms(5) by simp
  next
    case (4 s')
    then show ?thesis
      using that by (simp add: fire_one_def assms(2) numeral_eq_Suc obind_step id_def)
  qed
qed

end

section \<open>A tick\<close>

definition timer_due :: "i64 \<Rightarrow> tuple \<Rightarrow> bool" where
  "timer_due at t = (case decode_timer_row t of Inr (due, _) \<Rightarrow> sint due \<le> sint at | Inl _ \<Rightarrow> False)"

definition timer_target :: "tuple \<Rightarrow> entity" where
  "timer_target t = (case decode_timer_row t of Inr (_, _, p, _) \<Rightarrow> p | Inl _ \<Rightarrow> 0)"

definition timer_body :: "tuple \<Rightarrow> tuple" where
  "timer_body t = (case decode_timer_row t of Inr (_, _, _, b) \<Rightarrow> b | Inl _ \<Rightarrow> [])"

text \<open>A timer addressed to the inbox.\<close>

definition timer_for :: "rel_id \<Rightarrow> tuple \<Rightarrow> bool" where
  "timer_for inbox t = (case decode_timer_row t of Inr (_, i, _) \<Rightarrow> i = inbox | Inl _ \<Rightarrow> False)"

lemma timer_for_decode:
  assumes "timer_for inbox t"
  obtains due where "decode_timer_row t = Inr (due, inbox, timer_target t, timer_body t)"
  using assms by (auto simp: timer_for_def timer_target_def timer_body_def split: sum.splits)

lemma collect_due_Inr:
  assumes "\<And>t d. (t, d) \<in> set rows \<Longrightarrow> 0 < d \<Longrightarrow> timer_for inbox t"
  shows "collect_due at rows = Inr (filter (timer_due at) (map fst (filter (\<lambda>(t, d). 0 < d) rows)))"
  using assms
proof (induction rows)
  case (Cons x rows)
  obtain t d where x: "x = (t, d)" by (cases x)
  have IH: "collect_due at rows = Inr (filter (timer_due at) (map fst (filter (\<lambda>(t, d). 0 < d) rows)))"
    using Cons by (metis list.set_intros(2))
  show ?case
  proof (cases "0 < d")
    case True
    then have "timer_for inbox t" using Cons.prems [of t d] x by simp
    then obtain due where "decode_timer_row t = Inr (due, inbox, timer_target t, timer_body t)"
      by (rule timer_for_decode)
    moreover from this have "timer_due at t \<longleftrightarrow> sint due \<le> sint at" by (simp add: timer_due_def)
    ultimately show ?thesis using True IH x by simp
  qed (use IH x in simp)
qed simp

text \<open>What is due: the live timers not later than the tick.\<close>

definition is_due :: "(rel_id \<Rightarrow> tuple \<Rightarrow> diff) \<Rightarrow> rel_id \<Rightarrow> i64 \<Rightarrow> tuple list \<Rightarrow> bool" where
  "is_due w timers at D \<longleftrightarrow>
     sorted D \<and> distinct D \<and> (\<forall>t. t \<in> set D \<longleftrightarrow> 0 < w timers t \<and> timer_due at t)"

lemma mailbox_delivered:
  assumes "mailbox w inbox seqs p ms" "decode_timer_row row = Inr (due, inbox, target, body)" "p \<noteq> target"
    and "\<And>r t. w' r t = w r t + upd_weight (deliver_updates sd row inbox target n body) r t"
  shows "mailbox w' inbox seqs p ms"
proof (rule mailbox_cong [OF assms(1)])
  obtain i where row: "row = [VInt due, VInt i, VEnt target, VTuple body]"
    using decode_timer_row_Inr [OF assms(2)] by blast
  show "w' r t = w r t" if "get t 0 = Some (VEnt p)" for r t
    using that assms(3) by (auto simp: assms(4) deliver_updates_def inbox_row_def row get_def)
qed

lemma timer_weight_delivered:
  assumes "decode_timer_row row = Inr (due, inbox, target, body)" "timer_for inbox' t"
    and "\<And>r t. w' r t = w r t + upd_weight (deliver_updates sd row inbox target n body) r t"
  shows "w' (sd_timers sd) t = w (sd_timers sd) t - (if t = row then 1 else 0)"
proof -
  obtain d where "decode_timer_row t = Inr (d, inbox', timer_target t, timer_body t)"
    using assms(2) by (rule timer_for_decode)
  then obtain i where "t = [VInt d, VInt i, VEnt (timer_target t), VTuple (timer_body t)]"
    using decode_timer_row_Inr by blast
  then show ?thesis
    by (auto simp: assms(3) deliver_updates_def inbox_row_def)
qed

context trace_store
begin

lemma due_rows_now:
  assumes "inv s" "\<And>t. 0 < now s (sd_timers sd) t \<Longrightarrow> timer_for inbox t"
  obtains D where "due_rows ops s sd at = Inr D" "is_due (now s) (sd_timers sd) at D"
proof -
  obtain rows where rows: "ts_read_at ops s (sd_timers sd) (ts_current ops s) = Inr rows"
    "canonical rows" "\<And>t. wsum rows t = now s (sd_timers sd) t" using read_now [OF assms(1)] by blast
  have mem: "(t, d) \<in> set rows \<longleftrightarrow> d = now s (sd_timers sd) t \<and> d \<noteq> 0" for t d
    using canonical_mem [OF rows(2)] rows(3) by auto
  let ?D = "filter (timer_due at) (map fst (filter (\<lambda>(t, d). 0 < d) rows))"
  have "collect_due at rows = Inr ?D"
    by (rule collect_due_Inr [where inbox = inbox]) (use assms(2) mem in auto)
  then have "due_rows ops s sd at = Inr (sort ?D)" by (simp add: due_rows_def rows(1))
  moreover have "distinct (map fst rows)" using rows(2) by (simp add: canonical_def osorted_distinct)
  then have "distinct ?D" by (simp add: distinct_map_filter)
  then have "is_due (now s) (sd_timers sd) at (sort ?D)"
    by (auto simp: is_due_def mem image_iff)
  ultimately show ?thesis by (rule that)
qed

text \<open>
  A tick with no peers delivers every listed timer once, in the order of the list, to the
  end of its target's mailbox, and takes one copy of each away.
\<close>

lemma fire_all_alone:
  assumes "inv s" "distinct rows"
    and "\<And>t. t \<in> set rows \<Longrightarrow> timer_for inbox t \<and> timer_target t \<in> P \<and> 0 < now s (sd_timers sd) t"
    and "\<And>p. p \<in> P \<Longrightarrow> mailbox (now s) inbox (sd_seqs sd) p (ms p)"
    and "\<And>p. p \<in> P \<Longrightarrow> length (ms p) + length rows < 2 ^ 63"
    and "\<And>s t n. t \<in> set rows \<Longrightarrow>
      lawful (sch s) no_behavior_check (delivery sd t inbox (timer_target t) n (timer_body t)) (sd_authority sd)"
  shows "\<exists>s'. fire_all ops sch sd (\<lambda>_ _. id) rows n s = (Inr (n + length rows), s') \<and> inv s' \<and>
    (\<forall>p\<in>P. mailbox (now s') inbox (sd_seqs sd) p
       (ms p @ map timer_body (filter (\<lambda>t. timer_target t = p) rows))) \<and>
    (\<forall>t. timer_for inbox t \<longrightarrow> now s' (sd_timers sd) t = now s (sd_timers sd) t - (if t \<in> set rows then 1 else 0))"
  using assms
proof (induction rows arbitrary: s n ms)
  case Nil
  then show ?case by simp
next
  case (Cons row rows)
  obtain due where dec: "decode_timer_row row = Inr (due, inbox, timer_target row, timer_body row)"
    using Cons.prems(3) [of row] timer_for_decode by auto
  let ?p = "timer_target row"
  have inP: "?p \<in> P" using Cons.prems(3) [of row] by simp
  then have len: "Suc (length (ms ?p)) < 2 ^ 63" using Cons.prems(5) [of ?p] by simp
  obtain s1 where f: "fire_one ops sch sd (\<lambda>_. id) row s = (Inr True, s1)"
    and w: "wrote s (deliver_updates sd row inbox ?p (word_of_nat (length (ms ?p))) (timer_body row)) s1"
    and m: "mailbox (now s1) inbox (sd_seqs sd) ?p (ms ?p @ [timer_body row])"
    using fire_one_alone [where sch = sch, OF Cons.prems(1) dec Cons.prems(4) [OF inP] len] Cons.prems(3) [of row]
      Cons.prems(6) [of row] by auto
  have i: "inv s1" using w by (simp add: stepped_def)
  note now1 = stepped_now [OF w]
  have t1: "now s1 (sd_timers sd) t = now s (sd_timers sd) t - (if t = row then 1 else 0)" if "timer_for inbox t" for t
    by (rule timer_weight_delivered [OF dec that now1])
  let ?ms = "\<lambda>p. ms p @ (if p = ?p then [timer_body row] else [])"
  have m1: "mailbox (now s1) inbox (sd_seqs sd) p (?ms p)" if "p \<in> P" for p
    using m mailbox_delivered [OF Cons.prems(4) [OF that] dec _ now1] by auto
  have "\<exists>s'. fire_all ops sch sd (\<lambda>_ _. id) rows (n + 1) s1 = (Inr (n + 1 + length rows), s') \<and> inv s' \<and>
    (\<forall>p\<in>P. mailbox (now s') inbox (sd_seqs sd) p (?ms p @ map timer_body (filter (\<lambda>t. timer_target t = p) rows))) \<and>
    (\<forall>t. timer_for inbox t \<longrightarrow> now s' (sd_timers sd) t = now s1 (sd_timers sd) t - (if t \<in> set rows then 1 else 0))"
  proof (rule Cons.IH [OF i _ _ m1])
    show "distinct rows" using Cons.prems(2) by simp
    show "timer_for inbox t \<and> timer_target t \<in> P \<and> 0 < now s1 (sd_timers sd) t" if "t \<in> set rows" for t
      using that Cons.prems(2,3) t1 by auto
    show "length (?ms p) + length rows < 2 ^ 63" if "p \<in> P" for p using Cons.prems(5) [OF that] by auto
    show "lawful (sch s) no_behavior_check (delivery sd t inbox (timer_target t) n (timer_body t)) (sd_authority sd)"
      if "t \<in> set rows" for s t n using that Cons.prems(6) by simp
  qed
  then obtain s' where s': "fire_all ops sch sd (\<lambda>_ _. id) rows (n + 1) s1 = (Inr (n + 1 + length rows), s')" "inv s'"
    "\<And>p. p \<in> P \<Longrightarrow> mailbox (now s') inbox (sd_seqs sd) p (?ms p @ map timer_body (filter (\<lambda>t. timer_target t = p) rows))"
    "\<And>t. timer_for inbox t \<Longrightarrow> now s' (sd_timers sd) t = now s1 (sd_timers sd) t - (if t \<in> set rows then 1 else 0)"
    by blast
  have "mailbox (now s') inbox (sd_seqs sd) p
      (ms p @ map timer_body (filter (\<lambda>t. timer_target t = p) (row # rows)))" if "p \<in> P" for p
    using s'(3) [OF that] by (auto split: if_splits)
  moreover have "now s' (sd_timers sd) t = now s (sd_timers sd) t - (if t \<in> set (row # rows) then 1 else 0)"
    if "timer_for inbox t" for t using s'(4) [OF that] t1 [OF that] Cons.prems(2) by auto
  moreover have "fire_all ops sch sd (\<lambda>_ _. id) (row # rows) n s = (Inr (n + length (row # rows)), s')"
    using f s'(1) by (simp add: obind_step)
  ultimately show ?case using s'(2) by blast
qed

lemma fire_due_alone:
  assumes "inv s" "\<And>t. 0 < now s (sd_timers sd) t \<Longrightarrow> timer_for inbox t"
    and "is_due (now s) (sd_timers sd) at D" "timer_target ` set D \<subseteq> P"
    and "\<And>p. p \<in> P \<Longrightarrow> mailbox (now s) inbox (sd_seqs sd) p (ms p)"
    and "\<And>p. p \<in> P \<Longrightarrow> length (ms p) + length D < 2 ^ 63"
    and "\<And>s t n. t \<in> set D \<Longrightarrow>
      lawful (sch s) no_behavior_check (delivery sd t inbox (timer_target t) n (timer_body t)) (sd_authority sd)"
  shows "\<exists>s'. fire_due ops sch sd (\<lambda>_ _. id) at s = (Inr (length D), s') \<and> inv s' \<and>
    (\<forall>p\<in>P. mailbox (now s') inbox (sd_seqs sd) p (ms p @ map timer_body (filter (\<lambda>t. timer_target t = p) D))) \<and>
    (\<forall>t. timer_for inbox t \<longrightarrow> now s' (sd_timers sd) t = now s (sd_timers sd) t - (if t \<in> set D then 1 else 0))"
proof -
  obtain D' where D': "due_rows ops s sd at = Inr D'" "is_due (now s) (sd_timers sd) at D'"
    using due_rows_now [where at = at, OF assms(1,2)] by blast
  have "D' = D" using D'(2) assms(3) by (auto simp: is_due_def intro!: sorted_distinct_set_unique)
  then have "fire_due ops sch sd (\<lambda>_ _. id) at s = fire_all ops sch sd (\<lambda>_ _. id) D 0 s"
    using D'(1) by (simp add: fire_due_def obind_step [of "oread (\<lambda>s. due_rows ops s sd at)" s D' s])
  moreover have "distinct D" "\<And>t. t \<in> set D \<Longrightarrow> timer_for inbox t \<and> timer_target t \<in> P \<and> 0 < now s (sd_timers sd) t"
    using assms(2,3,4) by (auto simp: is_due_def)
  ultimately show ?thesis
    using fire_all_alone [where n = 0, OF assms(1) _ _ assms(5,6,7)] by simp
qed

end

section \<open>The clock as a history\<close>

definition tick_row :: "i64 \<times> i64 \<times> i64 \<Rightarrow> tuple" where
  "tick_row = (\<lambda>(seq, ms, r). [VInt seq, VInt ms, VInt r])"

text \<open>The clock relation holds exactly the samples taken so far, numbered from 0.\<close>

definition clock_history :: "(rel_id \<Rightarrow> tuple \<Rightarrow> diff) \<Rightarrow> rel_id \<Rightarrow> (i64 \<times> i64) list \<Rightarrow> bool" where
  "clock_history w clock hs \<longleftrightarrow>
     (\<forall>seq x. w clock (tick_row (seq, x)) = (if unat seq < length hs \<and> hs ! unat seq = x then 1 else 0))"

lemma clock_historyD:
  "clock_history w clock hs \<Longrightarrow>
     w clock (tick_row (seq, x)) = (if unat seq < length hs \<and> hs ! unat seq = x then 1 else 0)"
  unfolding clock_history_def by blast

text \<open>The fold keeps the sample with the greatest number.\<close>

definition later_tick :: "i64 \<times> i64 \<times> i64 \<Rightarrow> i64 \<times> i64 \<times> i64 \<Rightarrow> i64 \<times> i64 \<times> i64" where
  "later_tick x y = (if sint (fst y) > sint (fst x) then y else x)"

definition tick_of :: "tuple \<times> diff \<Rightarrow> (i64 \<times> i64 \<times> i64) option" where
  "tick_of = (\<lambda>(t, d). if 0 < d then
     (case t of [VInt seq, VInt ms, VInt r] \<Rightarrow> Some (seq, ms, r) | _ \<Rightarrow> None) else None)"

definition ticks_of :: "rows \<Rightarrow> (i64 \<times> i64 \<times> i64) list" where
  "ticks_of = List.map_filter tick_of"

lemma ticks_of_simps [simp]:
  "ticks_of [] = []"
  "ticks_of (p # rows) = (case tick_of p of None \<Rightarrow> ticks_of rows | Some y \<Rightarrow> y # ticks_of rows)"
  by (simp_all add: ticks_of_def map_filter_simps split: option.split)

lemma tick_of_Some: "tick_of p = Some y \<longleftrightarrow> 0 < snd p \<and> fst p = tick_row y"
  by (cases p; cases y) (auto simp: tick_of_def tick_row_def split: list.splits val.splits)

lemma set_ticks_of: "y \<in> set (ticks_of rows) \<longleftrightarrow> (\<exists>d>0. (tick_row y, d) \<in> set rows)"
proof -
  have "y \<in> set (ticks_of rows) \<longleftrightarrow> (\<exists>p\<in>set rows. tick_of p = Some y)"
    by (induction rows) (auto split: option.split)
  then show ?thesis by (auto simp: tick_of_Some intro: bexI [of _ "(tick_row y, _)"])
qed

lemma clock_cell_tick:
  "clock_cell best p = (case tick_of p of
     None \<Rightarrow> best
   | Some y \<Rightarrow> (case best of None \<Rightarrow> Some y | Some x \<Rightarrow> Some (later_tick x y)))"
proof (cases p)
  case (Pair t d)
  show ?thesis
  proof (cases "tick_of p")
    case None
    then show ?thesis by (auto simp: Pair clock_cell_def tick_of_def split: list.splits val.splits if_splits)
  next
    case (Some y)
    then have "0 < d" "t = tick_row y" using Pair by (auto simp: tick_of_Some)
    then show ?thesis
      by (cases y; cases best) (auto simp: Pair clock_cell_def tick_of_def tick_row_def later_tick_def)
  qed
qed

lemma clock_cell_ticks:
  "foldl clock_cell (Some x) rows = Some (foldl later_tick x (ticks_of rows))"
  by (induction rows arbitrary: x) (auto simp: clock_cell_tick split: option.split)

lemma clock_cell_none:
  "foldl clock_cell None rows =
     (case ticks_of rows of [] \<Rightarrow> None | x # xs \<Rightarrow> Some (foldl later_tick x xs))"
proof (induction rows)
  case (Cons p rows)
  then show ?case
    by (cases "tick_of p") (simp_all add: clock_cell_tick [of None] clock_cell_ticks)
qed simp

lemma later_tick_greatest:
  "foldl later_tick x zs \<in> set (x # zs) \<and> (\<forall>y\<in>set (x # zs). sint (fst y) \<le> sint (fst (foldl later_tick x zs)))"
proof (induction zs arbitrary: x)
  case (Cons z zs)
  from Cons.IH [of "later_tick x z"] show ?case by (auto simp: later_tick_def split: if_splits)
qed simp

lemma clock_fold_Some:
  assumes "foldl clock_cell None rows = Some z"
  shows "z \<in> set (ticks_of rows)" "\<And>y. y \<in> set (ticks_of rows) \<Longrightarrow> sint (fst y) \<le> sint (fst z)"
proof -
  obtain x xs where "ticks_of rows = x # xs" "z = foldl later_tick x xs"
    using assms by (auto simp: clock_cell_none split: list.splits)
  then show "z \<in> set (ticks_of rows)" "\<And>y. y \<in> set (ticks_of rows) \<Longrightarrow> sint (fst y) \<le> sint (fst z)"
    using later_tick_greatest [of x xs] by auto
qed

lemma clock_fold_None: "foldl clock_cell None rows = None \<longleftrightarrow> ticks_of rows = []"
  by (simp add: clock_cell_none split: list.split)

lemma clock_history_append:
  assumes "clock_history w clock hs" "Suc (length hs) < 2 ^ 63"
    and "\<And>t. w' clock t = w clock t + (if t = tick_row (word_of_nat (length hs), x) then 1 else 0)"
  shows "clock_history w' clock (hs @ [x])"
  unfolding clock_history_def
proof (intro allI)
  fix seq y
  have u: "unat (word_of_nat (length hs) :: i64) = length hs" using assms(2) by (simp add: unat_of_nat)
  have inj: "tick_row (seq, y) = tick_row (word_of_nat (length hs), x) \<longleftrightarrow> unat seq = length hs \<and> y = x"
    using u by (auto simp: tick_row_def word_unat_eq_iff split: prod.splits)
  show "w' clock (tick_row (seq, y)) = (if unat seq < length (hs @ [x]) \<and> (hs @ [x]) ! unat seq = y then 1 else 0)"
    unfolding assms(3) inj clock_historyD [OF assms(1)]
    by (auto simp: nth_append less_Suc_eq)
qed

context trace_store
begin

lemma clock_latest_now:
  assumes "inv s" "clock_history (now s) (ck_clock ck) hs" "length hs < 2 ^ 63"
  shows "clock_latest ops s ck =
    Inr (if hs = [] then None else Some (word_of_nat (length hs - 1), last hs))"
proof -
  obtain rows where rows: "ts_read_at ops s (ck_clock ck) (ts_current ops s) = Inr rows"
    "canonical rows" "\<And>t. wsum rows t = now s (ck_clock ck) t" using read_now [OF assms(1)] by blast
  have mem: "(t, d) \<in> set rows \<longleftrightarrow> d = now s (ck_clock ck) t \<and> d \<noteq> 0" for t d
    using canonical_mem [OF rows(2)] rows(3) by auto
  have pos: "(seq, x) \<in> set (ticks_of rows) \<longleftrightarrow> unat seq < length hs \<and> hs ! unat seq = x" for seq x
    by (simp add: set_ticks_of mem clock_historyD [OF assms(2)])
  have lat: "clock_latest ops s ck = Inr (foldl clock_cell None rows)" by (simp add: clock_latest_def rows(1))
  have nat_of: "unat (word_of_nat k :: i64) = k" "sint (word_of_nat k :: i64) = int k" if "k < 2 ^ 63" for k
    using that signed_take_bit_int_eq_self [of 63 "int k"] by (simp_all add: unat_of_nat signed_of_nat)
  show ?thesis
  proof (cases "foldl clock_cell None rows")
    case None
    then have "ticks_of rows = []" by (simp add: clock_fold_None)
    then have "hs = []" using pos [of 0 "hs ! 0"] by (cases hs) auto
    then show ?thesis using lat None by simp
  next
    case (Some z)
    obtain seq x where z: "z = (seq, x)" by (cases z)
    have zin: "unat seq < length hs" "hs ! unat seq = x"
      using clock_fold_Some(1) [OF Some] pos [of seq x] z by auto
    let ?l = "length hs - 1"
    have l: "?l < length hs" "?l < 2 ^ 63" using zin assms(3) by auto
    have "(word_of_nat ?l, hs ! ?l) \<in> set (ticks_of rows)"
      using pos [of "word_of_nat ?l" "hs ! ?l"] l nat_of [OF l(2)] by auto
    from clock_fold_Some(2) [OF Some this] have le: "int ?l \<le> sint seq" using nat_of [OF l(2)] z by simp
    have "seq = word_of_nat (unat seq)" by simp
    moreover have "sint (word_of_nat (unat seq) :: i64) = int (unat seq)"
      using zin assms(3) by (intro nat_of) simp
    ultimately have "int ?l \<le> int (unat seq)" using le by (simp del: int_nat_eq)
    then have "unat seq = ?l" using zin by (simp only: of_nat_le_iff)
    then have "seq = word_of_nat ?l" using \<open>seq = word_of_nat (unat seq)\<close> by simp
    then show ?thesis
      using lat Some z zin \<open>unat seq = ?l\<close> by (auto simp: last_conv_nth)
  qed
qed

text \<open>One driver's sample: refused when it regresses, otherwise appended to the history.\<close>

lemma clock_sample_cases:
  assumes "inv s" "clock_history (now s) (ck_clock ck) hs" "Suc (length hs) < 2 ^ 63"
  obtains (regressed) "hs \<noteq> []" "sint ms < sint (fst (last hs))"
      "clock_sample ops sch ck ms r s = (Inl (Err (EStore ''clock sample regressed'')), s)"
    | (refused) e where "clock_sample ops sch ck ms r s = (Inl e, s)"
      "\<not> lawful (sch s) no_behavior_check
        (patch_assert (fact_new (ck_clock ck) (tick_row (word_of_nat (length hs), ms, r))) patch_new) (ck_authority ck)"
    | (sampled) s' where "hs \<noteq> [] \<Longrightarrow> sint (fst (last hs)) \<le> sint ms"
      "clock_sample ops sch ck ms r s = (Inr (word_of_nat (length hs), ms, r), s')"
      "inv s'" "clock_history (now s') (ck_clock ck) (hs @ [(ms, r)])"
proof -
  let ?latest = "if hs = [] then None else Some (word_of_nat (length hs - 1) :: i64, last hs)"
  let ?p = "patch_assert (fact_new (ck_clock ck) (tick_row (word_of_nat (length hs), ms, r))) patch_new"
  have latest: "clock_latest ops s ck = Inr ?latest"
    using clock_latest_now [OF assms(1,2)] assms(3) by simp
  have succ: "(case ?latest of Some (s, _) \<Rightarrow> s + 1 | None \<Rightarrow> 0) = (word_of_nat (length hs) :: i64)"
    by (cases hs) (auto simp: add.commute)
  have reg: "(case ?latest of Some (_, previous, _) \<Rightarrow> sint ms < sint previous | None \<Rightarrow> False) \<longleftrightarrow>
      hs \<noteq> [] \<and> sint ms < sint (fst (last hs))" by (auto simp: case_prod_unfold)
  have run: "clock_sample ops sch ck ms r s =
      (if hs \<noteq> [] \<and> sint ms < sint (fst (last hs)) then (Inl (Err (EStore ''clock sample regressed'')), s)
       else obind (commit_patch_checked ops sch no_behavior_check ?p (ck_authority ck)) (\<lambda>out. case out of
              Committed _ \<Rightarrow> oret (word_of_nat (length hs), ms, r)
            | Rejected \<Rightarrow> ofail (Err (EStore ''clock sample rejected''))) s)"
    by (simp add: clock_sample_def obind_step [of "oread (\<lambda>s. clock_latest ops s ck)" s ?latest s] latest
        succ reg Let_def commit_patch_def tick_row_def)
  show ?thesis
  proof (cases "hs \<noteq> [] \<and> sint ms < sint (fst (last hs))")
    case True
    then show ?thesis using regressed run by simp
  next
    case False
    show ?thesis
    proof (cases rule: commit_patch_cases [OF assms(1), of sch no_behavior_check ?p "ck_authority ck"])
      case (1 e)
      then show ?thesis using refused run False by (simp add: obind_apply)
    next
      case 2
      then show ?thesis by (simp add: patch_builders patch_preconditions_def holds_all_def)
    next
      case (3 s')
      have w: "wrote s [(ck_clock ck, tick_row (word_of_nat (length hs), ms, r), 1)] s'"
        using 3(4) by (simp add: patch_builders patch_updates_def timer_facts_def cursor_updates_def)
      show ?thesis
      proof (rule sampled)
        show "hs \<noteq> [] \<Longrightarrow> sint (fst (last hs)) \<le> sint ms" using False by simp
        show "clock_sample ops sch ck ms r s = (Inr (word_of_nat (length hs), ms, r), s')"
          using run False 3(3) by (simp add: obind_apply)
        show "inv s'" using w by (simp add: stepped_def)
        show "clock_history (now s') (ck_clock ck) (hs @ [(ms, r)])"
          by (rule clock_history_append [OF assms(2,3)]) (simp add: stepped_now [OF w])
      qed
    qed
  qed
qed

end

end
