(* ===== verification/Frontier.thy ===== *)
theory Frontier
  imports Process
begin

text \<open>
  Durable cursors over a view, shared by the watch pump (\<^verbatim>\<open>grmpl-proc/src/watch.rs\<close>) and
  the materialized view (\<^verbatim>\<open>grmpl-proc/src/derived.rs\<close>): a row \<open>(key, edition)\<close> is the
  frontier already handled, and what is due is the delta of the view from there to now,
  unless routing proves that nothing the view reads was touched.
\<close>

section \<open>The cursor row\<close>

definition frontier_tuple :: "entity \<Rightarrow> edition \<Rightarrow> tuple" where
  "frontier_tuple key e = [VEnt key, VInt (word_of_nat e)]"

definition frontier_cell :: "entity \<Rightarrow> tuple \<times> diff \<Rightarrow> edition option" where
  "frontier_cell key = (\<lambda>(t, d).
     if d > 0 \<and> get t 0 = Some (VEnt key)
     then (case get t 1 of Some (VInt e) \<Rightarrow> Some (nat (sint e)) | _ \<Rightarrow> None) else None)"

definition frontier :: "'s trace_ops \<Rightarrow> 's \<Rightarrow> rel_id \<Rightarrow> entity \<Rightarrow> edition option result" where
  "frontier ops s rel key =
     rbind (ts_read_at ops s rel (ts_current ops s)) (\<lambda>rows. Inr (first_some (frontier_cell key) rows))"

section \<open>What is due\<close>

definition view_quiet :: "'s trace_ops \<Rightarrow> query \<Rightarrow> edition \<Rightarrow> edition \<Rightarrow> ('s, bool) op" where
  "view_quiet ops q from to = (case key_span q of
     Some (rel, lo, hi) \<Rightarrow> obind (ts_touched_range_since ops from to rel lo hi) (\<lambda>b. oret (\<not> b))
   | None \<Rightarrow> oread (\<lambda>s. rbind (ts_touched_since ops s from to (base_relations q)) (\<lambda>b. Inr (\<not> b))))"

definition due_delta ::
  "nat \<Rightarrow> 's trace_ops \<Rightarrow> rel_id \<Rightarrow> entity \<Rightarrow> query \<Rightarrow> ('s, (edition \<times> edition \<times> rows) option) op" where
  "due_delta fuel ops rel key q =
     obind (oread (\<lambda>s. frontier ops s rel key)) (\<lambda>c. case c of
       None \<Rightarrow> oret None
     | Some from \<Rightarrow>
         obind (oread (\<lambda>s. Inr (ts_current ops s))) (\<lambda>to.
           if to \<le> from then oret None
           else obind (view_quiet ops q from to) (\<lambda>quiet.
             if quiet then oret None
             else obind (oread (\<lambda>s. eval_delta fuel q ops s from to)) (\<lambda>delta.
               oret (Some (from, to, to_sorted_vec delta))))))"

section \<open>Where a frontier stands\<close>

text \<open>The one live row of the key, of weight one.\<close>

definition frontier_stands :: "(rel_id \<Rightarrow> tuple \<Rightarrow> diff) \<Rightarrow> rel_id \<Rightarrow> entity \<Rightarrow> edition \<Rightarrow> bool" where
  "frontier_stands w rel key e \<longleftrightarrow> e < 2 ^ 63 \<and>
     (\<forall>t. get t 0 = Some (VEnt key) \<longrightarrow> w rel t = (if t = frontier_tuple key e then 1 else 0))"

lemma get_frontier_tuple [simp]:
  "get (frontier_tuple key e) 0 = Some (VEnt key)"
  "get (frontier_tuple key e) (Suc 0) = Some (VInt (word_of_nat e))"
  by (simp_all add: frontier_tuple_def get_def)

lemma sint_edition: "e < 2 ^ 63 \<Longrightarrow> sint (word_of_nat e :: i64) = int e"
  by (simp add: signed_of_nat signed_take_bit_int_eq_self)

lemma frontier_tuple_inject:
  "e < 2 ^ 63 \<Longrightarrow> e' < 2 ^ 63 \<Longrightarrow> frontier_tuple key e = frontier_tuple key e' \<longleftrightarrow> e = e'"
  using sint_edition by (auto simp: frontier_tuple_def) (metis of_nat_eq_iff)

lemma frontier_weight: "frontier_stands w rel key e \<Longrightarrow> e' < 2 ^ 63 \<Longrightarrow>
  0 < w rel (frontier_tuple key e') \<longleftrightarrow> e' = e"
  by (auto simp: frontier_stands_def frontier_tuple_inject)

lemma first_frontier:
  assumes "canonical rows" "\<And>t. wsum rows t = w rel t" "frontier_stands w rel key e"
  shows "first_some (frontier_cell key) rows = Some e"
proof -
  have mem: "(t, d) \<in> set rows \<longleftrightarrow> d \<noteq> 0 \<and> w rel t = d" for t d
    using canonical_mem [OF assms(1)] assms(2) by auto
  have e: "nat (sint (word_of_nat e :: i64)) = e"
    using assms(3) sint_edition [of e] by (simp add: frontier_stands_def)
  show ?thesis
  proof (rule first_some_unique)
    show "(frontier_tuple key e, 1) \<in> set rows" using assms(3) by (simp add: mem frontier_stands_def)
    show "frontier_cell key (frontier_tuple key e, 1) = Some e" by (simp add: frontier_cell_def e)
    fix x z
    assume x: "x \<in> set rows" "frontier_cell key x = Some z"
    obtain t d where td: "x = (t, d)" by (cases x)
    have "0 < d" "get t 0 = Some (VEnt key)" using x(2) by (auto simp: td frontier_cell_def split: if_splits)
    then have "t = frontier_tuple key e"
      using x(1) assms(3) by (auto simp: td mem frontier_stands_def split: if_splits)
    then show "z = e" using x(2) by (auto simp: td frontier_cell_def e split: if_splits)
  qed
qed

text \<open>Taking one row away and putting another moves the frontier.\<close>

lemma frontier_moves:
  assumes "frontier_stands w rel key from" "to < 2 ^ 63" "from \<noteq> to"
    and "\<And>t. get t 0 = Some (VEnt key) \<Longrightarrow> w' rel t = w rel t
      + (if t = frontier_tuple key to then 1 else 0) - (if t = frontier_tuple key from then 1 else 0)"
  shows "frontier_stands w' rel key to"
  using assms by (auto simp: frontier_stands_def frontier_tuple_inject)

text \<open>A view reads one relation through one span exactly when it has a key span.\<close>

lemma key_span_value:
  assumes "key_span q = Some (r, lo, hi)"
    and "filter_rows (in_range lo hi) (D r) = filter_rows (in_range lo hi) (D' r)"
  shows "query_value fuel q D recur None = query_value fuel q D' recur None"
  using assms by (induction q) (auto simp: overriding_def overridden_def)

lemma is_delta_empty: "canonical a \<Longrightarrow> canonical b \<Longrightarrow> is_delta [] a b \<Longrightarrow> a = b"
  by (rule canonical_ext) (simp_all add: is_delta_def)

context trace_store
begin

lemma frontier_now:
  assumes "inv s" "frontier_stands (now s) rel key e"
  shows "frontier ops s rel key = Inr (Some e)"
proof -
  obtain rows where rows: "ts_read_at ops s rel (ts_current ops s) = Inr rows"
    "canonical rows" "\<And>t. wsum rows t = now s rel t" using read_now [OF assms(1)] by blast
  show ?thesis using first_frontier [OF rows(2,3) assms(2)] by (simp add: frontier_def rows(1))
qed

text \<open>Routing never loses a delta: what it calls quiet did not change the view.\<close>

lemma span_contents:
  assumes "inv s" "ts_watermark ops s \<le> from" "ts_watermark ops s \<le> to"
    and "\<And>t. in_range lo hi t \<Longrightarrow> W s r to t = W s r from t"
  shows "filter_rows (in_range lo hi) (contents ops s to r) = filter_rows (in_range lo hi) (contents ops s from r)"
  by (rule canonical_ext)
    (use assms in \<open>auto simp: wsum_filter_rows contents_ok intro!: canonical_filter_rows\<close>)

lemma view_quiet_ok:
  assumes "inv s" "ts_watermark ops s \<le> from" "from \<le> to"
  shows "\<exists>b s'. view_quiet ops q from to s = (Inr b, s') \<and> inv s' \<and>
    ts_current ops s' = ts_current ops s \<and> ts_watermark ops s' = ts_watermark ops s \<and> W s' = W s \<and>
    (b \<longrightarrow> query_value fuel q (contents ops s to) None None = query_value fuel q (contents ops s from) None None)"
proof (cases "key_span q")
  case None
  obtain b where b: "ts_touched_since ops s from to (base_relations q) = Inr b"
    "\<not> b \<and> from \<le> to \<longrightarrow> (\<forall>r\<in>set (base_relations q). \<forall>t. W s r to t = W s r from t)"
    using touched_since [OF assms(1)] by blast
  have "query_value fuel q (contents ops s to) None None = query_value fuel q (contents ops s from) None None"
    if "\<not> b"
  proof (rule query_value_cong)
    fix r assume "r \<in> collect_base_relations q"
    then show "contents ops s to r = contents ops s from r"
      using b(2) that assms by (intro contents_eqI) auto
  qed
  then show ?thesis using b(1) None assms(1) by (simp add: view_quiet_def oread_def)
next
  case (Some k)
  obtain r lo hi where k: "k = (r, lo, hi)" by (cases k)
  obtain b s' where b: "ts_touched_range_since ops from to r lo hi s = (Inr b, s')" "inv s'"
    "ts_current ops s' = ts_current ops s" "ts_watermark ops s' = ts_watermark ops s" "W s' = W s"
    "\<not> b \<and> from \<le> to \<longrightarrow> (\<forall>t. in_range lo hi t \<longrightarrow> W s r to t = W s r from t)"
    using touched_range_since [OF assms(1)] by blast
  have "query_value fuel q (contents ops s to) None None = query_value fuel q (contents ops s from) None None"
    if "\<not> b"
    by (rule key_span_value, rule Some [unfolded k], rule span_contents)
      (use assms b(6) that in auto)
  then show ?thesis using b Some k by (simp add: view_quiet_def obind_step)
qed

lemma contents_same:
  assumes "inv s" "inv s'" "W s' = W s" "ts_watermark ops s' = ts_watermark ops s" "ts_watermark ops s \<le> e"
  shows "contents ops s' e = contents ops s e"
  by (rule ext, rule canonical_ext) (simp_all add: contents_ok assms)

lemma answered_same:
  assumes "inv s" "inv s'" "W s' = W s" "ts_watermark ops s' = ts_watermark ops s" "ts_watermark ops s \<le> e"
  shows "answered fuel ops W env q s' e v \<longleftrightarrow> answered fuel ops W env q s e v"
  by (simp only: answered_def contents_same [OF assms] assms(3))

text \<open>
  What a pump or a refresh finds due: nothing, and then the view has not changed since the
  frontier; or exactly the change of the view from the frontier to now.
\<close>

lemma due_delta_ok:
  assumes "inv s" "frontier_stands (now s) rel key e" "ts_watermark ops s \<le> e" "e \<le> ts_current ops s"
    and "followable fuel ops W env q s"
  obtains (nothing) s1 a where "due_delta fuel ops rel key q s = (Inr None, s1)"
      "inv s1" "ts_current ops s1 = ts_current ops s" "ts_watermark ops s1 = ts_watermark ops s" "W s1 = W s"
      "answered fuel ops W env q s e a" "answered fuel ops W env q s (ts_current ops s) a"
    | (due) s1 rows a b where "due_delta fuel ops rel key q s = (Inr (Some (e, ts_current ops s, rows)), s1)"
      "inv s1" "ts_current ops s1 = ts_current ops s" "ts_watermark ops s1 = ts_watermark ops s" "W s1 = W s"
      "e < ts_current ops s" "is_delta rows a b"
      "answered fuel ops W env q s e a" "answered fuel ops W env q s (ts_current ops s) b"
proof -
  let ?to = "ts_current ops s"
  obtain a b where a: "answered fuel ops W env q s e a" and b: "answered fuel ops W env q s ?to b"
    using assms(3,4) assms(5) [unfolded followable_def, rule_format, of e]
      assms(5) [unfolded followable_def, rule_format, of ?to] by auto
  have f: "frontier ops s rel key = Inr (Some e)" by (rule frontier_now [OF assms(1,2)])
  show ?thesis
  proof (cases "?to \<le> e")
    case True
    then have "e = ?to" using assms(4) by simp
    have "due_delta fuel ops rel key q s = (Inr None, s)"
      using True by (simp add: due_delta_def obind_apply f)
    then show ?thesis
      by (rule nothing) (use a \<open>e = ?to\<close> assms(1) in simp_all)
  next
    case False
    obtain quiet s1 where qs: "view_quiet ops q e ?to s = (Inr quiet, s1)" "inv s1"
      "ts_current ops s1 = ?to" "ts_watermark ops s1 = ts_watermark ops s" "W s1 = W s"
      "quiet \<longrightarrow> query_value fuel q (contents ops s ?to) None None = query_value fuel q (contents ops s e) None None"
      using view_quiet_ok [OF assms(1,3,4)] by blast
    show ?thesis
    proof (cases quiet)
      case True
      then have "a = b" using a b qs(6) by (simp add: answered_def)
      have "due_delta fuel ops rel key q s = (Inr None, s1)"
        using qs True \<open>\<not> ?to \<le> e\<close> by (simp add: due_delta_def obind_apply f)
      then show ?thesis
        by (rule nothing) (use a b qs \<open>a = b\<close> in simp_all)
    next
      case False
      have to: "ts_watermark ops s \<le> ?to" using assms(3,4) by simp
      have "answered fuel ops W env q s1 e a" "answered fuel ops W env q s1 ?to b"
        using a b answered_same [OF assms(1) qs(2,5,4)] assms(3) to by simp_all
      then obtain d where d: "eval_delta fuel q ops s1 e ?to = Inr d" "is_delta d a b"
        using answered_delta [OF qs(2), of e ?to fuel env q a b] qs(4) assms(3,4) by auto
      have "due_delta fuel ops rel key q s = (Inr (Some (e, ?to, d)), s1)"
        using qs False \<open>\<not> ?to \<le> e\<close> d
        by (simp add: due_delta_def obind_apply f is_delta_def to_sorted_vec_canonical)
      then show ?thesis
        by (rule due) (use qs d(2) a b \<open>\<not> ?to \<le> e\<close> in simp_all)
    qed
  qed
qed

end

end
