(* ===== verification/On_Watch.thy ===== *)
theory On_Watch
  imports Frontier Schedule
begin

text \<open>
  Reactive handlers (\<^verbatim>\<open>grmpl-proc/src/watch.rs\<close>): a pump moves the delta of a view since
  its durable cursor into an inbox, as one message per row, and advances the cursor, all in
  one commit guarded by the cursor row and the inbox's counter.
\<close>

section \<open>The handler\<close>

record on_watch =
  ow_view :: query
  ow_watch :: entity
  ow_target :: entity
  ow_inbox :: rel_id
  ow_cursor_rel :: rel_id
  ow_seqs :: rel_id
  ow_authority :: authority

definition activation_body :: "diff \<Rightarrow> tuple \<Rightarrow> tuple" where
  "activation_body diff row = [VInt (word_of_int diff), VTuple row]"

definition decode_activation :: "tuple \<Rightarrow> (diff \<times> tuple) option" where
  "decode_activation body = (case body of
     [VInt diff, VTuple row] \<Rightarrow> Some (sint diff, row)
   | _ \<Rightarrow> None)"

definition watch_seq_key :: "on_watch \<Rightarrow> val list" where
  "watch_seq_key ow = [VInt (ucast (ow_inbox ow)), VEnt (ow_target ow)]"

definition watch_cursor :: "'s trace_ops \<Rightarrow> 's \<Rightarrow> on_watch \<Rightarrow> edition option result" where
  "watch_cursor ops s ow = frontier ops s (ow_cursor_rel ow) (ow_watch ow)"

section \<open>Installing\<close>

definition install_from ::
  "'s trace_ops \<Rightarrow> ('s \<Rightarrow> schemas) \<Rightarrow> on_watch \<Rightarrow> edition \<Rightarrow> ('s, commit_outcome) op" where
  "install_from ops sch ow from =
     obind (oread (\<lambda>s. seq_read ops s (ow_seqs ow) (watch_seq_key ow))) (\<lambda>a.
       let patch = patch_assert (fact_new (ow_cursor_rel ow) (frontier_tuple (ow_watch ow) from)) patch_new
       in commit_patch ops sch (seq_seed a patch) (ow_authority ow))"

definition install :: "'s trace_ops \<Rightarrow> ('s \<Rightarrow> schemas) \<Rightarrow> on_watch \<Rightarrow> ('s, commit_outcome) op" where
  "install ops sch ow = (\<lambda>s. install_from ops sch ow (ts_current ops s) s)"

definition install_including_current ::
  "'s trace_ops \<Rightarrow> ('s \<Rightarrow> schemas) \<Rightarrow> on_watch \<Rightarrow> ('s, commit_outcome) op" where
  "install_including_current ops sch ow = install_from ops sch ow edition_zero"

section \<open>Pumping\<close>

fun deliver_rows :: "on_watch \<Rightarrow> rows \<Rightarrow> seq_alloc \<Rightarrow> patch \<Rightarrow> seq_alloc \<times> patch" where
  "deliver_rows ow [] a p = (a, p)"
| "deliver_rows ow ((row, diff) # rows) a p =
     (case seq_fresh a of (seq, a) \<Rightarrow>
       deliver_rows ow rows a
         (patch_assert (inbox_fact (ow_inbox ow) (ow_target ow) seq (activation_body diff row)) p))"

text \<open>The guard and the move of the cursor over \<open>[from, to)\<close>.\<close>

definition frontier_patch :: "rel_id \<Rightarrow> entity \<Rightarrow> edition \<Rightarrow> edition \<Rightarrow> patch" where
  "frontier_patch rel key from to =
     patch_advance_cursor \<lparr>cm_rel = rel, cm_retract = Some (frontier_tuple key from),
         cm_assert = frontier_tuple key to\<rparr>
       (patch_expect (fact_new rel (frontier_tuple key from)) patch_new)"

definition pump_patch :: "on_watch \<Rightarrow> edition \<Rightarrow> edition \<Rightarrow> rows \<Rightarrow> seq_alloc \<Rightarrow> patch" where
  "pump_patch ow from to rows a =
     (case deliver_rows ow rows a (frontier_patch (ow_cursor_rel ow) (ow_watch ow) from to) of
        (a, patch) \<Rightarrow> seq_seal a patch)"

definition pump_attempt ::
  "nat \<Rightarrow> 's trace_ops \<Rightarrow> ('s \<Rightarrow> schemas) \<Rightarrow> on_watch \<Rightarrow> ('s \<Rightarrow> 's) \<Rightarrow> ('s, nat option) op" where
  "pump_attempt fuel ops sch ow peer =
     obind (due_delta fuel ops (ow_cursor_rel ow) (ow_watch ow) (ow_view ow)) (\<lambda>due. case due of
       None \<Rightarrow> oret (Some 0)
     | Some (from, to, rows) \<Rightarrow>
         if rows = [] then oret (Some 0)
         else
           obind (oread (\<lambda>s. seq_read ops s (ow_seqs ow) (watch_seq_key ow))) (\<lambda>a.
           obind (opause peer) (\<lambda>_.
           obind (commit_patch ops sch (pump_patch ow from to rows a) (ow_authority ow)) (\<lambda>out.
             oret (case out of Committed _ \<Rightarrow> Some (length rows) | Rejected \<Rightarrow> None)))))"

definition pump ::
  "nat \<Rightarrow> 's trace_ops \<Rightarrow> ('s \<Rightarrow> schemas) \<Rightarrow> on_watch \<Rightarrow> 's peers \<Rightarrow> ('s, nat) op" where
  "pump fuel ops sch ow peers =
     retry_loop 256 0 (\<lambda>k. pump_attempt fuel ops sch ow (peers k)) (oret 0)"

section \<open>What a delivery writes\<close>

definition activations :: "rows \<Rightarrow> tuple list" where
  "activations rows = map (\<lambda>(row, diff). activation_body diff row) rows"

lemma decode_activation_body:
  "- (2 ^ 63) \<le> d \<Longrightarrow> d < 2 ^ 63 \<Longrightarrow> decode_activation (activation_body d row) = Some (d, row)"
  by (simp add: decode_activation_def activation_body_def signed_of_int signed_take_bit_int_eq_self)

text \<open>The inbox of a watch numbers its messages by a counter under the watch's own key.\<close>

definition watched_inbox :: "(rel_id \<Rightarrow> tuple \<Rightarrow> diff) \<Rightarrow> on_watch \<Rightarrow> tuple list \<Rightarrow> bool" where
  "watched_inbox w ow ms \<longleftrightarrow> holds_messages w (ow_inbox ow) (ow_target ow) ms \<and>
     counter w (ow_seqs ow) (watch_seq_key ow) (word_of_nat (length ms))"

text \<open>The allocator a pump reads when \<open>n\<close> messages stand in the inbox.\<close>

definition watch_alloc :: "on_watch \<Rightarrow> nat \<Rightarrow> seq_alloc" where
  "watch_alloc ow n = \<lparr>sq_rel = ow_seqs ow, sq_key = watch_seq_key ow, sq_start = word_of_nat n,
     sq_present = True, sq_n = 0\<rparr>"

text \<open>The three relations a pump writes are distinct.\<close>

definition watch_apart :: "on_watch \<Rightarrow> bool" where
  "watch_apart ow \<longleftrightarrow> distinct [ow_inbox ow, ow_cursor_rel ow, ow_seqs ow]"

fun inbox_facts :: "on_watch \<Rightarrow> i64 \<Rightarrow> tuple list \<Rightarrow> fact list" where
  "inbox_facts ow v [] = []"
| "inbox_facts ow v (b # bs) = inbox_fact (ow_inbox ow) (ow_target ow) v b # inbox_facts ow (v + 1) bs"

lemma inbox_facts_rel: "f \<in> set (inbox_facts ow v bodies) \<Longrightarrow> f_rel f = ow_inbox ow"
  by (induction ow v bodies rule: inbox_facts.induct) (auto simp: inbox_fact_def)

lemma length_activations [simp]: "length (activations rows) = length rows"
  by (simp add: activations_def)

lemma deliver_rows_facts:
  "deliver_rows ow rows a p =
     (a\<lparr>sq_n := sq_n a + word_of_nat (length rows)\<rparr>,
      p\<lparr>p_asserts := p_asserts p @ inbox_facts ow (sq_start a + sq_n a) (activations rows)\<rparr>)"
proof (induction rows arbitrary: a p)
  case (Cons x rows)
  then show ?case
    by (cases x) (simp add: seq_fresh_def Let_def activations_def patch_builders algebra_simps)
qed (simp add: activations_def)

text \<open>The updates of a pump that delivers \<open>bodies\<close> after the first \<open>n\<close> messages.\<close>

definition pump_updates :: "on_watch \<Rightarrow> edition \<Rightarrow> edition \<Rightarrow> nat \<Rightarrow> tuple list \<Rightarrow> upd list" where
  "pump_updates ow from to n bodies =
     signed 1 (inbox_facts ow (word_of_nat n) bodies) @
     [(ow_seqs ow, watch_seq_key ow @ [VInt (word_of_nat (n + length bodies))], 1),
      (ow_seqs ow, watch_seq_key ow @ [VInt (word_of_nat n)], -1),
      (ow_cursor_rel ow, frontier_tuple (ow_watch ow) from, -1),
      (ow_cursor_rel ow, frontier_tuple (ow_watch ow) to, 1)]"

lemma pump_patch_ok:
  assumes "rows \<noteq> []" "n + length rows < 2 ^ 63"
    and "a = \<lparr>sq_rel = ow_seqs ow, sq_key = watch_seq_key ow, sq_start = word_of_nat n, sq_present = True, sq_n = 0\<rparr>"
  shows "patch_updates (pump_patch ow from to rows a) = pump_updates ow from to n (activations rows)"
    and "patch_preconditions (pump_patch ow from to rows a) =
      [(ow_cursor_rel ow, frontier_tuple (ow_watch ow) from), (ow_seqs ow, watch_seq_key ow @ [VInt (word_of_nat n)])]"
proof -
  have "unat (word_of_nat (length rows) :: i64) = length rows" using assms(2) by (simp add: unat_of_nat)
  then have ne: "(word_of_nat (length rows) :: i64) \<noteq> 0" using assms(1) by auto
  show "patch_updates (pump_patch ow from to rows a) = pump_updates ow from to n (activations rows)"
    "patch_preconditions (pump_patch ow from to rows a) =
      [(ow_cursor_rel ow, frontier_tuple (ow_watch ow) from), (ow_seqs ow, watch_seq_key ow @ [VInt (word_of_nat n)])]"
    using ne
    by (simp_all add: pump_patch_def deliver_rows_facts frontier_patch_def seq_seal_def assms(3) Let_def
        counter_tuple_def patch_builders patch_updates_def patch_preconditions_def pump_updates_def
        timer_facts_def cursor_updates_def signed_def)
qed

lemma inbox_facts_other: "r \<noteq> ow_inbox ow \<Longrightarrow> upd_weight (signed 1 (inbox_facts ow v bodies)) r t = 0"
  by (induction bodies arbitrary: v) (simp_all add: signed_def inbox_fact_def fact_new_def)

lemma holds_messages_appends:
  assumes "holds_messages w (ow_inbox ow) (ow_target ow) ms" "length ms + length bodies < 2 ^ 63"
    and "\<And>t. w' (ow_inbox ow) t = w (ow_inbox ow) t +
      upd_weight (signed 1 (inbox_facts ow (word_of_nat (length ms)) bodies)) (ow_inbox ow) t"
  shows "holds_messages w' (ow_inbox ow) (ow_target ow) (ms @ bodies)"
  using assms
proof (induction bodies arbitrary: w ms)
  case Nil
  then show ?case by (simp add: holds_messages_def signed_def)
next
  case (Cons b bodies)
  let ?row = "inbox_row (ow_target ow) (word_of_nat (length ms)) b"
  let ?w = "\<lambda>r t. w r t + (if r = ow_inbox ow \<and> t = ?row then 1 else 0)"
  have "holds_messages ?w (ow_inbox ow) (ow_target ow) (ms @ [b])"
    by (rule holds_messages_append [OF Cons.prems(1)]) (use Cons.prems(2) in auto)
  then have "holds_messages w' (ow_inbox ow) (ow_target ow) ((ms @ [b]) @ bodies)"
    by (rule Cons.IH)
      (use Cons.prems(2,3) in \<open>auto simp: signed_def inbox_fact_def fact_new_def algebra_simps\<close>)
  then show ?case by simp
qed

text \<open>A committed pump appends its messages, moves the counter past them and the frontier to \<open>to\<close>.\<close>

lemma pump_moves:
  assumes "watched_inbox w ow ms" "frontier_stands w (ow_cursor_rel ow) (ow_watch ow) from" "watch_apart ow"
    and "from < to" "to < 2 ^ 63" "bodies \<noteq> []" "length ms + length bodies < 2 ^ 63"
    and "\<And>r t. w' r t = w r t + upd_weight (pump_updates ow from to (length ms) bodies) r t"
  shows "watched_inbox w' ow (ms @ bodies)" "frontier_stands w' (ow_cursor_rel ow) (ow_watch ow) to"
proof -
  have ap: "ow_inbox ow \<noteq> ow_cursor_rel ow" "ow_inbox ow \<noteq> ow_seqs ow" "ow_cursor_rel ow \<noteq> ow_seqs ow"
    using assms(3) by (auto simp: watch_apart_def)
  have "holds_messages w' (ow_inbox ow) (ow_target ow) (ms @ bodies)"
    by (rule holds_messages_appends [where w = w])
      (use assms(1,7) ap in \<open>auto simp: watched_inbox_def assms(8) pump_updates_def\<close>)
  moreover have "counter w' (ow_seqs ow) (watch_seq_key ow) (word_of_nat (length ms) + word_of_nat (length bodies))"
  proof (rule counter_moves)
    show "counter w (ow_seqs ow) (watch_seq_key ow) (word_of_nat (length ms))"
      using assms(1) by (simp add: watched_inbox_def)
    have "unat (word_of_nat (length bodies) :: i64) = length bodies" using assms(7) by (simp add: unat_of_nat)
    then show "(word_of_nat (length bodies) :: i64) \<noteq> 0" using assms(6) by auto
  qed (use ap in \<open>auto simp: assms(8) pump_updates_def inbox_facts_other\<close>)
  ultimately show "watched_inbox w' ow (ms @ bodies)" by (simp add: watched_inbox_def)
  show "frontier_stands w' (ow_cursor_rel ow) (ow_watch ow) to"
    by (rule frontier_moves [OF assms(2,5)])
      (use assms(4) ap in \<open>auto simp: assms(8) pump_updates_def inbox_facts_other\<close>)
qed

section \<open>Replaying an inbox\<close>

text \<open>The sum of the diffs that the activations of a row carry.\<close>

definition balance :: "tuple list \<Rightarrow> tuple \<Rightarrow> diff" where
  "balance ms t = (\<Sum>m\<leftarrow>ms. case decode_activation m of Some (d, row) \<Rightarrow> if row = t then d else 0 | None \<Rightarrow> 0)"

definition diffs_fit :: "rows \<Rightarrow> bool" where
  "diffs_fit rows \<longleftrightarrow> (\<forall>(t, d)\<in>set rows. - (2 ^ 63) \<le> d \<and> d < 2 ^ 63)"

lemma balance_append [simp]: "balance (ms @ ms') t = balance ms t + balance ms' t"
  by (simp add: balance_def)

lemma balance_activations: "diffs_fit rows \<Longrightarrow> balance (activations rows) t = wsum rows t"
  by (induction rows) (auto simp: balance_def activations_def diffs_fit_def decode_activation_body)

context trace_store
begin

text \<open>
  One attempt of a pump, with any peers before its commit: it delivers only when the
  frontier and the counter are still where it read them.
\<close>

lemma pump_attempt_cases:
  fixes ow defines "key \<equiv> ow_watch ow" and "cur \<equiv> ow_cursor_rel ow" and "q \<equiv> ow_view ow"
  assumes "inv s" "watch_apart ow" "frontier_stands (now s) cur key from" "watched_inbox (now s) ow ms"
    and "ts_watermark ops s \<le> from" "from \<le> ts_current ops s" "ts_current ops s < 2 ^ 63"
    and "followable fuel ops W env q s"
    and peer: "\<forall>s1. inv s1 \<longrightarrow> W s1 = W s \<longrightarrow> ts_current ops s1 = ts_current ops s \<longrightarrow> later ops inv W s1 (peer s1) \<and>
      (\<exists>from' new. frontier_stands (now (peer s1)) cur key from' \<and> watched_inbox (now (peer s1)) ow (ms @ new) \<and>
        length (ms @ new) < 2 ^ 63)"
  obtains (idle) s1 a where "pump_attempt fuel ops sch ow peer s = (Inr (Some 0), s1)" "inv s1" "now s1 = now s"
      "answered fuel ops W env q s from a" "answered fuel ops W env q s (ts_current ops s) a"
    | (huge) a b rows where "answered fuel ops W env q s from a"
      "answered fuel ops W env q s (ts_current ops s) b" "is_delta rows a b" "2 ^ 63 \<le> length ms + length rows"
    | (refused) s1 rows e where "pump_attempt fuel ops sch ow peer s = (Inl e, peer s1)" "inv (peer s1)"
      "\<not> lawful (sch (peer s1)) no_behavior_check (pump_patch ow from (ts_current ops s) rows
        \<lparr>sq_rel = ow_seqs ow, sq_key = watch_seq_key ow, sq_start = word_of_nat (length ms), sq_present = True, sq_n = 0\<rparr>)
        (ow_authority ow)"
    | (lost) s1 from' new where "pump_attempt fuel ops sch ow peer s = (Inr None, peer s1)" "inv (peer s1)"
      "frontier_stands (now (peer s1)) cur key from'" "watched_inbox (now (peer s1)) ow (ms @ new)"
      "from' \<noteq> from \<or> new \<noteq> []" "length (ms @ new) < 2 ^ 63" "W s1 = W s" "ts_current ops s1 = ts_current ops s"
    | (won) s1 s' a b rows where "pump_attempt fuel ops sch ow peer s = (Inr (Some (length rows)), s')"
      "rows \<noteq> []" "is_delta rows a b"
      "answered fuel ops W env q s from a" "answered fuel ops W env q s (ts_current ops s) b"
      "inv s1" "W s1 = W s" "later ops inv W s1 (peer s1)"
      "frontier_stands (now (peer s1)) cur key from" "watched_inbox (now (peer s1)) ow ms"
      "wrote (peer s1) (pump_updates ow from (ts_current ops s) (length ms) (activations rows)) s'"
      "frontier_stands (now s') cur key (ts_current ops s)" "watched_inbox (now s') ow (ms @ activations rows)"
proof -
  let ?to = "ts_current ops s"
  let ?a = "\<lparr>sq_rel = ow_seqs ow, sq_key = watch_seq_key ow, sq_start = word_of_nat (length ms), sq_present = True, sq_n = 0\<rparr>"
  note defs = key_def cur_def q_def
  show ?thesis
  proof (cases rule: due_delta_ok [OF assms(4) assms(6)[unfolded defs] assms(8,9) assms(11)[unfolded defs]])
    case (1 s1 a)
    have run: "pump_attempt fuel ops sch ow peer s = (Inr (Some 0), s1)"
      using 1(1) by (simp add: pump_attempt_def obind_step)
    have "now s1 = now s" using 1 by (simp add: fun_eq_iff world_now_def)
    then show ?thesis by (rule idle [OF run 1(2)]) (use 1 in \<open>simp_all add: defs\<close>)
  next
    case (2 s1 rows a b)
    have now1: "now s1 = now s" using 2 by (simp add: fun_eq_iff world_now_def)
    show ?thesis
    proof (cases "rows = []")
      case True
      have run: "pump_attempt fuel ops sch ow peer s = (Inr (Some 0), s1)"
        using 2(1) True by (simp add: pump_attempt_def obind_step)
      have to: "ts_watermark ops s \<le> ?to" using assms(8,9) by simp
      have "a = b" by (rule is_delta_empty)
        (use answered_snapshot(2) [OF assms(4,8) 2(8)] answered_snapshot(2) [OF assms(4) to 2(9)] 2(7) True in simp_all)
      then show ?thesis by (intro idle [OF run 2(2) now1]) (use 2 in \<open>simp_all add: defs\<close>)
    next
      case False
      show ?thesis
      proof (cases "length ms + length rows < 2 ^ 63")
        case small: True
        let ?t = "peer s1"
        let ?p = "pump_patch ow from ?to rows ?a"
        have seq: "seq_read ops s1 (ow_seqs ow) (watch_seq_key ow) = Inr ?a"
          by (rule seq_read_counter [OF 2(2)]) (use assms(7) in \<open>simp add: watched_inbox_def now1\<close>)
        have run: "pump_attempt fuel ops sch ow peer s =
            obind (commit_patch_checked ops sch no_behavior_check ?p (ow_authority ow))
              (\<lambda>out. oret (case out of Committed _ \<Rightarrow> Some (length rows) | Rejected \<Rightarrow> None)) ?t"
          using False
          by (simp add: pump_attempt_def obind_step [where m = "due_delta fuel ops (ow_cursor_rel ow) (ow_watch ow) (ow_view ow)", OF 2(1)]
              commit_patch_def
              obind_oread_Inr [where r = "\<lambda>s. seq_read ops s (ow_seqs ow) (watch_seq_key ow)", OF seq]
              obind_step [of "opause peer" s1 "()" ?t] opause_def)
        obtain from' new where t: "later ops inv W s1 ?t" "inv ?t" "frontier_stands (now ?t) cur key from'"
          "watched_inbox (now ?t) ow (ms @ new)" "length (ms @ new) < 2 ^ 63"
          using peer [rule_format, OF 2(2,5,3)] by (auto simp: later_def)
        note pp = pump_patch_ok [OF False small refl, of ow "from" ?to]
        have "from < 2 ^ 63" using assms(9,10) by simp
        then have f: "0 < now ?t cur (frontier_tuple key from) \<longleftrightarrow> from = from'"
          using frontier_weight [OF t(3)] by blast
        have "0 < now ?t (ow_seqs ow) (watch_seq_key ow @ [VInt (word_of_nat (length ms))]) \<longleftrightarrow>
            (word_of_nat (length ms) :: i64) = word_of_nat (length (ms @ new))"
          using t(4) counter_holds unfolding watched_inbox_def by blast
        then have c: "0 < now ?t (ow_seqs ow) (watch_seq_key ow @ [VInt (word_of_nat (length ms))]) \<longleftrightarrow> new = []"
          using word_length_inject [of "length ms" "length (ms @ new)"] t(5) by auto
        have pre: "holds_all (W ?t) (ts_current ops ?t) (patch_preconditions ?p) \<longleftrightarrow> from = from' \<and> new = []"
          using f c by (simp add: pp(2) holds_all_def world_now_def cur_def key_def)
        show ?thesis
        proof (cases rule: commit_patch_cases [OF t(2), of sch no_behavior_check ?p "ow_authority ow"])
          case (1 e)
          then show ?thesis using refused [of e s1 rows] run t(2) by (simp add: obind_apply)
        next
          case nope: 2
          have "pump_attempt fuel ops sch ow peer s = (Inr None, ?t)"
            using run nope(3) by (simp add: obind_apply)
          then show ?thesis by (rule lost [OF _ t(2,3,4)]) (use nope(2) pre t(5) 2 in auto)
        next
          case (3 s')
          have at: "from = from'" "new = []" using 3(2) pre by auto
          have w: "wrote ?t (pump_updates ow from ?to (length ms) (activations rows)) s'"
            using 3(4) by (simp add: pp(1))
          have won_run: "pump_attempt fuel ops sch ow peer s = (Inr (Some (length rows)), s')"
            using run 3(3) by (simp add: obind_apply)
          note moved = pump_moves [of "now ?t" ow ms "from" ?to "activations rows" "now s'",
              OF _ _ assms(5) 2(6) assms(10) _ _ stepped_now [OF w]]
          have "activations rows \<noteq> []" using False by (simp add: activations_def)
          then show ?thesis
            by (intro won [OF won_run False 2(7) _ _ 2(2,5) t(1) _ _ w])
              (use 2 t at small moved in \<open>simp_all add: defs\<close>)
        qed
      next
        case False
        then show ?thesis by (intro huge [of a b rows]) (use 2 in \<open>simp_all add: defs\<close>)
      qed
    qed
  qed
qed

text \<open>
  A pump with no peers: the inbox gains exactly the change of the view since the frontier,
  and the frontier moves to now unless there was none.
\<close>

lemma pump_alone:
  assumes "inv s" "watch_apart ow" "frontier_stands (now s) (ow_cursor_rel ow) (ow_watch ow) from"
    and "watched_inbox (now s) ow ms" "length ms < 2 ^ 63"
    and "ts_watermark ops s \<le> from" "from \<le> ts_current ops s" "ts_current ops s < 2 ^ 63"
    and "followable fuel ops W env (ow_view ow) s"
    and room: "\<And>rows a b. answered fuel ops W env (ow_view ow) s from a \<Longrightarrow>
      answered fuel ops W env (ow_view ow) s (ts_current ops s) b \<Longrightarrow> is_delta rows a b \<Longrightarrow> length ms + length rows < 2 ^ 63"
    and law: "\<And>s1 rows. lawful (sch s1) no_behavior_check
      (pump_patch ow from (ts_current ops s) rows (watch_alloc ow (length ms))) (ow_authority ow)"
  shows "\<exists>a b rows s'. answered fuel ops W env (ow_view ow) s from a \<and>
    answered fuel ops W env (ow_view ow) s (ts_current ops s) b \<and> is_delta rows a b \<and>
    pump fuel ops sch ow (\<lambda>_. id) s = (Inr (length rows), s') \<and> inv s' \<and>
    frontier_stands (now s') (ow_cursor_rel ow) (ow_watch ow) (if rows = [] then from else ts_current ops s) \<and>
    watched_inbox (now s') ow (ms @ activations rows)"
proof -
  have "(256 :: nat) = Suc 255" by simp
  then have run: "pump fuel ops sch ow (\<lambda>_. id) s = (Inr n, s')"
    if "pump_attempt fuel ops sch ow id s = (Inr (Some n), s')" for n s'
    using that by (simp only: pump_def retry_loop.simps) (simp add: obind_step)
  have peer: "\<forall>s1. inv s1 \<longrightarrow> W s1 = W s \<longrightarrow> ts_current ops s1 = ts_current ops s \<longrightarrow>
      later ops inv W s1 (id s1) \<and>
      (\<exists>from' new. frontier_stands (now (id s1)) (ow_cursor_rel ow) (ow_watch ow) from' \<and>
        watched_inbox (now (id s1)) ow (ms @ new) \<and> length (ms @ new) < 2 ^ 63)"
  proof (intro allI impI)
    fix s1 assume s1: "inv s1" "W s1 = W s" "ts_current ops s1 = ts_current ops s"
    then have "now s1 = now s" by (simp add: fun_eq_iff world_now_def)
    then show "later ops inv W s1 (id s1) \<and>
      (\<exists>from' new. frontier_stands (now (id s1)) (ow_cursor_rel ow) (ow_watch ow) from' \<and>
        watched_inbox (now (id s1)) ow (ms @ new) \<and> length (ms @ new) < 2 ^ 63)"
      using s1(1) assms(3,4,5) by (auto simp: later_refl intro!: exI [of _ "from"] exI [of _ "[]"])
  qed
  show ?thesis
  proof (cases rule: pump_attempt_cases [where peer = id and sch = sch, OF assms(1,2,3,4,6,7,8,9) peer])
    case (1 s1 a)
    then show ?thesis
      using run [of 0 s1] assms(3,4)
      by (intro exI [of _ a] exI [of _ "[]"] exI [of _ s1]) (simp add: is_delta_same activations_def)
  next
    case (2 a b rows)
    then show ?thesis using room [of a b rows] by simp
  next
    case (3 s1 rows e)
    then show ?thesis using law by (simp add: watch_alloc_def)
  next
    case (4 s1 from' new)
    have same: "now (id s1) = now s" using 4 by (simp add: fun_eq_iff world_now_def)
    have "from' < 2 ^ 63" using 4(3) by (simp add: frontier_stands_def)
    then have "from' = from"
      using frontier_weight [OF assms(3), of from'] 4(3) unfolding same by (simp add: frontier_stands_def)
    moreover have "(word_of_nat (length (ms @ new)) :: i64) = word_of_nat (length ms)"
      using 4(4) assms(4) counter_unique unfolding same watched_inbox_def by blast
    then have "new = []" using word_length_inject [of "length (ms @ new)" "length ms"] 4(6) assms(5) by auto
    ultimately show ?thesis using 4(5) by simp
  next
    case (5 s1 s' a b rows)
    moreover have "inv s'" using 5(11) by (simp add: stepped_def)
    ultimately show ?thesis
      using run [of "length rows" s'] by (intro exI [of _ a] exI [of _ b] exI [of _ rows] exI [of _ s']) simp
  qed
qed

end

end
