(* ===== verification/Derived.thy ===== *)
theory Derived
  imports On_Watch
begin

text \<open>
  Materialized views (\<^verbatim>\<open>grmpl-proc/src/derived.rs\<close>): a relation that a maintainer keeps
  equal to a view at its durable cursor. A refresh folds in the view's delta since the
  cursor and moves the cursor, in one commit guarded by the cursor row.
\<close>

section \<open>The maintainer\<close>

record materialized =
  mt_view :: query
  mt_into :: rel_id
  mt_key :: entity
  mt_cursor_rel :: rel_id
  mt_authority :: authority

definition mt_cursor :: "'s trace_ops \<Rightarrow> 's \<Rightarrow> materialized \<Rightarrow> edition option result" where
  "mt_cursor ops s mt = frontier ops s (mt_cursor_rel mt) (mt_key mt)"

definition mt_install :: "'s trace_ops \<Rightarrow> ('s \<Rightarrow> schemas) \<Rightarrow> materialized \<Rightarrow> ('s, commit_outcome) op" where
  "mt_install ops sch mt =
     commit_patch ops sch
       (patch_assert (fact_new (mt_cursor_rel mt) (frontier_tuple (mt_key mt) edition_zero)) patch_new)
       (mt_authority mt)"

text \<open>A row of weight \<open>k\<close> is asserted or retracted \<open>|k|\<close> times.\<close>

fun fold_rows :: "rel_id \<Rightarrow> rows \<Rightarrow> patch \<Rightarrow> patch" where
  "fold_rows into [] p = p"
| "fold_rows into ((row, diff) # rows) p =
     fold_rows into rows
       (((if diff > 0 then patch_assert (fact_new into row) else patch_retract (fact_new into row))
         ^^ nat \<bar>diff\<bar>) p)"

definition refresh_patch :: "materialized \<Rightarrow> edition \<Rightarrow> edition \<Rightarrow> rows \<Rightarrow> patch" where
  "refresh_patch mt from to rows =
     fold_rows (mt_into mt) rows (frontier_patch (mt_cursor_rel mt) (mt_key mt) from to)"

definition refresh_attempt ::
  "nat \<Rightarrow> 's trace_ops \<Rightarrow> ('s \<Rightarrow> schemas) \<Rightarrow> materialized \<Rightarrow> ('s \<Rightarrow> 's) \<Rightarrow> ('s, nat option) op" where
  "refresh_attempt fuel ops sch mt peer =
     obind (due_delta fuel ops (mt_cursor_rel mt) (mt_key mt) (mt_view mt)) (\<lambda>due. case due of
       None \<Rightarrow> oret (Some 0)
     | Some (from, to, rows) \<Rightarrow>
         obind (opause peer) (\<lambda>_.
         obind (commit_patch ops sch (refresh_patch mt from to rows) (mt_authority mt)) (\<lambda>out.
           oret (case out of Committed _ \<Rightarrow> Some (length rows) | Rejected \<Rightarrow> None))))"

definition refresh ::
  "nat \<Rightarrow> 's trace_ops \<Rightarrow> ('s \<Rightarrow> schemas) \<Rightarrow> materialized \<Rightarrow> 's peers \<Rightarrow> ('s, nat) op" where
  "refresh fuel ops sch mt peers =
     retry_loop 256 0 (\<lambda>k. refresh_attempt fuel ops sch mt (peers k)) (oret 0)"

definition mt_rows :: "'s trace_ops \<Rightarrow> 's \<Rightarrow> materialized \<Rightarrow> edition \<Rightarrow> rows result" where
  "mt_rows ops s mt at = ts_read_at ops s (mt_into mt) at"

section \<open>The law\<close>

text \<open>The copy holds the view as of the frontier.\<close>

definition in_step ::
  "nat \<Rightarrow> 's trace_ops \<Rightarrow> ('s \<Rightarrow> rel_id \<Rightarrow> edition \<Rightarrow> tuple \<Rightarrow> diff) \<Rightarrow> materialized \<Rightarrow> 's \<Rightarrow> edition \<Rightarrow> bool" where
  "in_step fuel ops W mt s e \<longleftrightarrow>
     frontier_stands (world_now ops W s) (mt_cursor_rel mt) (mt_key mt) e \<and>
     ts_watermark ops s \<le> e \<and> e \<le> ts_current ops s \<and>
     (\<exists>v. query_value fuel (mt_view mt) (contents ops s e) None None = Inr v \<and>
        (\<forall>t. world_now ops W s (mt_into mt) t = wsum v t))"

lemma upd_weight_times:
  "upd_weight (patch_updates ((patch_assert (fact_new r t) ^^ n) p)) r' t' =
     upd_weight (patch_updates p) r' t' + (if r = r' \<and> t = t' then int n else 0)"
  "upd_weight (patch_updates ((patch_retract (fact_new r t) ^^ n) p)) r' t' =
     upd_weight (patch_updates p) r' t' - (if r = r' \<and> t = t' then int n else 0)"
  by (induction n) (auto simp: fact_new_def)

lemma upd_weight_fold_rows:
  "upd_weight (patch_updates (fold_rows into rows p)) r t =
     upd_weight (patch_updates p) r t + (if r = into then wsum rows t else 0)"
proof (induction rows arbitrary: p)
  case (Cons x rows)
  obtain row diff where x: "x = (row, diff)" by (cases x)
  show ?case using Cons.IH by (auto simp: x upd_weight_times)
qed simp

lemma preconditions_times:
  "patch_preconditions ((patch_assert f ^^ n) p) = patch_preconditions p"
  "patch_preconditions ((patch_retract f ^^ n) p) = patch_preconditions p"
  by (induction n) (simp_all add: patch_preconditions_def patch_builders)

lemma preconditions_fold_rows: "patch_preconditions (fold_rows into rows p) = patch_preconditions p"
  by (induction rows arbitrary: p) (auto simp: preconditions_times)

lemma frontier_patch_writes:
  "patch_preconditions (frontier_patch rel key from to) = [(rel, frontier_tuple key from)]"
  "patch_updates (frontier_patch rel key from to) =
     [(rel, frontier_tuple key from, -1), (rel, frontier_tuple key to, 1)]"
  by (simp_all add: frontier_patch_def patch_preconditions_def patch_updates_def patch_builders
      timer_facts_def cursor_updates_def signed_def)

lemma refresh_patch_preconditions:
  "patch_preconditions (refresh_patch mt from to rows) = [(mt_cursor_rel mt, frontier_tuple (mt_key mt) from)]"
  by (simp add: refresh_patch_def preconditions_fold_rows frontier_patch_writes)

lemma refresh_patch_weight:
  "upd_weight (patch_updates (refresh_patch mt from to rows)) r t =
     (if r = mt_cursor_rel mt \<and> t = frontier_tuple (mt_key mt) to then 1 else 0) -
     (if r = mt_cursor_rel mt \<and> t = frontier_tuple (mt_key mt) from then 1 else 0) +
     (if r = mt_into mt then wsum rows t else 0)"
  by (simp add: refresh_patch_def upd_weight_fold_rows frontier_patch_writes)

lemma retry_loop_keeps:
  assumes "\<And>k s r s'. k < m \<Longrightarrow> J k s \<Longrightarrow> attempt k s = (r, s') \<Longrightarrow> K s' \<and> (r = Inr None \<longrightarrow> J (Suc k) s')"
    and "\<And>k s. J k s \<Longrightarrow> K s" "J k s" "retry_loop n k attempt (oret x) s = (r, s')" "k + n \<le> m"
  shows "K s'"
  using assms(3-)
proof (induction n arbitrary: k s)
  case 0
  then show ?case using assms(2) by simp
next
  case (Suc n)
  obtain y s1 where y: "attempt k s = (y, s1)" by fastforce
  have k: "k < m" using Suc.prems(3) by simp
  show ?case
  proof (cases "y = Inr None")
    case True
    then show ?thesis using Suc.IH [of "Suc k" s1] assms(1) [OF k Suc.prems(1) y] Suc.prems(2,3) y
      by (simp add: obind_step)
  next
    case False
    then show ?thesis using assms(1) [OF k Suc.prems(1) y] Suc.prems(2) y
      by (auto simp: obind_apply split: sum.splits option.splits)
  qed
qed

lemma refresh_run:
  assumes "refresh_attempt fuel ops sch mt id s = (r, s')" "r \<noteq> Inr None"
  shows "refresh fuel ops sch mt (\<lambda>_. id) s = (rbind r (\<lambda>n. Inr (the n)), s')"
proof -
  have "(256 :: nat) = Suc 255" by simp
  then show ?thesis
    using assms by (simp only: refresh_def retry_loop.simps) (auto simp: obind_apply split: sum.splits option.splits)
qed

text \<open>
  Peers that may be maintainers too: they keep the copy in step, the view defined, and commit
  at most \<open>B\<close> times between an attempt's read and its commit.
\<close>

definition co_maintains ::
  "nat \<Rightarrow> 's trace_ops \<Rightarrow> ('s \<Rightarrow> bool) \<Rightarrow> ('s \<Rightarrow> rel_id \<Rightarrow> edition \<Rightarrow> tuple \<Rightarrow> diff) \<Rightarrow> (nat \<Rightarrow> query) \<Rightarrow>
   materialized \<Rightarrow> nat \<Rightarrow> 's peers \<Rightarrow> bool" where
  "co_maintains fuel ops I W env mt B peers \<longleftrightarrow> (\<forall>k s e. I s \<longrightarrow> in_step fuel ops W mt s e \<longrightarrow>
     ts_current ops s + B < 2 ^ 63 \<longrightarrow> followable fuel ops W env (mt_view mt) s \<longrightarrow>
     later ops I W s (peers k s) \<and> (\<exists>e'. in_step fuel ops W mt (peers k s) e') \<and>
     ts_current ops (peers k s) \<le> ts_current ops s + B \<and> followable fuel ops W env (mt_view mt) (peers k s))"

context trace_store
begin

lemma in_step_same:
  assumes "inv s" "inv s'" "W s' = W s" "ts_watermark ops s' = ts_watermark ops s" "ts_current ops s' = ts_current ops s"
  shows "in_step fuel ops W mt s' e \<longleftrightarrow> in_step fuel ops W mt s e"
proof -
  have "now s' = now s" by (simp add: fun_eq_iff world_now_def assms(3,5))
  then show ?thesis using contents_same [OF assms(1-4), of e] by (auto simp: in_step_def assms(4,5))
qed

text \<open>
  One attempt to refresh, with peers that may be maintainers themselves: the copy is in step
  afterwards whatever the outcome, and a refresh that finds no peer brings it to now.
\<close>

lemma refresh_attempt_keeps:
  assumes "inv s" "in_step fuel ops W mt s e" "mt_into mt \<noteq> mt_cursor_rel mt"
    and "ts_current ops s < 2 ^ 63" "followable fuel ops W env (mt_view mt) s"
    and peer: "\<forall>s1. inv s1 \<longrightarrow> W s1 = W s \<longrightarrow> ts_current ops s1 = ts_current ops s \<longrightarrow>
      ts_watermark ops s1 = ts_watermark ops s \<longrightarrow>
      later ops inv W s1 (peer s1) \<and> (\<exists>e'. in_step fuel ops W mt (peer s1) e')"
    and run: "refresh_attempt fuel ops sch mt peer s = (r, s')"
  shows "inv s' \<and> (\<exists>e'. in_step fuel ops W mt s' e' \<and>
      (\<forall>n. r = Inr (Some n) \<longrightarrow> query_value fuel (mt_view mt) (contents ops s' e') None None =
          query_value fuel (mt_view mt) (contents ops s (ts_current ops s)) None None)) \<and>
    (r = Inr None \<longrightarrow> (\<exists>s1. inv s1 \<and> W s1 = W s \<and> ts_current ops s1 = ts_current ops s \<and>
      ts_watermark ops s1 = ts_watermark ops s \<and> s' = peer s1) \<and> \<not> in_step fuel ops W mt s' e) \<and>
    (\<forall>x. r = Inl x \<longrightarrow> (\<exists>s1 rows. \<not> lawful (sch s1) no_behavior_check
      (refresh_patch mt e (ts_current ops s) rows) (mt_authority mt))) \<and>
    (\<exists>s1. inv s1 \<and> W s1 = W s \<and> ts_current ops s1 = ts_current ops s \<and> ts_watermark ops s1 = ts_watermark ops s \<and>
      (s' = s1 \<or> s' = peer s1 \<or> (\<exists>us. stepped ops inv W (peer s1) us s')))"
proof -
  let ?to = "ts_current ops s"
  have fs: "frontier_stands (now s) (mt_cursor_rel mt) (mt_key mt) e" "ts_watermark ops s \<le> e" "e \<le> ?to"
    using assms(2) by (auto simp: in_step_def)
  show ?thesis
  proof (cases rule: due_delta_ok [OF assms(1) fs assms(5)])
    case (1 s1 a)
    have "r = Inr (Some 0)" "s' = s1" using run 1(1) by (simp_all add: refresh_attempt_def obind_step)
    moreover have "in_step fuel ops W mt s1 e" using in_step_same [OF assms(1) 1(2,5,4,3)] assms(2) by simp
    moreover have "query_value fuel (mt_view mt) (contents ops s1 e) None None =
        query_value fuel (mt_view mt) (contents ops s ?to) None None"
      using 1(6,7) contents_same [OF assms(1) 1(2,5,4) fs(2)] by (simp add: answered_def)
    ultimately show ?thesis using 1(2,3,4,5) by auto
  next
    case (2 s1 rows a b)
    let ?t = "peer s1" and ?p = "refresh_patch mt e ?to rows"
    obtain e' where t: "later ops inv W s1 ?t" "in_step fuel ops W mt ?t e'"
      using peer 2(2,3,4,5) by blast
    have it: "inv ?t" using t(1) by (simp add: later_def)
    have step: "refresh_attempt fuel ops sch mt peer s =
        obind (commit_patch_checked ops sch no_behavior_check ?p (mt_authority mt))
          (\<lambda>out. oret (case out of Committed _ \<Rightarrow> Some (length rows) | Rejected \<Rightarrow> None)) ?t"
      by (simp add: refresh_attempt_def commit_patch_def opause_def obind_step [of "opause peer" s1 "()" ?t]
          obind_step [where m = "due_delta fuel ops (mt_cursor_rel mt) (mt_key mt) (mt_view mt)", OF 2(1)])
    show ?thesis
    proof (cases rule: commit_patch_cases [OF it, of sch no_behavior_check ?p "mt_authority mt"])
      case (1 x)
      then have "r = Inl x" "s' = ?t" using step run by (simp_all add: obind_apply)
      then show ?thesis using it t(2) 1(1) 2(2,3,4,5) by auto
    next
      case lost: 2
      then have r: "r = Inr None" "s' = ?t" using step run by (simp_all add: obind_apply)
      have "\<not> in_step fuel ops W mt ?t e"
        using lost(2) by (auto simp: in_step_def refresh_patch_preconditions world_now_def frontier_stands_def)
      then show ?thesis using it t(2) 2(2,3,4,5) r by auto
    next
      case (3 s2)
      then have r: "r = Inr (Some (length rows))" "s' = s2" using step run by (simp_all add: obind_apply)
      have f': "frontier_stands (now ?t) (mt_cursor_rel mt) (mt_key mt) e'" "ts_watermark ops ?t \<le> e'" "e' \<le> ts_current ops ?t"
        using t(2) by (auto simp: in_step_def)
      have "e < 2 ^ 63" using fs(3) assms(4) by simp
      then have "e = e'"
        using frontier_weight [OF f'(1)] 3(2) by (simp add: refresh_patch_preconditions world_now_def)
      obtain v where v: "query_value fuel (mt_view mt) (contents ops ?t e) None None = Inr v"
        "\<And>t'. now ?t (mt_into mt) t' = wsum v t'"
        using t(2) \<open>e = e'\<close> by (auto simp: in_step_def)
      have s1e: "contents ops s1 i = contents ops s i" if "ts_watermark ops s \<le> i" for i
        by (rule contents_same [OF assms(1) 2(2,5,4) that])
      have wm: "ts_watermark ops s2 = ts_watermark ops ?t" using 3(4) by (simp add: stepped_def)
      have l2: "later ops inv W s1 s2" using later_trans [OF t(1) stepped_later [OF 3(4)]] .
      have "contents ops ?t e = contents ops s1 e"
        by (rule later_contents [OF 2(2) t(1)]) (use f'(2) \<open>e = e'\<close> fs(3) 2(3) in auto)
      then have "v = a" using v(1) 2(8) s1e [OF fs(2)] by (simp add: answered_def)
      have c2: "contents ops s2 ?to = contents ops s ?to"
        using later_contents [OF 2(2) l2, of ?to] s1e [of ?to] wm f'(2) \<open>e = e'\<close> fs 2(3) by simp
      have into: "now s2 (mt_into mt) t' = wsum b t'" for t'
        using is_deltaD(1) [OF 2(7), of t'] assms(3)
        by (simp add: stepped_now [OF 3(4)] refresh_patch_weight v(2) \<open>v = a\<close>)
      have "frontier_stands (now s2) (mt_cursor_rel mt) (mt_key mt) ?to"
        by (rule frontier_moves [OF f'(1) assms(4)])
          (use \<open>e = e'\<close> 2(6) assms(3) in \<open>auto simp: stepped_now [OF 3(4)] refresh_patch_weight\<close>)
      moreover have "ts_watermark ops s2 \<le> ?to" "?to \<le> ts_current ops s2"
        using wm f'(2) \<open>e = e'\<close> fs(3) l2 2(3) by (auto simp: later_def)
      moreover have qv: "query_value fuel (mt_view mt) (contents ops s2 ?to) None None = Inr b"
        using 2(9) by (simp add: c2 answered_def)
      ultimately have "in_step fuel ops W mt s2 ?to" using into by (auto simp: in_step_def)
      moreover have "inv s2" using 3(4) by (simp add: stepped_def)
      ultimately show ?thesis using r c2 3(4) 2(2,3,4,5) by (auto intro!: exI [of _ ?to])
    qed
  qed
qed

lemma refresh_keeps:
  assumes "inv s" "in_step fuel ops W mt s e" "mt_into mt \<noteq> mt_cursor_rel mt"
    and "ts_current ops s + 256 * B < 2 ^ 63" "followable fuel ops W env (mt_view mt) s"
    and peers: "co_maintains fuel ops inv W env mt B peers"
    and run: "refresh fuel ops sch mt peers s = (r, s')"
  shows "inv s' \<and> (\<exists>e'. in_step fuel ops W mt s' e')"
proof -
  let ?K = "\<lambda>s. inv s \<and> (\<exists>e. in_step fuel ops W mt s e)"
  let ?J = "\<lambda>k s. inv s \<and> (\<exists>e. in_step fuel ops W mt s e) \<and> ts_current ops s + (256 - k) * B < 2 ^ 63 \<and>
    followable fuel ops W env (mt_view mt) s"
  show ?thesis
  proof (rule retry_loop_keeps [where J = ?J and K = ?K and m = 256, OF _ _ _ run [unfolded refresh_def]])
    fix k s r s'
    assume k: "k < 256" and J: "?J k s" and run: "refresh_attempt fuel ops sch mt (peers k) s = (r, s')"
    then obtain e where e: "inv s" "in_step fuel ops W mt s e" "ts_current ops s + (256 - k) * B < 2 ^ 63"
      "followable fuel ops W env (mt_view mt) s" by blast
    have "256 - k = Suc (256 - Suc k)" using k by simp
    then have split: "(256 - k) * B = (256 - Suc k) * B + B" by (simp only: mult_Suc)
    have peer: "later ops inv W s1 (peers k s1) \<and> ?J (Suc k) (peers k s1)"
      if s1: "inv s1" "W s1 = W s" "ts_current ops s1 = ts_current ops s"
        "ts_watermark ops s1 = ts_watermark ops s" for s1
    proof -
      have "in_step fuel ops W mt s1 e" using in_step_same [OF e(1) s1(1,2,4,3)] e(2) by simp
      moreover have "followable fuel ops W env (mt_view mt) s1"
        using e(4) answered_same [OF e(1) s1(1,2,4)] s1(3,4) by (auto simp: followable_def)
      moreover have "ts_current ops s1 + B < 2 ^ 63" using e(3) s1(3) split by simp
      ultimately have "later ops inv W s1 (peers k s1)" "\<exists>e'. in_step fuel ops W mt (peers k s1) e'"
        "ts_current ops (peers k s1) \<le> ts_current ops s1 + B" "followable fuel ops W env (mt_view mt) (peers k s1)"
        using peers s1(1) unfolding co_maintains_def by blast+
      then show ?thesis using e(3) s1(3) split by (simp add: later_def)
    qed
    have "ts_current ops s < 2 ^ 63" using e(3) by simp
    from refresh_attempt_keeps [OF e(1,2) assms(3) this e(4) _ run] peer
    show "?K s' \<and> (r = Inr None \<longrightarrow> ?J (Suc k) s')" by blast
  qed (use assms in auto)
qed

text \<open>Another maintainer of the same copy, refreshing in between, is such a peer.\<close>

lemma refresh_co_maintains:
  assumes "mt_into mt \<noteq> mt_cursor_rel mt" "\<And>s. inv s \<Longrightarrow> followable fuel ops W env (mt_view mt) s"
  shows "co_maintains fuel ops inv W env mt 1 (\<lambda>k s. snd (refresh fuel ops sch mt (\<lambda>_. id) s))"
  unfolding co_maintains_def
proof (intro allI impI)
  fix k :: nat and s e
  assume s: "inv s" "in_step fuel ops W mt s e" "ts_current ops s + 1 < 2 ^ 63"
  obtain r s' where run: "refresh_attempt fuel ops sch mt id s = (r, s')" by fastforce
  have peer: "\<forall>s1. inv s1 \<longrightarrow> W s1 = W s \<longrightarrow> ts_current ops s1 = ts_current ops s \<longrightarrow>
      ts_watermark ops s1 = ts_watermark ops s \<longrightarrow>
      later ops inv W s1 (id s1) \<and> (\<exists>e'. in_step fuel ops W mt (id s1) e')"
    using in_step_same [OF s(1)] s(2) by (auto simp: later_refl)
  have bound: "ts_current ops s < 2 ^ 63" using s(3) by simp
  note keeps = refresh_attempt_keeps [OF s(1,2) assms(1) bound assms(2) [OF s(1)] peer run]
  obtain s1 where s1: "inv s1" "W s1 = W s" "ts_current ops s1 = ts_current ops s" "ts_watermark ops s1 = ts_watermark ops s"
    "s' = s1 \<or> (\<exists>us. stepped ops inv W s1 us s')" using keeps by auto
  have same: "later ops inv W s s1" using s1 by (simp add: later_def)
  have "later ops inv W s s'" using s1(5) same later_trans [OF same stepped_later] by blast
  moreover have "ts_current ops s' \<le> ts_current ops s + 1" using s1(3,5) by (auto simp: stepped_def)
  moreover have "r \<noteq> Inr None" using keeps in_step_same [OF s(1)] s(2) by auto
  then have "snd (refresh fuel ops sch mt (\<lambda>_. id) s) = s'"
    using run refresh_run by (metis snd_conv)
  ultimately show "later ops inv W s (snd (refresh fuel ops sch mt (\<lambda>_. id) s)) \<and>
      (\<exists>e'. in_step fuel ops W mt (snd (refresh fuel ops sch mt (\<lambda>_. id) s)) e') \<and>
      ts_current ops (snd (refresh fuel ops sch mt (\<lambda>_. id) s)) \<le> ts_current ops s + 1 \<and>
      followable fuel ops W env (mt_view mt) (snd (refresh fuel ops sch mt (\<lambda>_. id) s))"
    using keeps assms(2) by metis
qed

text \<open>Alone, a refresh makes the copy the view as it was when the refresh began.\<close>

lemma refresh_alone:
  assumes "inv s" "in_step fuel ops W mt s e" "mt_into mt \<noteq> mt_cursor_rel mt"
    and "ts_current ops s < 2 ^ 63" "followable fuel ops W env (mt_view mt) s"
    and law: "\<And>s1 rows. lawful (sch s1) no_behavior_check (refresh_patch mt e (ts_current ops s) rows) (mt_authority mt)"
  shows "\<exists>n s' v. refresh fuel ops sch mt (\<lambda>_. id) s = (Inr n, s') \<and> inv s' \<and>
    query_value fuel (mt_view mt) (contents ops s (ts_current ops s)) None None = Inr v \<and>
    (\<forall>t. now s' (mt_into mt) t = wsum v t) \<and> (\<exists>e'. in_step fuel ops W mt s' e')"
proof -
  obtain r s' where run: "refresh_attempt fuel ops sch mt id s = (r, s')" by fastforce
  have peer: "\<forall>s1. inv s1 \<longrightarrow> W s1 = W s \<longrightarrow> ts_current ops s1 = ts_current ops s \<longrightarrow>
      ts_watermark ops s1 = ts_watermark ops s \<longrightarrow>
      later ops inv W s1 (id s1) \<and> (\<exists>e'. in_step fuel ops W mt (id s1) e')"
    using in_step_same [OF assms(1)] assms(2) by (auto simp: later_refl)
  note keeps = refresh_attempt_keeps [OF assms(1-5) peer run]
  have "in_step fuel ops W mt s1 e" if "inv s1" "W s1 = W s" "ts_current ops s1 = ts_current ops s"
    "ts_watermark ops s1 = ts_watermark ops s" for s1
    using in_step_same [OF assms(1) that(1,2,4,3)] assms(2) by simp
  then have "r \<noteq> Inr None" using keeps by auto
  moreover have "r \<noteq> Inl x" for x using keeps law by blast
  ultimately obtain n where r: "r = Inr (Some n)" by (metis old.sum.exhaust option.exhaust)
  obtain e' where e': "in_step fuel ops W mt s' e'"
    "query_value fuel (mt_view mt) (contents ops s' e') None None =
      query_value fuel (mt_view mt) (contents ops s (ts_current ops s)) None None"
    using keeps r by blast
  obtain v where v: "query_value fuel (mt_view mt) (contents ops s' e') None None = Inr v"
    "\<forall>t. now s' (mt_into mt) t = wsum v t"
    using e'(1) unfolding in_step_def by blast
  have "refresh fuel ops sch mt (\<lambda>_. id) s = (Inr n, s')" using refresh_run [OF run] r by simp
  moreover have "inv s'" using keeps by blast
  ultimately show ?thesis using e' v by (intro exI [of _ n] exI [of _ s'] exI [of _ v]) auto
qed

end

end
