(* ===== verification/Gc.thy ===== *)
theory Gc
  imports On_Watch
begin

text \<open>
  The retention policy (\<^verbatim>\<open>grmpl-proc/src/gc.rs\<close>): history is consolidated no further than
  the least durable watch cursor, so that every installed watch can still be pumped.
\<close>

definition cursor_edition :: "tuple \<times> diff \<Rightarrow> edition option" where
  "cursor_edition = (\<lambda>(t, d).
     if d \<le> 0 then None
     else (case get t 1 of Some (VInt e) \<Rightarrow> Some (nat (sint e)) | _ \<Rightarrow> None))"

definition min_edition :: "edition option \<Rightarrow> edition \<Rightarrow> edition option" where
  "min_edition m e = Some (case m of None \<Rightarrow> e | Some m \<Rightarrow> min m e)"

definition min_rows :: "edition option \<Rightarrow> rows \<Rightarrow> edition option" where
  "min_rows m rows = foldl (\<lambda>m p. case cursor_edition p of None \<Rightarrow> m | Some e \<Rightarrow> min_edition m e) m rows"

fun min_cursors ::
  "'s trace_ops \<Rightarrow> 's \<Rightarrow> edition \<Rightarrow> rel_id list \<Rightarrow> edition option \<Rightarrow> edition option result" where
  "min_cursors ops s at [] m = Inr m"
| "min_cursors ops s at (rel # rels) m =
     rbind (ts_read_at ops s rel at) (\<lambda>rows. min_cursors ops s at rels (min_rows m rows))"

definition min_watch_cursor :: "'s trace_ops \<Rightarrow> 's \<Rightarrow> rel_id list \<Rightarrow> edition option result" where
  "min_watch_cursor ops s rels = min_cursors ops s (ts_current ops s) rels None"

definition consolidate_to :: "'s trace_ops \<Rightarrow> rel_id list \<Rightarrow> edition \<Rightarrow> ('s, edition) op" where
  "consolidate_to ops rels up_to =
     obind (oread (\<lambda>s. min_watch_cursor ops s rels)) (\<lambda>m.
       ts_consolidate ops (case m of Some c \<Rightarrow> min up_to c | None \<Rightarrow> up_to))"

section \<open>The policy keeps every watch pumpable\<close>

definition at_most :: "edition option \<Rightarrow> edition \<Rightarrow> bool" where
  "at_most m e \<longleftrightarrow> (\<exists>e'\<le>e. m = Some e')"

lemma at_most_simps [simp]: "\<not> at_most None e" "at_most (Some m) e \<longleftrightarrow> m \<le> e"
  by (auto simp: at_most_def)

lemma at_most_min_edition: "at_most (min_edition m x) e \<longleftrightarrow> at_most m e \<or> x \<le> e"
  by (cases m) (auto simp: min_edition_def)

lemma at_most_min_rows:
  "at_most (min_rows m rows) e \<longleftrightarrow> at_most m e \<or> (\<exists>p\<in>set rows. at_most (cursor_edition p) e)"
  by (induction rows arbitrary: m)
    (auto simp: min_rows_def at_most_min_edition split: option.split)

context trace_store
begin

lemma min_cursors_ok:
  assumes "inv s"
  shows "\<exists>m'. min_cursors ops s (ts_current ops s) rels m = Inr m' \<and>
    (\<forall>e. at_most m' e \<longleftrightarrow> at_most m e \<or>
      (\<exists>r\<in>set rels. \<exists>t x. 0 < now s r t \<and> get t 1 = Some (VInt x) \<and> nat (sint x) \<le> e))"
proof (induction rels arbitrary: m)
  case (Cons r rels)
  obtain rows where rows: "ts_read_at ops s r (ts_current ops s) = Inr rows" "canonical rows"
    "\<And>t. wsum rows t = now s r t" using read_now [OF assms] by blast
  have mem: "(t, d) \<in> set rows \<longleftrightarrow> d \<noteq> 0 \<and> now s r t = d" for t d
    using canonical_mem [OF rows(2)] rows(3) by auto
  have cell: "at_most (cursor_edition (t, d)) e \<longleftrightarrow>
      0 < d \<and> (\<exists>x. get t 1 = Some (VInt x) \<and> nat (sint x) \<le> e)" for t d e
    by (auto simp: cursor_edition_def split: option.split val.split)
  have one: "(\<exists>p\<in>set rows. at_most (cursor_edition p) e) \<longleftrightarrow>
      (\<exists>t x. 0 < now s r t \<and> get t 1 = Some (VInt x) \<and> nat (sint x) \<le> e)" for e
  proof
    assume "\<exists>p\<in>set rows. at_most (cursor_edition p) e"
    then show "\<exists>t x. 0 < now s r t \<and> get t 1 = Some (VInt x) \<and> nat (sint x) \<le> e"
      using mem cell by (metis surj_pair)
  next
    assume "\<exists>t x. 0 < now s r t \<and> get t 1 = Some (VInt x) \<and> nat (sint x) \<le> e"
    then obtain t x where t: "0 < now s r t" "get t 1 = Some (VInt x)" "nat (sint x) \<le> e" by blast
    then have "(t, now s r t) \<in> set rows" by (simp add: mem)
    then show "\<exists>p\<in>set rows. at_most (cursor_edition p) e" using t cell by blast
  qed
  obtain m' where m': "min_cursors ops s (ts_current ops s) rels (min_rows m rows) = Inr m'"
    "\<And>e. at_most m' e \<longleftrightarrow> at_most (min_rows m rows) e \<or>
      (\<exists>r\<in>set rels. \<exists>t x. 0 < now s r t \<and> get t 1 = Some (VInt x) \<and> nat (sint x) \<le> e)"
    using Cons.IH by blast
  then show ?case by (auto simp: rows(1) at_most_min_rows one)
qed simp

lemma consolidate_to_ok:
  assumes "inv s"
  shows "\<exists>wm s'. consolidate_to ops rels up_to s = (Inr wm, s') \<and> inv s' \<and> ts_watermark ops s' = wm \<and>
    ts_current ops s' = ts_current ops s \<and> ts_watermark ops s \<le> wm \<and>
    (\<forall>r e t. wm \<le> e \<longrightarrow> W s' r e t = W s r e t) \<and>
    (\<forall>rel\<in>set rels. \<forall>key c. frontier_stands (now s) rel key c \<longrightarrow> ts_watermark ops s \<le> c \<longrightarrow> wm \<le> c)"
proof -
  obtain m where m: "min_watch_cursor ops s rels = Inr m"
    "\<And>e. at_most m e \<longleftrightarrow>
      (\<exists>r\<in>set rels. \<exists>t x. 0 < now s r t \<and> get t 1 = Some (VInt x) \<and> nat (sint x) \<le> e)"
    using min_cursors_ok [OF assms, of rels None] by (auto simp: min_watch_cursor_def)
  let ?up = "case m of Some c \<Rightarrow> min up_to c | None \<Rightarrow> up_to"
  obtain wm s' where c: "ts_consolidate ops ?up s = (Inr wm, s')" "inv s'" "wm = ts_watermark ops s'"
    "ts_watermark ops s \<le> wm" "wm \<le> max (ts_watermark ops s) ?up" "ts_current ops s' = ts_current ops s"
    "\<forall>r e' t. wm \<le> e' \<longrightarrow> W s' r e' t = W s r e' t" using consolidate [OF assms] by blast
  have "wm \<le> e" if "rel \<in> set rels" "frontier_stands (now s) rel key e" "ts_watermark ops s \<le> e" for rel key e
  proof -
    have e: "e < 2 ^ 63" "now s rel (frontier_tuple key e) = 1"
      using that(2) by (auto simp: frontier_stands_def)
    have "at_most m e"
      unfolding m(2)
      by (intro bexI [OF _ that(1)] exI [of _ "frontier_tuple key e"] exI [of _ "word_of_nat e"])
        (simp_all add: e(2) sint_edition [OF e(1)])
    then have "?up \<le> e" by (auto simp: at_most_def)
    then show ?thesis using c(5) that(3) by simp
  qed
  moreover have "consolidate_to ops rels up_to s = (Inr wm, s')"
    using c(1) m(1) by (simp add: consolidate_to_def obind_oread_Inr)
  ultimately show ?thesis using c by blast
qed

end

end
