(* ===== verification/Transport.thy ===== *)
theory Transport
  imports Values
begin

text \<open>
  The cross-domain transport (\<^verbatim>\<open>grmpl-core/src/transport.rs\<close>) and its in-process
  implementation (\<^verbatim>\<open>grmpl-transport/src/inproc.rs\<close>). The interface is the locale
  \<open>transport\<close>; the in-process network is shown to be one.
\<close>

section \<open>The trait\<close>

type_synonym parcel = "domain_id \<times> bytes"

record 'n transport_ops =
  tp_send :: "domain_id \<Rightarrow> bytes \<Rightarrow> ('n, unit) op"
  tp_poll :: "('n, parcel option) op"

text \<open>
  What its users rely on, for the endpoint of \<open>self\<close>: a parcel sent to a routed domain is
  put at the end of that domain's queue, marked with its sender; one sent elsewhere is
  refused; a poll takes the head of one's own queue.
\<close>

locale transport =
  fixes tp :: "'n transport_ops"
    and self :: domain_id
    and ok :: "'n \<Rightarrow> bool"
    and queue :: "'n \<Rightarrow> domain_id \<Rightarrow> parcel list option"
  assumes own_queue: "ok n \<Longrightarrow> queue n self \<noteq> None"
    and send_routed: "ok n \<Longrightarrow> queue n d = Some q \<Longrightarrow>
      \<exists>n'. tp_send tp d payload n = (Inr (), n') \<and> ok n' \<and>
        queue n' = (queue n)(d \<mapsto> q @ [(self, payload)])"
    and send_unrouted: "ok n \<Longrightarrow> queue n d = None \<Longrightarrow>
      \<exists>m. tp_send tp d payload n = (Inl (Err (EStore m)), n)"
    and poll_empty: "ok n \<Longrightarrow> queue n self = Some [] \<Longrightarrow> tp_poll tp n = (Inr None, n)"
    and poll_next: "ok n \<Longrightarrow> queue n self = Some (x # q) \<Longrightarrow>
      \<exists>n'. tp_poll tp n = (Inr (Some x), n') \<and> ok n' \<and> queue n' = (queue n)(self \<mapsto> q)"

section \<open>The in-process network\<close>

text \<open>
  The hub maps a domain to the sending half of a channel. A channel is named by its place in
  \<open>np_channels\<close>; it is \<open>None\<close> once the endpoint that holds its receiving half is dropped.
\<close>

record inproc_net =
  np_queues :: "domain_id \<rightharpoonup> nat"
  np_channels :: "parcel list option list"

record inproc_endpoint =
  ip_domain :: domain_id
  ip_rx :: nat

definition inproc_new :: inproc_net where
  "inproc_new = \<lparr>np_queues = (\<lambda>_. None), np_channels = []\<rparr>"

definition inproc_endpoint :: "domain_id \<Rightarrow> inproc_net \<Rightarrow> inproc_endpoint \<times> inproc_net" where
  "inproc_endpoint d net =
     (let c = length (np_channels net) in
      (\<lparr>ip_domain = d, ip_rx = c\<rparr>,
       \<lparr>np_queues = (np_queues net)(d \<mapsto> c), np_channels = np_channels net @ [Some []]\<rparr>))"

definition endpoint_drop :: "inproc_endpoint \<Rightarrow> inproc_net \<Rightarrow> inproc_net" where
  "endpoint_drop ep net = net\<lparr>np_channels := (np_channels net)[ip_rx ep := None]\<rparr>"

definition inproc_send :: "inproc_endpoint \<Rightarrow> domain_id \<Rightarrow> bytes \<Rightarrow> (inproc_net, unit) op" where
  "inproc_send ep to payload = (\<lambda>net.
     case np_queues net to of
       None \<Rightarrow> (Inl (Err (EStore ''no route to domain'')), net)
     | Some c \<Rightarrow>
         (case np_channels net ! c of
            None \<Rightarrow> (Inl (Err (EStore ''sending on a closed channel'')), net)
          | Some q \<Rightarrow> (Inr (), net\<lparr>np_channels := (np_channels net)[c := Some (q @ [(ip_domain ep, payload)])]\<rparr>)))"

definition inproc_poll :: "inproc_endpoint \<Rightarrow> (inproc_net, parcel option) op" where
  "inproc_poll ep = (\<lambda>net.
     case np_channels net ! ip_rx ep of
       Some (x # q) \<Rightarrow> (Inr (Some x), net\<lparr>np_channels := (np_channels net)[ip_rx ep := Some q]\<rparr>)
     | _ \<Rightarrow> (Inr None, net))"

definition inproc_transport :: "inproc_endpoint \<Rightarrow> inproc_net transport_ops" where
  "inproc_transport ep = \<lparr>tp_send = inproc_send ep, tp_poll = inproc_poll ep\<rparr>"

section \<open>It is a transport\<close>

text \<open>
  A well-formed hub: every registered domain has a channel of its own. The endpoint is live
  when the hub still routes its domain to it and it has not been dropped.
\<close>

definition net_ok :: "inproc_net \<Rightarrow> bool" where
  "net_ok net \<longleftrightarrow> (\<forall>d c. np_queues net d = Some c \<longrightarrow> c < length (np_channels net)) \<and>
     (\<forall>d d' c. np_queues net d = Some c \<longrightarrow> np_queues net d' = Some c \<longrightarrow> d = d')"

definition endpoint_live :: "inproc_endpoint \<Rightarrow> inproc_net \<Rightarrow> bool" where
  "endpoint_live ep net \<longleftrightarrow> net_ok net \<and> np_queues net (ip_domain ep) = Some (ip_rx ep) \<and>
     np_channels net ! ip_rx ep \<noteq> None"

definition net_queue :: "inproc_net \<Rightarrow> domain_id \<Rightarrow> parcel list option" where
  "net_queue net d = (case np_queues net d of None \<Rightarrow> None | Some c \<Rightarrow> np_channels net ! c)"

lemma net_ok_new [simp]: "net_ok inproc_new"
  by (simp add: net_ok_def inproc_new_def)

lemma endpoint_fresh:
  assumes "net_ok net" and "inproc_endpoint d net = (ep, net')"
  shows "net_ok net'" "endpoint_live ep net'" "net_queue net' = (net_queue net)(d \<mapsto> [])" "ip_domain ep = d"
proof -
  let ?c = "length (np_channels net)"
  have ep: "ep = \<lparr>ip_domain = d, ip_rx = ?c\<rparr>"
    and net': "net' = \<lparr>np_queues = (np_queues net)(d \<mapsto> ?c), np_channels = np_channels net @ [Some []]\<rparr>"
    using assms(2) by (simp_all add: inproc_endpoint_def Let_def)
  have bound: "c < ?c" if "np_queues net d' = Some c" for d' c using assms(1) that by (auto simp: net_ok_def)
  have fresh: "np_queues net d' \<noteq> Some ?c" for d' using bound by blast
  show ok: "net_ok net'"
    using assms(1) fresh by (auto simp: net' net_ok_def less_SucI)
  show "endpoint_live ep net'" using ok by (simp add: ep net' endpoint_live_def)
  show "net_queue net' = (net_queue net)(d \<mapsto> [])"
    using bound by (auto simp: net' net_queue_def fun_eq_iff nth_append split: option.splits)
  show "ip_domain ep = d" by (simp add: ep)
qed

text \<open>Writing one channel changes the queue of its own domain and of no other.\<close>

lemma channel_put:
  assumes "net_ok net" "np_queues net d = Some c"
  shows "net_ok (net\<lparr>np_channels := (np_channels net)[c := x]\<rparr>)"
    "net_queue (net\<lparr>np_channels := (np_channels net)[c := x]\<rparr>) = (net_queue net)(d := x)"
proof -
  have c: "c < length (np_channels net)" and inj: "\<And>d'. np_queues net d' = Some c \<Longrightarrow> d' = d"
    using assms by (auto simp: net_ok_def)
  show "net_ok (net\<lparr>np_channels := (np_channels net)[c := x]\<rparr>)"
    using assms(1) by (simp add: net_ok_def)
  show "net_queue (net\<lparr>np_channels := (np_channels net)[c := x]\<rparr>) = (net_queue net)(d := x)"
  proof
    fix e
    have "k \<noteq> c" if "e \<noteq> d" "np_queues net e = Some k" for k using inj [of e] that by blast
    then show "net_queue (net\<lparr>np_channels := (np_channels net)[c := x]\<rparr>) e = ((net_queue net)(d := x)) e"
      using c assms(2) by (cases "e = d"; cases "np_queues net e") (simp_all add: net_queue_def)
  qed
qed

lemma endpoint_live_put:
  assumes "endpoint_live ep net" "np_queues net d = Some c"
  shows "endpoint_live ep (net\<lparr>np_channels := (np_channels net)[c := Some q]\<rparr>)"
proof -
  have "ip_rx ep < length (np_channels net)" "net_ok net"
    using assms(1) by (auto simp: endpoint_live_def net_ok_def)
  then show ?thesis
    using assms channel_put(1) [OF _ assms(2)]
    by (cases "ip_rx ep = c") (auto simp: endpoint_live_def nth_list_update)
qed

text \<open>Several endpoints share the hub; none is disturbed by another's sends and polls.\<close>

definition endpoints_live :: "inproc_endpoint set \<Rightarrow> inproc_net \<Rightarrow> bool" where
  "endpoints_live E net \<longleftrightarrow> (\<forall>ep\<in>E. endpoint_live ep net)"

lemma endpoints_live_put:
  "endpoints_live E net \<Longrightarrow> np_queues net d = Some c \<Longrightarrow>
   endpoints_live E (net\<lparr>np_channels := (np_channels net)[c := Some q]\<rparr>)"
  by (simp add: endpoints_live_def endpoint_live_put)

lemma inproc_is_transport:
  assumes "ep \<in> E"
  shows "transport (inproc_transport ep) (ip_domain ep) (endpoints_live E) net_queue"
proof
  have live: "endpoint_live ep n" if "endpoints_live E n" for n
    using that assms by (simp add: endpoints_live_def)
  show "net_queue n (ip_domain ep) \<noteq> None" if "endpoints_live E n" for n
    using live [OF that] by (simp add: endpoint_live_def net_queue_def)
  show "\<exists>n'. tp_send (inproc_transport ep) d payload n = (Inr (), n') \<and> endpoints_live E n' \<and>
      net_queue n' = (net_queue n)(d \<mapsto> q @ [(ip_domain ep, payload)])"
    if l: "endpoints_live E n" and q: "net_queue n d = Some q" for n d q payload
  proof -
    obtain c where c: "np_queues n d = Some c" "np_channels n ! c = Some q"
      using q by (auto simp: net_queue_def split: option.splits)
    then show ?thesis
      using live [OF l] endpoints_live_put [OF l c(1)] channel_put(2) [OF _ c(1)]
      by (simp add: inproc_transport_def inproc_send_def endpoint_live_def)
  qed
  show "\<exists>m. tp_send (inproc_transport ep) d payload n = (Inl (Err (EStore m)), n)"
    if "endpoints_live E n" "net_queue n d = None" for n d payload
    using that by (auto simp: net_queue_def inproc_transport_def inproc_send_def split: option.splits)
  show "tp_poll (inproc_transport ep) n = (Inr None, n)"
    if "endpoints_live E n" "net_queue n (ip_domain ep) = Some []" for n
    using live [OF that(1)] that(2) by (auto simp: net_queue_def inproc_transport_def inproc_poll_def endpoint_live_def)
  show "\<exists>n'. tp_poll (inproc_transport ep) n = (Inr (Some x), n') \<and> endpoints_live E n' \<and>
      net_queue n' = (net_queue n)(ip_domain ep \<mapsto> q)"
    if l: "endpoints_live E n" and q: "net_queue n (ip_domain ep) = Some (x # q)" for n x q
  proof -
    have c: "np_queues n (ip_domain ep) = Some (ip_rx ep)" using live [OF l] by (simp add: endpoint_live_def)
    then have "np_channels n ! ip_rx ep = Some (x # q)" using q by (simp add: net_queue_def)
    then show ?thesis
      using live [OF l] endpoints_live_put [OF l c] channel_put(2) [OF _ c]
      by (simp add: inproc_transport_def inproc_poll_def endpoint_live_def)
  qed
qed

interpretation inproc: transport "inproc_transport ep" "ip_domain ep" "endpoints_live (insert ep E)" net_queue for ep E
  by (rule inproc_is_transport) simp

end
