(* ===== verification/Domain.thy ===== *)
theory Domain
  imports Mailbox Transport
begin

text \<open>
  Cross-domain routing (\<^verbatim>\<open>grmpl-proc/src/domain.rs\<close>): a commit writes its remote
  messages into a durable outbox together with everything else, a flush ships the outbox, and
  a receiver applies each message once by the pair of sender and sequence number.
\<close>

section \<open>Envelopes\<close>

definition encode_envelope :: "i64 \<Rightarrow> message \<Rightarrow> bytes" where
  "encode_envelope seq m = be_bytes 8 (unat seq) @ encode_message m"

definition decode_envelope :: "bytes \<Rightarrow> (i64 \<times> message) result" where
  "decode_envelope bs =
     (if length bs < 8 then Inl (codec ''envelope shorter than seq header'')
      else rbind (decode_message (drop 8 bs)) (\<lambda>m. Inr (word_of_nat (be_value (take 8 bs)), m)))"

lemma decode_envelope_encode:
  "tuple_encodable (m_body m) \<Longrightarrow> decode_envelope (encode_envelope seq m) = Inr (seq, m)"
proof -
  have "unat seq < 2 ^ LENGTH(64)" by (rule unsigned_less)
  then show "tuple_encodable (m_body m) \<Longrightarrow> decode_envelope (encode_envelope seq m) = Inr (seq, m)"
    by (simp add: encode_envelope_def decode_envelope_def be_value_be_bytes decode_message_encode)
qed

lemma codec_only_decode_envelope: "codec_only (decode_envelope bs)"
  by (auto simp: decode_envelope_def intro!: codec_only_rbind codec_only_decode_message)

section \<open>The domain\<close>

record 'n domain =
  dm_id :: domain_id
  dm_transport :: "'n transport_ops"
  dm_routes :: "rel_id \<rightharpoonup> domain_id"
  dm_outbox :: rel_id
  dm_outseq :: rel_id
  dm_seen :: rel_id

definition is_remote :: "'n domain \<Rightarrow> rel_id \<Rightarrow> domain_id option" where
  "is_remote dm inbox = (case dm_routes dm inbox of
     Some d \<Rightarrow> if d \<noteq> dm_id dm then Some d else None | None \<Rightarrow> None)"

fun all_hold :: "'s trace_ops \<Rightarrow> 's \<Rightarrow> precond list \<Rightarrow> bool result" where
  "all_hold ops s [] = Inr True"
| "all_hold ops s ((rel, tuple) # ps) =
     rbind (ts_read_at ops s rel (ts_current ops s)) (\<lambda>rows.
       if \<exists>(t, d)\<in>set rows. d > 0 \<and> t = tuple then all_hold ops s ps else Inr False)"

definition seed_outseq :: "'s trace_ops \<Rightarrow> 'n domain \<Rightarrow> ('s, unit) op" where
  "seed_outseq ops dm =
     obind (oread (\<lambda>s. seq_read ops s (dm_outseq dm) [])) (\<lambda>a.
       let asserts = p_asserts (seq_seed a patch_new) in
       if asserts \<noteq> [] then obind (ts_commit ops (signed 1 asserts)) (\<lambda>_. oret ()) else oret ())"

definition seen_tuple :: "domain_id \<Rightarrow> i64 \<Rightarrow> tuple" where
  "seen_tuple sender seq = [VInt sender, VInt seq]"

definition seen_holds :: "'s trace_ops \<Rightarrow> 's \<Rightarrow> 'n domain \<Rightarrow> domain_id \<Rightarrow> i64 \<Rightarrow> bool result" where
  "seen_holds ops s dm sender seq =
     rbind (ts_read_at ops s (dm_seen dm) (ts_current ops s)) (\<lambda>rows.
       Inr (\<exists>(t, d)\<in>set rows. d > 0 \<and> t = seen_tuple sender seq))"

section \<open>Committing with remote messages\<close>

type_synonym remote = "domain_id \<times> rel_id \<times> tuple"

definition local_updates :: "'n domain \<Rightarrow> message list \<Rightarrow> upd list" where
  "local_updates dm ms =
     map (\<lambda>m. (m_inbox m, m_body m, 1)) (filter (\<lambda>m. is_remote dm (m_inbox m) = None) ms)"

fun remote_emits :: "'n domain \<Rightarrow> message list \<Rightarrow> remote list" where
  "remote_emits dm [] = []"
| "remote_emits dm (m # ms) = (case is_remote dm (m_inbox m) of
     None \<Rightarrow> remote_emits dm ms
   | Some target \<Rightarrow> (target, m_inbox m, m_body m) # remote_emits dm ms)"

definition outbox_row :: "i64 \<Rightarrow> domain_id \<Rightarrow> rel_id \<Rightarrow> tuple \<Rightarrow> tuple" where
  "outbox_row seq target inbox body = [VInt seq, VInt target, VInt (ucast inbox), VTuple body]"

fun draw_rows :: "rel_id \<Rightarrow> seq_alloc \<Rightarrow> remote list \<Rightarrow> upd list \<times> seq_alloc" where
  "draw_rows outbox a [] = ([], a)"
| "draw_rows outbox a ((target, inbox, body) # rs) =
     (case seq_fresh a of (seq, a) \<Rightarrow>
      case draw_rows outbox a rs of (us, a) \<Rightarrow>
        ((outbox, outbox_row seq target inbox body, 1) # us, a))"

text \<open>
  One turn of the loop: \<open>peers (2 * k)\<close> are what other writers did since the allocator read
  its counter, \<open>peers (2 * k + 1)\<close> what they did between a rejection and \<open>all_hold\<close>.
\<close>

definition domain_attempt ::
  "'s trace_ops \<Rightarrow> 'n domain \<Rightarrow> precond list \<Rightarrow> upd list \<Rightarrow> remote list \<Rightarrow> 's peers \<Rightarrow> nat \<Rightarrow>
   ('s, commit_outcome option) op" where
  "domain_attempt ops dm pre us remotes peers k =
     obind (oread (\<lambda>s. seq_read ops s (dm_outseq dm) [])) (\<lambda>alloc.
     obind (opause (peers (2 * k))) (\<lambda>_.
       case draw_rows (dm_outbox dm) alloc remotes of (rows, alloc) \<Rightarrow>
       let sp = seq_seal alloc patch_new in
       obind (ts_commit_if ops (pre @ patch_preconditions sp)
           (us @ rows @ signed (-1) (p_retracts sp) @ signed 1 (p_asserts sp))) (\<lambda>r.
         case r of
           Some e \<Rightarrow> oret (Some (Committed e))
         | None \<Rightarrow>
             obind (opause (peers (2 * k + 1))) (\<lambda>_.
             obind (oread (\<lambda>s. all_hold ops s pre)) (\<lambda>held.
               oret (if held then None else Some Rejected))))))"

definition domain_commit ::
  "'s trace_ops \<Rightarrow> ('s \<Rightarrow> schemas) \<Rightarrow> 'n domain \<Rightarrow> patch \<Rightarrow> authority \<Rightarrow> 's peers \<Rightarrow> ('s, commit_outcome) op" where
  "domain_commit ops sch dm p a peers =
     obind (oread (\<lambda>s. check_patch (sch s) no_behavior_check p a)) (\<lambda>ck.
       let us = ck_writes ck @ local_updates dm (p_emits p) @ ck_rest ck;
           remotes = remote_emits dm (p_emits p) in
       if remotes = [] then obind (ts_commit_if ops (ck_preconditions ck) us) (\<lambda>r. oret (outcome_of r))
       else retry_loop 64 0 (domain_attempt ops dm (ck_preconditions ck) us remotes peers) (oret Rejected))"

section \<open>Shipping and receiving\<close>

text \<open>Operations of the store and of the network, on the pair of the two.\<close>

definition on_store :: "('s, 'a) op \<Rightarrow> ('s \<times> 'n, 'a) op" where
  "on_store m = (\<lambda>(s, n). case m s of (r, s') \<Rightarrow> (r, (s', n)))"

definition on_net :: "('n, 'a) op \<Rightarrow> ('s \<times> 'n, 'a) op" where
  "on_net m = (\<lambda>(s, n). case m n of (r, n') \<Rightarrow> (r, (s, n')))"

definition outbox_cells :: "tuple \<Rightarrow> (i64 \<times> domain_id \<times> rel_id \<times> tuple) option" where
  "outbox_cells row = (case (get row 0, get row 1, get row 2, get row 3) of
     (Some (VInt seq), Some (VInt t), Some (VInt ib), Some (VTuple b)) \<Rightarrow> Some (seq, t, ucast ib, b)
   | _ \<Rightarrow> None)"

fun ship_rows :: "'s trace_ops \<Rightarrow> 'n domain \<Rightarrow> rows \<Rightarrow> nat \<Rightarrow> ('s \<times> 'n, nat) op" where
  "ship_rows ops dm [] n = oret n"
| "ship_rows ops dm ((row, d) # rows) n =
     (if d \<le> 0 then ship_rows ops dm rows n
      else case outbox_cells row of
        None \<Rightarrow> ofail (codec ''malformed outbox row'')
      | Some (seq, target, inbox, body) \<Rightarrow>
          obind (on_net (tp_send (dm_transport dm) target
              (encode_envelope seq \<lparr>m_inbox = inbox, m_body = body\<rparr>))) (\<lambda>_.
          obind (on_store (ts_commit ops [(dm_outbox dm, row, -1)])) (\<lambda>_.
            ship_rows ops dm rows (n + 1))))"

definition flush_outbox :: "'s trace_ops \<Rightarrow> 'n domain \<Rightarrow> ('s \<times> 'n, nat) op" where
  "flush_outbox ops dm =
     obind (on_store (oread (\<lambda>s. ts_read_at ops s (dm_outbox dm) (ts_current ops s)))) (\<lambda>rows.
       ship_rows ops dm rows 0)"

text \<open>The drain of the transport, cut after \<open>fuel\<close> polls.\<close>

fun receive :: "nat \<Rightarrow> 's trace_ops \<Rightarrow> 'n domain \<Rightarrow> nat \<Rightarrow> ('s \<times> 'n, nat) op" where
  "receive 0 ops dm n = ofail OutOfFuel"
| "receive (Suc fuel) ops dm n =
     obind (on_net (tp_poll (dm_transport dm))) (\<lambda>p. case p of
       None \<Rightarrow> oret n
     | Some (sender, payload) \<Rightarrow>
         (case decode_envelope payload of
            Inl e \<Rightarrow> ofail e
          | Inr (seq, msg) \<Rightarrow>
              obind (on_store (oread (\<lambda>s. seen_holds ops s dm sender seq))) (\<lambda>seen.
                if seen then receive fuel ops dm n
                else obind (on_store (ts_commit ops
                    [(m_inbox msg, m_body msg, 1), (dm_seen dm, seen_tuple sender seq, 1)])) (\<lambda>_.
                  receive fuel ops dm (n + 1)))))"

definition outbox_len :: "'s trace_ops \<Rightarrow> 's \<Rightarrow> rel_id \<Rightarrow> edition \<Rightarrow> nat result" where
  "outbox_len ops s outbox at =
     rbind (ts_read_at ops s outbox at) (\<lambda>rows. Inr (length (filter (\<lambda>(_, d). d > 0) rows)))"

end
