(* ===== verification/Domain_Laws.thy ===== *)
theory Domain_Laws
  imports Domain
begin

text \<open>
  What cross-domain messaging promises. The outbox is a queue of numbered messages: a commit
  appends, a flush ships from the front. The receiver applies each numbered message once,
  however often it is delivered.
\<close>

section \<open>The outbox as a queue\<close>

type_synonym pending = "(nat \<times> remote) list"

definition pending_rows :: "pending \<Rightarrow> rows" where
  "pending_rows ps = map (\<lambda>(x, target, inbox, body). (outbox_row (word_of_nat x) target inbox body, 1)) ps"

definition outbox_holds :: "(rel_id \<Rightarrow> tuple \<Rightarrow> diff) \<Rightarrow> 'n domain \<Rightarrow> pending \<Rightarrow> nat \<Rightarrow> bool" where
  "outbox_holds w dm ps n \<longleftrightarrow> sorted_wrt (<) (map fst ps) \<and> (\<forall>x\<in>set ps. fst x < n) \<and> n < 2 ^ 63 \<and>
     (\<forall>t. w (dm_outbox dm) t = wsum (pending_rows ps) t) \<and>
     counter w (dm_outseq dm) [] (word_of_nat n) \<and> dm_outbox dm \<noteq> dm_outseq dm"

lemma ucast_inbox [simp]: "ucast (ucast i :: i64) = (i :: rel_id)"
  by (rule ucast_up_ucast_id) (simp add: is_up)

lemma ucast_inbox_inject [simp]: "(ucast i :: i64) = ucast j \<longleftrightarrow> i = (j :: rel_id)"
  by (metis ucast_inbox)

lemma outbox_row_inject [simp]:
  "outbox_row x t i b = outbox_row x' t' i' b' \<longleftrightarrow> x = x' \<and> t = t' \<and> i = i' \<and> b = b'"
  by (simp add: outbox_row_def)

lemma outbox_cells_row [simp]: "outbox_cells (outbox_row x t i b) = Some (x, t, i, b)"
  by (simp add: outbox_cells_def outbox_row_def get_def)

lemma sint_word_of_nat: "n < 2 ^ 63 \<Longrightarrow> sint (word_of_nat n :: i64) = int n"
  by (simp add: signed_of_nat signed_take_bit_int_eq_self)

lemma pending_rows_canonical:
  "sorted_wrt (<) (map fst ps) \<Longrightarrow> \<forall>x\<in>set ps. fst x < 2 ^ 63 \<Longrightarrow> canonical (pending_rows ps)"
proof (induction ps)
  case (Cons p ps)
  have "fst p < 2 ^ 63" using Cons.prems by simp
  then have "outbox_row (word_of_nat (fst p)) t i b < outbox_row (word_of_nat (fst q)) t' i' b'"
    if "q \<in> set ps" for q t i b t' i' b'
    using Cons.prems that by (simp add: outbox_row_def sint_word_of_nat)
  moreover have "canonical (pending_rows ps)" using Cons by simp
  ultimately show ?case
    by (cases p) (auto simp: pending_rows_def canonical_def osorted_Cons nonzero_def)
qed (simp add: pending_rows_def)

lemma outbox_rows:
  assumes "outbox_holds w dm ps n" "canonical rows" "\<And>t. wsum rows t = w (dm_outbox dm) t"
  shows "rows = pending_rows ps"
proof (rule canonical_ext [OF assms(2)])
  show "canonical (pending_rows ps)"
    using assms(1) by (intro pending_rows_canonical) (auto simp: outbox_holds_def)
  show "wsum rows t = wsum (pending_rows ps) t" for t
    using assms(1,3) by (simp add: outbox_holds_def)
qed

text \<open>The rows a commit draws, and the queue after it.\<close>

fun numbered :: "nat \<Rightarrow> remote list \<Rightarrow> pending" where
  "numbered n [] = []"
| "numbered n (r # rs) = (n, r) # numbered (Suc n) rs"

definition row_updates :: "rel_id \<Rightarrow> rows \<Rightarrow> upd list" where
  "row_updates r rows = map (\<lambda>(t, d). (r, t, d)) rows"

lemma upd_weight_row_updates [simp]:
  "upd_weight (row_updates r rows) r' t = (if r' = r then wsum rows t else 0)"
  by (induction rows) (auto simp: row_updates_def)

lemma numbered_fst [simp]: "map fst (numbered n rs) = [n..<n + length rs]"
  by (induction rs arbitrary: n) (simp_all add: upt_rec)

lemma numbered_bounds: "x \<in> set (numbered n rs) \<Longrightarrow> n \<le> fst x \<and> fst x < n + length rs"
  by (induction rs arbitrary: n) fastforce+

lemma pending_rows_append [simp]: "pending_rows (ps @ qs) = pending_rows ps @ pending_rows qs"
  by (simp add: pending_rows_def)

lemma draw_rows_numbered:
  assumes "seq_peek a = word_of_nat n"
  shows "draw_rows outbox a rs =
    (row_updates outbox (pending_rows (numbered n rs)), a\<lparr>sq_n := sq_n a + word_of_nat (length rs)\<rparr>)"
  using assms
proof (induction rs arbitrary: a n)
  case (Cons r rs)
  obtain target inbox body where r: "r = (target, inbox, body)" by (cases r)
  have "seq_peek (a\<lparr>sq_n := sq_n a + 1\<rparr>) = word_of_nat (Suc n)"
    using Cons.prems by (simp add: seq_peek_def algebra_simps)
  from Cons.IH [OF this] Cons.prems show ?case
    by (simp add: r seq_fresh_def seq_peek_def row_updates_def pending_rows_def algebra_simps)
qed (simp add: row_updates_def pending_rows_def)

definition outbox_updates :: "'n domain \<Rightarrow> nat \<Rightarrow> remote list \<Rightarrow> upd list" where
  "outbox_updates dm n rs = row_updates (dm_outbox dm) (pending_rows (numbered n rs)) @
     [(dm_outseq dm, [VInt (word_of_nat n)], -1), (dm_outseq dm, [VInt (word_of_nat (n + length rs))], 1)]"

definition spares_outbox :: "'n domain \<Rightarrow> upd list \<Rightarrow> bool" where
  "spares_outbox dm us \<longleftrightarrow> (\<forall>(r, t, d)\<in>set us. r \<noteq> dm_outbox dm \<and> r \<noteq> dm_outseq dm)"

lemma spares_outbox_weight:
  "spares_outbox dm us \<Longrightarrow> r = dm_outbox dm \<or> r = dm_outseq dm \<Longrightarrow> upd_weight us r t = 0"
  by (induction us) (auto simp: spares_outbox_def)

lemma word_of_nat_inject63:
  "a < 2 ^ 63 \<Longrightarrow> b < 2 ^ 63 \<Longrightarrow> (word_of_nat a :: i64) = word_of_nat b \<longleftrightarrow> a = b"
  by (metis word_of_length)

lemma outbox_holds_commit:
  assumes "outbox_holds w dm ps n" "n + length rs < 2 ^ 63" "rs \<noteq> []" "spares_outbox dm us"
    and "\<And>r t. w' r t = w r t + upd_weight (us @ outbox_updates dm n rs) r t"
  shows "outbox_holds w' dm (ps @ numbered n rs) (n + length rs)"
proof -
  have fresh: "\<forall>x\<in>set (numbered n rs). n \<le> fst x \<and> fst x < n + length rs"
    using numbered_bounds by blast
  have "sorted_wrt (<) (map fst (ps @ numbered n rs))"
    using assms(1) fresh by (auto simp: outbox_holds_def sorted_wrt_append)
  moreover have "w' (dm_outbox dm) t = wsum (pending_rows (ps @ numbered n rs)) t" for t
    using assms(1) spares_outbox_weight [OF assms(4)] by (auto simp: assms(5) outbox_holds_def outbox_updates_def)
  moreover have "counter w' (dm_outseq dm) [] (word_of_nat (n + length rs))"
    using assms(1-3) spares_outbox_weight [OF assms(4)]
    by (auto simp: assms(5) outbox_holds_def outbox_updates_def counter_def word_of_nat_inject63
        simp del: of_nat_add)
  ultimately show ?thesis
    using assms(1,2) fresh by (auto simp: outbox_holds_def)
qed

section \<open>Committing with remote messages\<close>

text \<open>Where a store can get when only the peers write.\<close>

definition drifts :: "'s peers \<Rightarrow> 's \<Rightarrow> 's \<Rightarrow> bool" where
  "drifts peers = (\<lambda>s t. \<exists>k. t = peers k s)\<^sup>*\<^sup>*"

lemma drifts_refl [simp]: "drifts peers s s"
  by (simp add: drifts_def)

lemma drifts_step: "drifts peers (peers k s) t \<Longrightarrow> drifts peers s t"
  unfolding drifts_def by (rule converse_rtranclp_into_rtranclp) blast

lemma drifts_one: "drifts peers s (peers k s)"
  by (rule drifts_step [of _ k]) simp

text \<open>Peers that use the same outbox: they append and flush, and number below the bound.\<close>

definition outbox_peers ::
  "'s trace_ops \<Rightarrow> ('s \<Rightarrow> bool) \<Rightarrow> ('s \<Rightarrow> rel_id \<Rightarrow> edition \<Rightarrow> tuple \<Rightarrow> diff) \<Rightarrow> 'n domain \<Rightarrow> nat \<Rightarrow> 's peers \<Rightarrow> bool" where
  "outbox_peers ops I W dm room peers \<longleftrightarrow>
     (\<forall>k s. I s \<and> (\<exists>ps n. outbox_holds (world_now ops W s) dm ps n \<and> n + room < 2 ^ 63) \<longrightarrow>
        I (peers k s) \<and> (\<exists>ps n. outbox_holds (world_now ops W (peers k s)) dm ps n \<and> n + room < 2 ^ 63))"

text \<open>The local part of a patch, as the boundary writes it.\<close>

definition domain_updates :: "'n domain \<Rightarrow> patch \<Rightarrow> upd list" where
  "domain_updates dm p = signed 1 (p_asserts p) @ signed (-1) (p_retracts p) @
     local_updates dm (p_emits p) @ signed 1 (timer_facts p) @ cursor_updates (p_cursor_advance p)"

text \<open>
  Why an attempt can fail: peers have brought the store to a state where a precondition of the
  patch does not hold, or where the counter is no longer at \<open>n\<close>.
\<close>

definition contended ::
  "'s trace_ops \<Rightarrow> ('s \<Rightarrow> rel_id \<Rightarrow> edition \<Rightarrow> tuple \<Rightarrow> diff) \<Rightarrow> 'n domain \<Rightarrow> precond list \<Rightarrow> 's peers \<Rightarrow> nat \<Rightarrow> 's \<Rightarrow> bool" where
  "contended ops W dm pre peers n s \<longleftrightarrow> (\<exists>t. drifts peers s t \<and>
     (holds_all (W t) (ts_current ops t) pre \<longrightarrow> \<not> (\<exists>ps. outbox_holds (world_now ops W t) dm ps n)))"

context trace_store
begin

lemma live_row:
  assumes "inv s"
  shows "\<exists>rows. ts_read_at ops s r (ts_current ops s) = Inr rows \<and>
    (\<forall>t. (\<exists>(u, d)\<in>set rows. d > 0 \<and> u = t) \<longleftrightarrow> 0 < now s r t)"
proof -
  obtain rows where rows: "ts_read_at ops s r (ts_current ops s) = Inr rows" "canonical rows"
    "\<And>t. wsum rows t = now s r t"
    using read_now [OF assms] by blast
  have "(\<exists>(u, d)\<in>set rows. d > 0 \<and> u = t) \<longleftrightarrow> (\<exists>d. (t, d) \<in> set rows \<and> 0 < d)" for t by auto
  then have "(\<exists>(u, d)\<in>set rows. d > 0 \<and> u = t) \<longleftrightarrow> 0 < now s r t" for t
    by (auto simp: canonical_mem [OF rows(2)] rows(3))
  then show ?thesis using rows(1) by blast
qed

lemma all_hold_ok:
  assumes "inv s"
  shows "all_hold ops s pre = Inr (holds_all (W s) (ts_current ops s) pre)"
proof (induction pre)
  case (Cons p pre)
  obtain r t where p: "p = (r, t)" by (cases p)
  obtain rows where "ts_read_at ops s r (ts_current ops s) = Inr rows"
    "(\<exists>(u, d)\<in>set rows. d > 0 \<and> u = t) \<longleftrightarrow> 0 < now s r t"
    using live_row [OF assms, of r] by blast
  then show ?case
    using Cons by (simp add: p holds_all_def world_now_def)
qed simp

lemma seen_holds_ok:
  assumes "inv s"
  shows "seen_holds ops s dm sender seq = Inr (0 < now s (dm_seen dm) (seen_tuple sender seq))"
proof -
  obtain rows where "ts_read_at ops s (dm_seen dm) (ts_current ops s) = Inr rows"
    "(\<exists>(u, d)\<in>set rows. d > 0 \<and> u = seen_tuple sender seq) \<longleftrightarrow> 0 < now s (dm_seen dm) (seen_tuple sender seq)"
    using live_row [OF assms, of "dm_seen dm"] by blast
  then show ?thesis by (simp add: seen_holds_def)
qed

lemma domain_attempt_run:
  assumes "inv s" "outbox_holds (now s) dm ps n" "n + length rs < 2 ^ 63" "rs \<noteq> []"
  shows "domain_attempt ops dm pre us rs peers k s =
    obind (ts_commit_if ops (pre @ [(dm_outseq dm, [VInt (word_of_nat n)])]) (us @ outbox_updates dm n rs)) (\<lambda>r.
      case r of
        Some e \<Rightarrow> oret (Some (Committed e))
      | None \<Rightarrow> obind (opause (peers (2 * k + 1))) (\<lambda>_. obind (oread (\<lambda>s. all_hold ops s pre)) (\<lambda>held.
          oret (if held then None else Some Rejected)))) (peers (2 * k) s)"
proof -
  let ?a = "\<lparr>sq_rel = dm_outseq dm, sq_key = [], sq_start = word_of_nat n, sq_present = True, sq_n = 0\<rparr>"
  have "seq_read ops s (dm_outseq dm) [] = Inr ?a"
    using assms by (intro seq_read_counter) (auto simp: outbox_holds_def)
  moreover have "draw_rows (dm_outbox dm) ?a rs =
      (row_updates (dm_outbox dm) (pending_rows (numbered n rs)), ?a\<lparr>sq_n := word_of_nat (length rs)\<rparr>)"
    by (subst draw_rows_numbered [of _ n]) (simp_all add: seq_peek_def)
  moreover have "(word_of_nat (length rs) :: i64) \<noteq> 0"
    using assms(3,4) word_of_nat_inject63 [of "length rs" 0] by simp
  ultimately show ?thesis
    by (simp add: domain_attempt_def obind_oread_Inr obind_step [of "opause (peers (2 * k))" s "()" "peers (2 * k) s"]
        opause_def seq_seal_def Let_def counter_tuple_def patch_builders patch_preconditions_def outbox_updates_def
        cong: option.case_cong)
qed

lemma domain_attempt_cases:
  assumes "outbox_peers ops inv W dm (length rs) peers"
    and "inv s" "outbox_holds (now s) dm ps n" "n + length rs < 2 ^ 63" "rs \<noteq> []"
  obtains (won) s1 s' ps' n' where "drifts peers s s1" "outbox_holds (now s1) dm ps' n'" "n' + length rs < 2 ^ 63"
      "holds_all (W s1) (ts_current ops s1) pre"
      "domain_attempt ops dm pre us rs peers k s = (Inr (Some (Committed (Suc (ts_current ops s1)))), s')"
      "wrote s1 (us @ outbox_updates dm n' rs) s'" "inv s1"
    | (lost) s' ps' n' r where "drifts peers s s'" "inv s'" "outbox_holds (now s') dm ps' n'" "n' + length rs < 2 ^ 63"
      "domain_attempt ops dm pre us rs peers k s = (Inr r, s')"
      "r = None \<or> r = Some Rejected" "contended ops W dm pre peers n s"
proof -
  let ?s1 = "peers (2 * k) s"
  let ?pre = "pre @ [(dm_outseq dm, [VInt (word_of_nat n)])]"
  obtain ps1 n1 where i1: "inv ?s1" and o1: "outbox_holds (now ?s1) dm ps1 n1" and b1: "n1 + length rs < 2 ^ 63"
    using assms(1-4) unfolding outbox_peers_def by blast
  show ?thesis
  proof (cases "holds_all (W ?s1) (ts_current ops ?s1) ?pre")
    case True
    then have "0 < now ?s1 (dm_outseq dm) ([] @ [VInt (word_of_nat n)])" by (simp add: world_now_def)
    then have "(word_of_nat n :: i64) = word_of_nat n1"
      using o1 counter_holds [of "now ?s1" "dm_outseq dm" "[]" "word_of_nat n1" "word_of_nat n"]
      by (simp add: outbox_holds_def)
    then have n: "n1 = n"
      using assms(3) o1 by (simp add: outbox_holds_def word_of_nat_inject63)
    obtain s' where c: "ts_commit_if ops ?pre (us @ outbox_updates dm n rs) ?s1 = (Inr (Some (Suc (ts_current ops ?s1))), s')"
      and w: "wrote ?s1 (us @ outbox_updates dm n rs) s'"
      using commit_if_won_wrote [OF i1 True] by blast
    then show ?thesis
      using True o1 b1 i1 n drifts_one [of peers s "2 * k"]
      by (intro won [of ?s1 ps1 n1 s']) (simp_all add: domain_attempt_run [OF assms(2-5)] obind_step)
  next
    case False
    let ?s2 = "peers (2 * k + 1) ?s1"
    obtain ps2 n2 where i2: "inv ?s2" and o2: "outbox_holds (now ?s2) dm ps2 n2" and b2: "n2 + length rs < 2 ^ 63"
      using assms(1) i1 o1 b1 unfolding outbox_peers_def by blast
    have d: "drifts peers s ?s2" by (rule drifts_step [of _ "2 * k"]) (rule drifts_one)
    let ?r = "if holds_all (W ?s2) (ts_current ops ?s2) pre then None else Some Rejected"
    have con: "contended ops W dm pre peers n s"
    proof -
      have "0 < now ?s1 (dm_outseq dm) [VInt (word_of_nat n)]" if "outbox_holds (now ?s1) dm ps n" for ps
        using that counter_holds [of "now ?s1" "dm_outseq dm" "[]" "word_of_nat n" "word_of_nat n"]
        by (simp add: outbox_holds_def)
      then have "holds_all (W ?s1) (ts_current ops ?s1) pre \<longrightarrow> \<not> (\<exists>ps. outbox_holds (now ?s1) dm ps n)"
        using False by (auto simp: holds_all_def world_now_def)
      then show ?thesis using drifts_one [of peers s "2 * k"] by (auto simp: contended_def)
    qed
    have "domain_attempt ops dm pre us rs peers k s = (Inr ?r, ?s2)"
      using commit_if_lost [OF i1 False] all_hold_ok [OF i2, of pre]
      by (simp add: domain_attempt_run [OF assms(2-5)] obind_apply opause_def)
    then show ?thesis by (rule lost [OF d i2 o2 b2 _ _ con]) (cases "holds_all (W ?s2) (ts_current ops ?s2) pre", simp_all)
  qed
qed

lemma domain_loop:
  assumes "outbox_peers ops inv W dm (length rs) peers" "rs \<noteq> []"
    and "inv s" "outbox_holds (now s) dm ps n" "n + length rs < 2 ^ 63"
  obtains (rejected) s' where "drifts peers s s'" "inv s'"
      "retry_loop m k (domain_attempt ops dm pre us rs peers) (oret Rejected) s = (Inr Rejected, s')"
      "0 < m \<longrightarrow> contended ops W dm pre peers n s"
    | (committed) s1 s' ps' n' where "drifts peers s s1" "inv s1" "outbox_holds (now s1) dm ps' n'" "n' + length rs < 2 ^ 63"
      "holds_all (W s1) (ts_current ops s1) pre"
      "retry_loop m k (domain_attempt ops dm pre us rs peers) (oret Rejected) s =
         (Inr (Committed (Suc (ts_current ops s1))), s')"
      "wrote s1 (us @ outbox_updates dm n' rs) s'"
  using assms(3-5)
proof (induction m arbitrary: k s ps n thesis)
  case 0
  then show ?case by simp
next
  case (Suc m)
  let ?loop = "retry_loop m (Suc k) (domain_attempt ops dm pre us rs peers) (oret Rejected)"
  show ?case
  proof (cases rule: domain_attempt_cases [where pre = pre and us = us and k = k, OF assms(1) Suc.prems(3,4,5) assms(2)])
    case (1 s1 s' ps' n')
    then show ?thesis by (intro Suc.prems(2)) (auto simp: obind_step)
  next
    case (2 t ps' n' r)
    show ?thesis
    proof (cases r)
      case None
      then have run: "retry_loop (Suc m) k (domain_attempt ops dm pre us rs peers) (oret Rejected) s = ?loop t"
        using 2(5) by (simp add: obind_step)
      have tr: "drifts peers s u" if "drifts peers t u" for u
        using 2(1) that unfolding drifts_def by (rule rtranclp_trans)
      show ?thesis
      proof (rule Suc.IH [OF _ _ 2(2,3,4), of "Suc k"])
        show thesis if "drifts peers t u" "inv u" "?loop t = (Inr Rejected, u)" for u
          by (rule Suc.prems(1) [OF tr [OF that(1)] that(2) trans [OF run that(3)]]) (use 2(7) in simp)
        show thesis if "drifts peers t s1" "inv s1" "outbox_holds (now s1) dm ps n" "n + length rs < 2 ^ 63"
          "holds_all (W s1) (ts_current ops s1) pre"
          "?loop t = (Inr (Committed (Suc (ts_current ops s1))), u)" "wrote s1 (us @ outbox_updates dm n rs) u"
          for s1 u ps n
          by (rule Suc.prems(2) [OF tr [OF that(1)] that(2-5) _ that(7)]) (simp only: run that(6))
      qed
    next
      case (Some x)
      then show ?thesis using 2(1,2,5,6,7) Suc.prems(1) by (simp add: obind_step)
    qed
  qed
qed

text \<open>
  A patch with remote messages: refused by the laws of the boundary, rejected with nothing
  written by it, or written as one edition that holds the local part and, at the back of the
  outbox under fresh numbers, every remote message.
\<close>

lemma domain_commit_cases:
  assumes "outbox_peers ops inv W dm (length (remote_emits dm (p_emits p))) peers"
    and "remote_emits dm (p_emits p) \<noteq> []" "spares_outbox dm (domain_updates dm p)"
    and "inv s" "outbox_holds (now s) dm ps n" "n + length (remote_emits dm (p_emits p)) < 2 ^ 63"
  obtains (refused) e where "\<not> lawful (sch s) no_behavior_check p a"
      "domain_commit ops sch dm p a peers s = (Inl e, s)"
    | (rejected) s' where "lawful (sch s) no_behavior_check p a" "drifts peers s s'" "inv s'"
      "domain_commit ops sch dm p a peers s = (Inr Rejected, s')" "contended ops W dm (patch_preconditions p) peers n s"
    | (committed) s1 s' ps' n' where "lawful (sch s) no_behavior_check p a" "drifts peers s s1" "inv s1"
      "holds_all (W s1) (ts_current ops s1) (patch_preconditions p)"
      "domain_commit ops sch dm p a peers s = (Inr (Committed (Suc (ts_current ops s1))), s')"
      "wrote s1 (domain_updates dm p @ outbox_updates dm n' (remote_emits dm (p_emits p))) s'"
      "outbox_holds (now s1) dm ps' n'"
      "outbox_holds (now s') dm (ps' @ numbered n' (remote_emits dm (p_emits p)))
         (n' + length (remote_emits dm (p_emits p)))"
proof (cases "lawful (sch s) no_behavior_check p a")
  case False
  then obtain e where "check_patch (sch s) no_behavior_check p a = Inl e" using check_patch_unlawful by blast
  then show ?thesis using refused False by (simp add: domain_commit_def obind_oread_Inl)
next
  case True
  let ?rs = "remote_emits dm (p_emits p)"
  let ?loop = "retry_loop 64 0 (domain_attempt ops dm (patch_preconditions p) (domain_updates dm p) ?rs peers) (oret Rejected)"
  have run: "domain_commit ops sch dm p a peers s = ?loop s"
    using check_patch_ok [OF True] assms(2)
    by (simp add: domain_commit_def obind_oread_Inr domain_updates_def del: retry_loop.simps)
  show ?thesis
  proof (cases rule: domain_loop [where m = 64 and k = 0 and pre = "patch_preconditions p" and us = "domain_updates dm p",
        OF assms(1,2,4,5,6)])
    case (1 s')
    then show ?thesis using rejected [OF True] run by simp
  next
    case (2 s1 s' ps' n')
    have "outbox_holds (now s') dm (ps' @ numbered n' ?rs) (n' + length ?rs)"
      by (rule outbox_holds_commit [OF 2(3,4) assms(2,3)]) (rule stepped_now [OF 2(7)])
    then show ?thesis using committed [OF True 2(1,2,5) _ 2(7,3)] 2(6) run by simp
  qed
qed

end

section \<open>Shipping\<close>

definition parcel_of :: "'n domain \<Rightarrow> nat \<times> remote \<Rightarrow> parcel" where
  "parcel_of dm = (\<lambda>(x, target, inbox, body).
     (dm_id dm, encode_envelope (word_of_nat x) \<lparr>m_inbox = inbox, m_body = body\<rparr>))"

definition bound_for :: "domain_id \<Rightarrow> pending \<Rightarrow> pending" where
  "bound_for d ps = filter (\<lambda>(x, target, inbox, body). target = d) ps"

definition all_routed :: "(domain_id \<Rightarrow> parcel list option) \<Rightarrow> pending \<Rightarrow> bool" where
  "all_routed q ps \<longleftrightarrow> (\<forall>(x, target, inbox, body)\<in>set ps. q target \<noteq> None)"

definition shipped :: "'n domain \<Rightarrow> pending \<Rightarrow> (domain_id \<Rightarrow> parcel list option) \<Rightarrow> domain_id \<Rightarrow> parcel list option" where
  "shipped dm ps q d = map_option (\<lambda>l. l @ map (parcel_of dm) (bound_for d ps)) (q d)"

lemma shipped_Nil [simp]: "shipped dm [] q = q"
  by (simp add: shipped_def bound_for_def fun_eq_iff map_option.id [unfolded id_def])

lemma shipped_Cons:
  "q t = Some l \<Longrightarrow>
   shipped dm ps (q(t \<mapsto> l @ [parcel_of dm (x, t, i, b)])) = shipped dm ((x, t, i, b) # ps) q"
  by (auto simp: shipped_def bound_for_def fun_eq_iff)

lemma routed_upd: "q t \<noteq> None \<Longrightarrow> all_routed (q(t \<mapsto> l)) ps \<longleftrightarrow> all_routed q ps"
  unfolding all_routed_def by (rule ball_cong) (auto split: if_splits)

lemma outbox_holds_tail:
  assumes "outbox_holds w dm (p # ps) n"
    and "\<And>r t. w' r t = w r t + upd_weight [(dm_outbox dm, fst (hd (pending_rows [p])), -1)] r t"
  shows "outbox_holds w' dm ps n"
  using assms(1) by (cases p) (auto simp: outbox_holds_def assms(2) pending_rows_def counter_def)

text \<open>A domain on a store and a transport endpoint of its own.\<close>

locale domain_host = store: trace_store ops inv W + net: transport "dm_transport dm" "dm_id dm" ok queue
  for ops :: "'s trace_ops" and inv :: "'s \<Rightarrow> bool" and W :: "'s \<Rightarrow> rel_id \<Rightarrow> edition \<Rightarrow> tuple \<Rightarrow> diff"
    and dm :: "'n domain" and ok :: "'n \<Rightarrow> bool" and queue :: "'n \<Rightarrow> domain_id \<Rightarrow> parcel list option"
begin

lemma ship_prefix:
  assumes "inv s" "ok n" "outbox_holds (world_now ops W s) dm (ps @ qs) c" "all_routed (queue n) ps"
  shows "\<exists>s' n'. ship_rows ops dm (pending_rows (ps @ qs)) m (s, n) =
      ship_rows ops dm (pending_rows qs) (m + length ps) (s', n') \<and>
    inv s' \<and> ok n' \<and> outbox_holds (world_now ops W s') dm qs c \<and>
    (\<forall>r t. r \<noteq> dm_outbox dm \<longrightarrow> world_now ops W s' r t = world_now ops W s r t) \<and>
    queue n' = shipped dm ps (queue n)"
  using assms
proof (induction ps arbitrary: m s n)
  case Nil
  then show ?case by auto
next
  case (Cons p ps)
  obtain x t i b where p: "p = (x, t, i, b)" by (cases p)
  let ?row = "outbox_row (word_of_nat x) t i b"
  obtain l where l: "queue n t = Some l" using Cons.prems(4) by (auto simp: all_routed_def p)
  obtain n1 where send: "tp_send (dm_transport dm) t (encode_envelope (word_of_nat x) \<lparr>m_inbox = i, m_body = b\<rparr>) n = (Inr (), n1)"
    and n1: "ok n1" "queue n1 = (queue n)(t \<mapsto> l @ [parcel_of dm p])"
    using net.send_routed [OF Cons.prems(2) l] by (auto simp: parcel_of_def p)
  obtain s1 where com: "ts_commit ops [(dm_outbox dm, ?row, -1)] s = (Inr (Suc (ts_current ops s)), s1)"
    and w: "stepped ops inv W s [(dm_outbox dm, ?row, -1)] s1"
    using store.commit_wrote [OF Cons.prems(1)] by blast
  have o1: "outbox_holds (world_now ops W s1) dm (ps @ qs) c"
  proof (rule outbox_holds_tail)
    show "outbox_holds (world_now ops W s) dm (p # ps @ qs) c" using Cons.prems(3) by simp
    show "world_now ops W s1 r u = world_now ops W s r u +
        upd_weight [(dm_outbox dm, fst (hd (pending_rows [p])), -1)] r u" for r u
      using stepped_now [OF w, of r u] by (simp add: p pending_rows_def)
  qed
  have r1: "all_routed (queue n1) ps"
    using Cons.prems(4) l by (simp add: n1(2) routed_upd) (simp add: all_routed_def)
  have i1: "inv s1" using w by (simp add: stepped_def)
  have run: "ship_rows ops dm (pending_rows ((p # ps) @ qs)) m (s, n) =
      ship_rows ops dm (pending_rows (ps @ qs)) (m + 1) (s1, n1)"
    using send com by (simp add: pending_rows_def p obind_apply on_net_def on_store_def)
  obtain s' n' where "ship_rows ops dm (pending_rows (ps @ qs)) (m + 1) (s1, n1) =
      ship_rows ops dm (pending_rows qs) (m + 1 + length ps) (s', n')"
    and "inv s'" "ok n'" "outbox_holds (world_now ops W s') dm qs c"
    and "\<forall>r t. r \<noteq> dm_outbox dm \<longrightarrow> world_now ops W s' r t = world_now ops W s1 r t"
    and "queue n' = shipped dm ps (queue n1)"
    using Cons.IH [OF i1 n1(1) o1 r1] by blast
  then show ?case
    using run stepped_now [OF w] shipped_Cons [where q = "queue n" and t = t and l = l and dm = dm and ps = ps and x = x and i = i and b = b] l
    by (intro exI [of _ s'] exI [of _ n']) (simp add: n1(2) p)
qed

text \<open>Every message ships, in the order of the numbers, and the outbox is empty.\<close>

lemma flush_outbox_ok:
  assumes "inv s" "ok n" "outbox_holds (world_now ops W s) dm ps c" "all_routed (queue n) ps"
  shows "\<exists>s' n'. flush_outbox ops dm (s, n) = (Inr (length ps), (s', n')) \<and>
    inv s' \<and> ok n' \<and> outbox_holds (world_now ops W s') dm [] c \<and>
    (\<forall>r t. r \<noteq> dm_outbox dm \<longrightarrow> world_now ops W s' r t = world_now ops W s r t) \<and>
    queue n' = shipped dm ps (queue n)"
proof -
  have "ts_read_at ops s (dm_outbox dm) (ts_current ops s) = Inr (pending_rows ps)"
    using store.read_now [OF assms(1), of "dm_outbox dm"] outbox_rows [OF assms(3)] by auto
  then have "flush_outbox ops dm (s, n) = ship_rows ops dm (pending_rows ps) 0 (s, n)"
    by (simp add: flush_outbox_def on_store_def obind_apply)
  then show ?thesis
    using ship_prefix [of s n ps "[]" c 0] assms by (simp add: pending_rows_def)
qed

text \<open>At a domain without a route the flush stops: what stood before it has shipped, it and the rest wait.\<close>

lemma flush_outbox_stops:
  assumes "inv s" "ok n" "outbox_holds (world_now ops W s) dm (ps @ (x, t, i, b) # qs) c"
    and "all_routed (queue n) ps" "queue n t = None"
  shows "\<exists>s' n' e. flush_outbox ops dm (s, n) = (Inl (Err (EStore e)), (s', n')) \<and>
    inv s' \<and> ok n' \<and> outbox_holds (world_now ops W s') dm ((x, t, i, b) # qs) c \<and>
    queue n' = shipped dm ps (queue n)"
proof -
  let ?rest = "(x, t, i, b) # qs"
  have "ts_read_at ops s (dm_outbox dm) (ts_current ops s) = Inr (pending_rows (ps @ ?rest))"
    using store.read_now [OF assms(1), of "dm_outbox dm"] outbox_rows [OF assms(3)] by auto
  then have flush: "flush_outbox ops dm (s, n) = ship_rows ops dm (pending_rows (ps @ ?rest)) 0 (s, n)"
    by (simp add: flush_outbox_def on_store_def obind_apply)
  obtain s' n' where ship: "ship_rows ops dm (pending_rows (ps @ ?rest)) 0 (s, n) =
      ship_rows ops dm (pending_rows ?rest) (0 + length ps) (s', n')"
    and s': "inv s'" "ok n'" "outbox_holds (world_now ops W s') dm ?rest c" "queue n' = shipped dm ps (queue n)"
    using ship_prefix [OF assms(1-4)] by blast
  have "queue n' t = None" using assms(5) by (simp add: s'(4) shipped_def)
  then obtain e where "tp_send (dm_transport dm) t (encode_envelope (word_of_nat x) \<lparr>m_inbox = i, m_body = b\<rparr>) n' =
      (Inl (Err (EStore e)), n')"
    using net.send_unrouted [OF s'(2)] by blast
  then have "ship_rows ops dm (pending_rows ?rest) (0 + length ps) (s', n') = (Inl (Err (EStore e)), (s', n'))"
    by (simp add: pending_rows_def obind_apply on_net_def)
  then show ?thesis using flush ship s' by auto
qed

end

section \<open>Receiving\<close>

type_synonym delivery = "domain_id \<times> i64 \<times> message"

definition opens :: "parcel \<Rightarrow> delivery \<Rightarrow> bool" where
  "opens = (\<lambda>(sender, payload) (from, seq, msg). sender = from \<and> decode_envelope payload = Inr (seq, msg))"

text \<open>The deliveries whose number is new, given the numbers already seen.\<close>

fun fresh_deliveries :: "(domain_id \<times> i64) set \<Rightarrow> delivery list \<Rightarrow> delivery list" where
  "fresh_deliveries K [] = []"
| "fresh_deliveries K ((sender, seq, msg) # ds) =
     (if (sender, seq) \<in> K then fresh_deliveries K ds
      else (sender, seq, msg) # fresh_deliveries (insert (sender, seq) K) ds)"

definition number_of :: "delivery \<Rightarrow> domain_id \<times> i64" where
  "number_of = (\<lambda>(sender, seq, msg). (sender, seq))"

definition seen_numbers :: "(rel_id \<Rightarrow> tuple \<Rightarrow> diff) \<Rightarrow> 'n domain \<Rightarrow> (domain_id \<times> i64) set" where
  "seen_numbers w dm = {(sender, seq). 0 < w (dm_seen dm) (seen_tuple sender seq)}"

definition applied :: "'n domain \<Rightarrow> delivery list \<Rightarrow> upd list" where
  "applied dm ds = concat (map (\<lambda>(sender, seq, msg).
     [(m_inbox msg, m_body msg, 1), (dm_seen dm, seen_tuple sender seq, 1)]) ds)"

text \<open>No message is addressed to the relation that records what was seen.\<close>

definition spares_seen :: "'n domain \<Rightarrow> delivery list \<Rightarrow> bool" where
  "spares_seen dm ds \<longleftrightarrow> (\<forall>(sender, seq, msg)\<in>set ds. m_inbox msg \<noteq> dm_seen dm)"

lemma fresh_deliveries_mem:
  "d \<in> set (fresh_deliveries K ds) \<Longrightarrow> d \<in> set ds \<and> number_of d \<notin> K"
  by (induction K ds rule: fresh_deliveries.induct) (auto simp: number_of_def split: if_splits)

lemma fresh_deliveries_once: "distinct (map number_of (fresh_deliveries K ds))"
proof (induction K ds rule: fresh_deliveries.induct)
  case (2 K sender seq msg ds)
  have "number_of d \<noteq> (sender, seq)" if "d \<in> set (fresh_deliveries (insert (sender, seq) K) ds)" for d
    using fresh_deliveries_mem [OF that] by auto
  then show ?case using 2 by (force simp: number_of_def)
qed simp

lemma fresh_deliveries_all:
  "number_of ` set (fresh_deliveries K ds) = number_of ` set ds - K"
proof (induction K ds rule: fresh_deliveries.induct)
  case (2 K sender seq msg ds)
  have "number_of (sender, seq, msg) = (sender, seq)" by (simp add: number_of_def)
  then show ?case using 2 by (cases "(sender, seq) \<in> K") auto
qed simp

lemma fresh_deliveries_none: "number_of ` set ds \<subseteq> K \<Longrightarrow> fresh_deliveries K ds = []"
  by (induction K ds rule: fresh_deliveries.induct) (auto simp: number_of_def)

text \<open>What was delivered once is not delivered again: a repeated parcel adds nothing.\<close>

lemma fresh_deliveries_repeat:
  "number_of ` set es \<subseteq> K \<union> number_of ` set ds \<Longrightarrow> fresh_deliveries K (ds @ es) = fresh_deliveries K ds"
proof (induction K ds rule: fresh_deliveries.induct)
  case (1 K)
  then show ?case by (simp add: fresh_deliveries_none)
next
  case (2 K sender seq msg ds)
  have "number_of ` set es \<subseteq> insert (sender, seq) (K \<union> number_of ` set ds)"
    using 2(3) by (simp add: number_of_def)
  then show ?case using 2(1,2) by (cases "(sender, seq) \<in> K") (simp_all add: insert_absorb)
qed

lemma applied_Cons:
  "applied dm ((sender, seq, msg) # ds) =
     (m_inbox msg, m_body msg, 1) # (dm_seen dm, seen_tuple sender seq, 1) # applied dm ds"
  by (simp add: applied_def)

lemma seen_tuple_inject [simp]: "seen_tuple a b = seen_tuple a' b' \<longleftrightarrow> a = a' \<and> b = b'"
  by (simp add: seen_tuple_def)

lemma seen_numbers_apply:
  assumes "\<And>t. 0 \<le> w (dm_seen dm) t" "m_inbox msg \<noteq> dm_seen dm"
    and "\<And>r t. w' r t = w r t + upd_weight [(m_inbox msg, m_body msg, 1), (dm_seen dm, seen_tuple sender seq, 1)] r t"
  shows "seen_numbers w' dm = insert (sender, seq) (seen_numbers w dm)" "0 \<le> w' (dm_seen dm) t"
proof -
  have w': "w' (dm_seen dm) t = w (dm_seen dm) t + (if t = seen_tuple sender seq then 1 else 0)" for t
    using assms(2) by (simp add: assms(3))
  have "0 < w' (dm_seen dm) (seen_tuple a b) \<longleftrightarrow> (a, b) = (sender, seq) \<or> 0 < w (dm_seen dm) (seen_tuple a b)" for a b
    using assms(1) [of "seen_tuple a b"] by (auto simp: w')
  then show "seen_numbers w' dm = insert (sender, seq) (seen_numbers w dm)" by (auto simp: seen_numbers_def)
  show "0 \<le> w' (dm_seen dm) t" using assms(1) [of t] by (simp add: w')
qed

context domain_host
begin

text \<open>
  A receive drains the queue: each message whose number is new is applied once, with its
  number, in the order of arrival; the rest is dropped. It ends once the fuel exceeds the
  number of waiting parcels.
\<close>

lemma receive_ok:
  assumes "inv s" "ok n" "queue n (dm_id dm) = Some q" "list_all2 opens q ds" "length q < fuel"
    and "\<And>t. 0 \<le> world_now ops W s (dm_seen dm) t" "spares_seen dm ds"
  defines "new \<equiv> fresh_deliveries (seen_numbers (world_now ops W s) dm) ds"
  shows "\<exists>s' n'. receive fuel ops dm m (s, n) = (Inr (m + length new), (s', n')) \<and>
    inv s' \<and> ok n' \<and> queue n' = (queue n)(dm_id dm \<mapsto> []) \<and>
    (\<forall>r t. world_now ops W s' r t = world_now ops W s r t + upd_weight (applied dm new) r t)"
  using assms(1-7) unfolding new_def
proof (induction fuel arbitrary: s n q ds m)
  case (Suc fuel)
  show ?case
  proof (cases q)
    case Nil
    then have "receive (Suc fuel) ops dm m (s, n) = (Inr m, (s, n))"
      using net.poll_empty [of n] Suc.prems(2,3) by (simp add: obind_apply on_net_def)
    then show ?thesis using Suc.prems Nil by (auto simp: applied_def fun_upd_idem_iff intro!: exI [of _ s] exI [of _ n])
  next
    case (Cons p q')
    obtain sender payload where p: "p = (sender, payload)" by (cases p)
    obtain seq msg ds' where ds: "ds = (sender, seq, msg) # ds'" and dec: "decode_envelope payload = Inr (seq, msg)"
      and all: "list_all2 opens q' ds'"
      using Suc.prems(4) by (auto simp: Cons p opens_def list_all2_Cons1)
    obtain n1 where poll: "tp_poll (dm_transport dm) n = (Inr (Some p), n1)" and n1: "ok n1"
      "queue n1 = (queue n)(dm_id dm \<mapsto> q')"
      using net.poll_next [of n p q'] Suc.prems(2,3) Cons by auto
    have q1: "queue n1 (dm_id dm) = Some q'" "length q' < fuel" using n1 Suc.prems(5) Cons by simp_all
    have q2: "(queue n1)(dm_id dm \<mapsto> []) = (queue n)(dm_id dm \<mapsto> [])" by (simp add: n1(2))
    have sp: "spares_seen dm ds'" "m_inbox msg \<noteq> dm_seen dm" using Suc.prems(7) by (simp_all add: ds spares_seen_def)
    let ?seen = "0 < world_now ops W s (dm_seen dm) (seen_tuple sender seq)"
    have seen: "seen_holds ops s dm sender seq = Inr ?seen" by (rule store.seen_holds_ok [OF Suc.prems(1)])
    show ?thesis
    proof (cases ?seen)
      case True
      then have "receive (Suc fuel) ops dm m (s, n) = receive fuel ops dm m (s, n1)"
        using poll seen dec by (simp add: obind_apply on_net_def on_store_def p)
      then show ?thesis
        using Suc.IH [OF Suc.prems(1) n1(1) q1(1) all q1(2) Suc.prems(6) sp(1), of m] True
        unfolding q2 by (simp add: ds seen_numbers_def)
    next
      case False
      let ?us = "[(m_inbox msg, m_body msg, 1), (dm_seen dm, seen_tuple sender seq, 1)]"
      obtain s1 where com: "ts_commit ops ?us s = (Inr (Suc (ts_current ops s)), s1)" and w: "stepped ops inv W s ?us s1"
        using store.commit_wrote [OF Suc.prems(1)] by blast
      have i1: "inv s1" using w by (simp add: stepped_def)
      note upd = seen_numbers_apply [where w = "world_now ops W s" and w' = "world_now ops W s1",
          OF Suc.prems(6) sp(2) stepped_now [OF w]]
      have "receive (Suc fuel) ops dm m (s, n) = receive fuel ops dm (m + 1) (s1, n1)"
        using poll seen dec com False by (simp add: obind_apply on_net_def on_store_def p)
      moreover let ?K = "seen_numbers (world_now ops W s) dm"
      have notin: "(sender, seq) \<notin> ?K" using False by (simp add: seen_numbers_def)
      obtain s' n' where "receive fuel ops dm (m + 1) (s1, n1) =
          (Inr (m + 1 + length (fresh_deliveries (insert (sender, seq) ?K) ds')), (s', n'))"
        "inv s'" "ok n'" "queue n' = (queue n)(dm_id dm \<mapsto> [])"
        "\<forall>r t. world_now ops W s' r t = world_now ops W s1 r t +
           upd_weight (applied dm (fresh_deliveries (insert (sender, seq) ?K) ds')) r t"
        using Suc.IH [OF i1 n1(1) q1(1) all q1(2) upd(2) sp(1), of "m + 1"] unfolding upd(1) q2 by blast
      ultimately show ?thesis
        using notin stepped_now [OF w]
        by (intro exI [of _ s'] exI [of _ n']) (simp add: ds applied_Cons del: fun_upd_apply receive.simps)
    qed
  qed
qed simp

text \<open>A parcel that does not decode is taken off the queue and ends the drain with a codec error.\<close>

lemma receive_malformed:
  assumes "ok n" "queue n (dm_id dm) = Some ((sender, payload) # q)" "decode_envelope payload = Inl e"
  shows "\<exists>n'. receive (Suc fuel) ops dm m (s, n) = (Inl e, (s, n')) \<and> ok n' \<and>
    queue n' = (queue n)(dm_id dm \<mapsto> q)"
  using net.poll_next [OF assms(1,2)] assms(3) by (auto simp: obind_apply on_net_def)

end

end
