(* ===== verification/Ent_Interface.thy ===== *)
theory Ent_Interface
  imports Ent_Trace Fixpoint_Laws Registry Replay Schedule Derived Gc Domain_Laws
begin

text \<open>
  The last operations of the Ent's trace store (interest registration, version compare,
  consolidation, the reader) and the interpretation of \<open>trace_store\<close> on them.
\<close>

section \<open>Registering an interest\<close>

lemma ent_register_ok:
  assumes ok: "ent_ok s" and new: "om_get (en_interests s) (rel, lo, hi) = None"
    and reg: "ent_register rel lo hi s = (iid, s')"
  shows "ent_ok s'" "ent_world s' = ent_world s" "en_current s' = en_current s"
    "en_watermark s' = en_watermark s"
proof -
  obtain c where c: "register rel lo hi (en_canopy s) = (iid, c)"
    using reg by (auto simp: ent_register_def split: prod.splits)
  have s': "s' = s\<lparr>en_canopy := c, en_interests := om_put (rel, lo, hi) iid (en_interests s),
      en_registered := om_put iid (en_current s) (en_registered s)\<rparr>"
    using reg by (simp add: ent_register_def c)
  have io: "canopy_ok (en_canopy s)" "osorted (en_interests s)" "osorted (en_registered s)"
    "osorted (en_fired s)" "\<And>rel lo hi iid. om_get (en_interests s) (rel, lo, hi) = Some iid \<Longrightarrow>
      routed s rel lo hi iid"
    using ok by (auto simp: ent_ok_def interests_ok_def)
  note c_ok = register_ok [OF io(1) c]
  have same: "roots_or_default s' = roots_or_default s"
    by (simp add: fun_eq_iff roots_or_default_def roots_def s')
  show W: "ent_world s' = ent_world s" by (simp add: fun_eq_iff ent_world_def same)
  show sel: "en_current s' = en_current s" "en_watermark s' = en_watermark s" by (simp_all add: s')
  have fields: "en_canopy s' = c" "en_fired s' = en_fired s" "en_rels s' = en_rels s"
    "en_interests s' = om_put (rel, lo, hi) iid (en_interests s)"
    "en_registered s' = om_put iid (en_current s) (en_registered s)"
    by (simp_all add: s')
  have "routed s' rel' lo' hi' j"
    if j: "om_get (en_interests s') (rel', lo', hi') = Some j" for rel' lo' hi' j
  proof (cases "(rel', lo', hi') = (rel, lo, hi)")
    case True
    then have [simp]: "j = iid" "rel' = rel" "lo' = lo" "hi' = hi"
      using j io(2) by (auto simp: fields)
    have flat: "ent_world s rel i t = ent_world s rel (i - 1) t" if "en_current s < i" for i t
      using ent_future [OF ok, of i rel t] ent_future [OF ok, of "i - 1" rel t] that by simp
    then show ?thesis
      using c_ok(3) io(3) by (auto simp: routed_def fields W sel)
  next
    case False
    then have "routed s rel' lo' hi' j" using j io(2,5) by (auto simp: fields split: if_splits)
    then obtain since where r: "((rel', lo', j), (hi', endorsement_all)) \<in> set (cn_enf (en_canopy s))"
      "om_get (en_registered s) j = Some since" "since \<le> en_current s"
      "\<forall>i t. since < i \<and> en_watermark s < i \<and> in_range lo' hi' t \<and>
          ent_world s rel' i t \<noteq> ent_world s rel' (i - 1) t \<longrightarrow> ((j, i), ()) \<in> set (en_fired s)"
      unfolding routed_def by blast
    have "j \<noteq> iid" using r(1) io(1) c_ok(2) by (auto simp: canopy_ok_def)
    then have "om_get (en_registered s') j = Some since" using r(2) io(3) by (simp add: fields)
    then show ?thesis
      unfolding routed_def W sel using r c_ok(4) by (auto simp: fields)
  qed
  then have "interests_ok s'"
    unfolding interests_ok_def using io c_ok(1) by (simp add: fields)
  then show "ent_ok s'"
    using ok by (simp add: ent_ok_def rels_ok_def sel same fields)
qed

lemma ent_touched_range_ok:
  assumes ok: "ent_ok s"
  shows "\<exists>b s'. ent_touched_range_since from to rel lo hi s = (Inr b, s') \<and> ent_ok s' \<and>
    en_current s' = en_current s \<and> en_watermark s' = en_watermark s \<and>
    ent_world s' = ent_world s \<and>
    (\<not> b \<and> from \<le> to \<longrightarrow> (\<forall>t. in_range lo hi t \<longrightarrow> ent_world s rel to t = ent_world s rel from t))"
proof (cases "from < en_watermark s")
  case True
  then have "ent_touched_range_since from to rel lo hi s = (Inr True, s)"
    by (simp add: ent_touched_range_since_def)
  with ok show ?thesis by blast
next
  case False
  define known where "known = om_get (en_interests s) (rel, lo, hi)"
  obtain iid fresh s' where pick: "(case known of Some iid \<Rightarrow> (iid, False, s)
      | None \<Rightarrow> let (iid, s') = ent_register rel lo hi s in (iid, True, s')) = (iid, fresh, s')"
    by (rule prod_cases3)
  have s': "ent_ok s' \<and> ent_world s' = ent_world s \<and> en_current s' = en_current s \<and>
      en_watermark s' = en_watermark s"
  proof (cases known)
    case None
    then have "ent_register rel lo hi s = (iid, s')"
      using pick by (simp split: prod.splits)
    then show ?thesis using ent_register_ok [OF ok] None unfolding known_def by blast
  next
    case (Some j)
    then have "s' = s" using pick by simp
    with ok show ?thesis by simp
  qed
  have old: "\<not> fresh \<Longrightarrow> s' = s \<and> om_get (en_interests s) (rel, lo, hi) = Some iid"
    using pick by (cases "om_get (en_interests s) (rel, lo, hi)") (auto simp: known_def split: prod.splits)
  define since where "since = (case om_get (en_registered s') iid of None \<Rightarrow> 0 | Some e \<Rightarrow> e)"
  have eq: "ent_touched_range_since from to rel lo hi s =
      (if to \<le> from then (Inr False, s')
       else if fresh \<or> from < since then (ent_touched_since s' from to [rel], s')
       else (Inr (length (om_range (iid, from + 1) (iid, to + 1) (en_fired s')) > 0), s'))"
    unfolding ent_touched_range_since_def known_def [symmetric] pick
    using False by (simp add: since_def)
  consider "to \<le> from" | "from < to" "fresh \<or> from < since" | "from < to" "\<not> fresh" "since \<le> from"
    by linarith
  then show ?thesis
  proof cases
    case 1
    then have "ent_touched_range_since from to rel lo hi s = (Inr False, s')" by (simp add: eq)
    moreover have "ent_world s rel to t = ent_world s rel from t" if "from \<le> to" for t
      using 1 that le_antisym by blast
    ultimately show ?thesis using s' by blast
  next
    case 2
    then have eq2: "ent_touched_range_since from to rel lo hi s = (ent_touched_since s' from to [rel], s')"
      by (simp add: eq)
    obtain b where b: "ent_touched_since s' from to [rel] = Inr b"
      "\<not> b \<and> from \<le> to \<longrightarrow> (\<forall>r\<in>set [rel]. \<forall>t. ent_world s' r to t = ent_world s' r from t)"
      using ent_touched_ok [of s' "from" to "[rel]"] s' by blast
    show ?thesis unfolding eq2 b(1) using b(2) s' by auto
  next
    case 3
    then have *: "s' = s" "om_get (en_interests s) (rel, lo, hi) = Some iid" using old by auto
    have "routed s rel lo hi iid" using ok *(2) by (auto simp: ent_ok_def interests_ok_def)
    then obtain e where e: "om_get (en_registered s) iid = Some e" by (auto simp: routed_def)
    then have since: "since = e" by (simp add: since_def *(1))
    define b where "b = (length (om_range (iid, from + 1) (iid, to + 1) (en_fired s)) > 0)"
    have "ent_world s rel to t = ent_world s rel from t" if "\<not> b" "in_range lo hi t" for t
      by (rule unfired_quiet [OF ok *(2) e]) (use 3 since False that in \<open>auto simp: b_def\<close>)
    moreover have "ent_touched_range_since from to rel lo hi s = (Inr b, s)"
      using 3 by (simp add: eq *(1) b_def)
    ultimately show ?thesis using ok by blast
  qed
qed

section \<open>Comparing versions\<close>

lemma remdups_adj_sorted_less: "sorted xs \<Longrightarrow> sorted_wrt (<) (remdups_adj xs)" for xs :: "'a::linorder list"
  by (induction xs rule: remdups_adj.induct) (auto simp: order_le_less)

lemma tree_diff_fst: "map fst (tree_diff a b) =
  filter (\<lambda>k. om_get a k \<noteq> om_get b k) (remdups_adj (sort (map fst a @ map fst b)))"
proof -
  have "map fst (filter (\<lambda>(k, x, y). x \<noteq> y) (map (\<lambda>k. (k, om_get a k, om_get b k)) ks)) =
      filter (\<lambda>k. om_get a k \<noteq> om_get b k) ks" for ks
    by (induction ks) auto
  then show ?thesis unfolding tree_diff_def .
qed

lemma mem_tree_diff: "(t, p, q) \<in> set (tree_diff a b) \<longleftrightarrow> p = om_get a t \<and> q = om_get b t \<and> p \<noteq> q"
proof -
  have "t \<in> set (map fst a @ map fst b)" if "om_get a t \<noteq> om_get b t"
    using that om_get_None_iff [of a t] om_get_None_iff [of b t] by (metis Un_iff set_append set_map)
  then show ?thesis unfolding tree_diff_def by auto
qed

lemma canonical_get:
  assumes "canonical m"
  shows "om_get m t = (if wsum m t = 0 then None else Some (wsum m t))"
proof -
  have "om_get m t = Some d \<longleftrightarrow> d \<noteq> 0 \<and> wsum m t = d" for d
    using canonical_mem [OF assms, of t d] om_get_in_iff [OF canonicalD [OF assms], of t d] by blast
  from this [of "wsum m t"] this [of "the (om_get m t)"] show ?thesis
    by (cases "om_get m t"; cases "wsum m t = 0") simp_all
qed

lemma mem_map_pairs: "(t, x, y) \<in> set (map (\<lambda>(t, p, q). (t, f p, f q)) l) \<longleftrightarrow>
  (\<exists>p q. (t, p, q) \<in> set l \<and> x = f p \<and> y = f q)"
  by (induction l) auto

lemma ent_compare_ok:
  assumes ok: "ent_ok s" and le: "en_watermark s \<le> a" "en_watermark s \<le> b"
  shows "\<exists>rows. ent_compare s r a b = Inr rows \<and> compares rows (ent_world s r a) (ent_world s r b)"
proof -
  define A where "A = facts_at s r a"
  define B where "B = facts_at s r b"
  define rows where "rows = map (\<lambda>(t, wa, wb). (t, weight_or_zero wa, weight_or_zero wb)) (tree_diff A B)"
  have get: "om_get A t = (if ent_world s r a t = 0 then None else Some (ent_world s r a t))"
    "om_get B t = (if ent_world s r b t = 0 then None else Some (ent_world s r b t))" for t
    unfolding A_def B_def by (simp_all add: canonical_get [OF facts_at_canonical [OF ok]] facts_at_wsum)
  have "map fst rows = map fst (tree_diff A B)" by (simp add: rows_def case_prod_beta)
  then have "osorted rows"
    unfolding osorted_def tree_diff_fst by (simp add: remdups_adj_sorted_less sorted_wrt_filter)
  moreover have "(t, x, y) \<in> set rows \<longleftrightarrow> x = ent_world s r a t \<and> y = ent_world s r b t \<and> x \<noteq> y" for t x y
  proof -
    have "(t, x, y) \<in> set rows \<longleftrightarrow>
        (\<exists>p q. (t, p, q) \<in> set (tree_diff A B) \<and> x = weight_or_zero p \<and> y = weight_or_zero q)"
      unfolding rows_def by (rule mem_map_pairs)
    also have "\<dots> \<longleftrightarrow> om_get A t \<noteq> om_get B t \<and> x = weight_or_zero (om_get A t) \<and>
        y = weight_or_zero (om_get B t)"
      unfolding mem_tree_diff by blast
    finally show ?thesis unfolding get by (simp add: weight_or_zero_def) auto
  qed
  ultimately have "compares rows (ent_world s r a) (ent_world s r b)" by (simp add: compares_def)
  moreover have "ent_compare s r a b = Inr rows"
    using le by (simp add: ent_compare_def version_compare_def rows_def A_def B_def)
  ultimately show ?thesis by blast
qed

section \<open>Consolidation\<close>

lemma om_split_snd: "snd (om_split k m) = filter (\<lambda>p. k \<le> fst p) m"
  by (simp add: om_split_def)

lemma retire_fact:
  assumes "versions_ok cur r" "wm \<le> i"
  shows "roots_fact (retire wm r) i = roots_fact r i"
proof -
  have o: "osorted (versions r)" using assms(1) by (simp add: versions_ok_def)
  define kept where "kept = filter (\<lambda>p. wm + 1 \<le> fst p) (versions r)"
  have ko: "osorted kept" by (simp add: kept_def o)
  have vs: "versions (retire wm r) = (case om_last_le wm (versions r) of None \<Rightarrow> kept
      | Some (_, t) \<Rightarrow> om_put wm t kept)"
    by (simp add: retire_def Let_def om_split_snd kept_def split: option.splits)
  have last_kept: "om_last_le i kept = (case om_last_le i (versions r) of None \<Rightarrow> None
      | Some (j, t) \<Rightarrow> if wm < j then Some (j, t) else None)"
  proof (cases "om_last_le i (versions r)")
    case None
    then have "om_last_le i kept = None" by (auto simp: om_last_le_None_iff kept_def)
    with None show ?thesis by simp
  next
    case (Some p)
    obtain j t where p: "p = (j, t)" by (cases p)
    note * = om_last_le_Some [OF o Some [unfolded p]]
    show ?thesis
    proof (cases "wm < j")
      case True
      then have "om_last_le i kept = Some (j, t)"
        using * by (intro om_last_le_unique [OF ko]) (auto simp: kept_def)
      with True Some p show ?thesis by simp
    next
      case False
      then have "om_last_le i kept = None"
        using *(3) by (fastforce simp: om_last_le_None_iff kept_def)
      with False Some p show ?thesis by simp
    qed
  qed
  show ?thesis
  proof (cases "om_last_le wm (versions r)")
    case None
    then have below: "\<forall>p\<in>set (versions r). wm < fst p" by (simp add: om_last_le_None_iff)
    then have "kept = versions r" by (simp add: kept_def filter_id_conv Suc_le_eq)
    with None show ?thesis by (simp add: roots_fact_def vs)
  next
    case (Some p)
    obtain k u where p: "p = (k, u)" by (cases p)
    note k = om_last_le_Some [OF o Some [unfolded p]]
    have vs2: "versions (retire wm r) = om_put wm u kept" by (simp add: vs Some p)
    have "om_last_le i (versions r) \<noteq> None"
      using k(1,2) assms(2) unfolding om_last_le_None_iff by fastforce
    then obtain j t where q: "om_last_le i (versions r) = Some (j, t)" by auto
    note j = om_last_le_Some [OF o q]
    show ?thesis
    proof (cases "wm < j")
      case True
      then have "om_last_le i (om_put wm u kept) = Some (j, t)"
        using q by (simp add: om_last_le_put ko last_kept)
      then show ?thesis by (simp add: roots_fact_def vs2 q)
    next
      case False
      have "k \<le> j" using j(3) [of k] k(1,2) assms(2) by force
      moreover have "j \<le> k" using k(3) [of j] j(1) False by force
      ultimately have "t = u" using osorted_functional [OF o] j(1) k(1) by simp
      moreover have "om_last_le i (om_put wm u kept) = Some (wm, u)"
        using q False assms(2) by (simp add: om_last_le_put ko last_kept)
      ultimately show ?thesis by (simp add: roots_fact_def vs2 q)
    qed
  qed
qed

lemma retire_ok:
  assumes ok: "roots_ok wm0 cur n g r" and wm: "wm0 < wm" "wm \<le> cur"
  shows "roots_ok wm cur n g (retire wm r)"
proof -
  have v: "versions_ok cur r" and l: "log_ok cur n g r" and h: "history_ok wm0 r"
    using ok by (auto simp: roots_ok_def)
  have o: "osorted (versions r)" using v by (simp add: versions_ok_def)
  define kept where "kept = filter (\<lambda>p. wm + 1 \<le> fst p) (versions r)"
  have ko: "osorted kept" by (simp add: kept_def o)
  have vs: "versions (retire wm r) = (case om_last_le wm (versions r) of None \<Rightarrow> kept
      | Some (_, t) \<Rightarrow> om_put wm t kept)"
    by (simp add: retire_def Let_def om_split_snd kept_def split: option.splits)
  have lg: "log (retire wm r) = filter (\<lambda>x. wm < fst (fst x)) (log r)"
    by (simp add: retire_def Let_def om_split_snd) (rule filter_cong, auto simp: less_eq_prod_def)
  have mem: "(i, t) \<in> set (versions r)" if "(i, t) \<in> set (versions (retire wm r))" "wm < i" for i t
    using that set_om_put [of wm _ kept]
    by (fastforce simp: vs kept_def split: option.splits)
  have get: "om_get (versions (retire wm r)) i = om_get (versions r) i" if "wm < i" for i
    using that by (auto simp: vs ko kept_def om_get_filter o split: option.splits)
  have "versions_ok cur (retire wm r)"
    unfolding versions_ok_def
  proof (intro conjI ballI)
    show "osorted (versions (retire wm r))" by (auto simp: vs ko split: option.splits)
    fix p assume p: "p \<in> set (versions (retire wm r))"
    have "p \<in> set kept \<or> (\<exists>t k. p = (wm, t) \<and> (k, t) \<in> set (versions r))"
    proof (cases "om_last_le wm (versions r)")
      case None
      with p show ?thesis by (simp add: vs)
    next
      case (Some q)
      obtain k t where q: "q = (k, t)" by (cases q)
      have "(k, t) \<in> set (versions r)" using om_last_le_mem [OF Some] q by simp
      moreover have "p \<in> insert (wm, t) (set kept)"
        using p Some q set_om_put [of wm t kept] by (auto simp: vs)
      ultimately show ?thesis by blast
    qed
    then show "case p of (i, t) \<Rightarrow> i \<le> cur \<and> canonical t"
      using v wm(2) by (auto simp: versions_ok_def kept_def)
  qed
  moreover have "log_ok cur n g (retire wm r)"
    unfolding log_ok_def
  proof (intro conjI allI impI ballI)
    show "osorted (log (retire wm r))" using l by (simp add: lg log_ok_def)
    show "fst x < (cur, n)" if "x \<in> set (log (retire wm r))" for x
      using l that by (simp add: lg log_ok_def)
    fix i j lo hi assume "((i, j), LGraft lo hi) \<in> set (log (retire wm r))"
    then have "((i, j), LGraft lo hi) \<in> set (log r)" "wm < i" by (auto simp: lg)
    then show "i < g" "om_get (versions (retire wm r)) i \<noteq> None"
      using l unfolding log_ok_def get [OF \<open>wm < i\<close>] by blast+
  qed
  moreover have "orders_ok cur (retire wm r)" by (simp add: orders_ok_def retire_def Let_def)
  moreover have "history_ok wm (retire wm r)"
    unfolding history_ok_def
  proof (intro allI impI)
    fix i t assume i: "wm < i"
    have "log_weight (retire wm r) (\<lambda>j. j = i) t = log_weight r (\<lambda>j. j = i) t"
    proof -
      have ew: "entry_weight (versions (retire wm r)) x t = entry_weight (versions r) x t"
        if "fst (fst x) = i" for x
        using that get [OF i] by (simp add: entry_weight_def split: log_entry.splits)
      have "(\<Sum>x\<leftarrow>filter (\<lambda>x. wm < fst (fst x)) ls. if fst (fst x) = i then entry_weight (versions (retire wm r)) x t else 0)
          = (\<Sum>x\<leftarrow>ls. if fst (fst x) = i then entry_weight (versions r) x t else 0)" for ls
        using i ew by (induction ls) auto
      then show ?thesis unfolding log_weight_def lg .
    qed
    then show "log_weight (retire wm r) (\<lambda>j. j = i) t =
        wsum (roots_fact (retire wm r) i) t - wsum (roots_fact (retire wm r) (i - 1)) t"
      using h i wm(1) by (simp add: history_ok_def retire_fact [OF v])
  qed
  ultimately show ?thesis by (simp add: roots_ok_def)
qed

lemma retire_default: "retire wm roots_default = roots_default"
  by (simp add: retire_def roots_default_def om_split_def om_last_le_def)

lemma retire_rels:
  assumes "osorted (en_rels s)" "distinct ids"
    and "s' = foldl (\<lambda>s rel. put_roots rel (retire wm (roots_or_default s rel)) s) s ids"
  shows "osorted (en_rels s') \<and> same_frame s s' \<and> roots_or_default s' r =
    (if r \<in> set ids then retire wm (roots_or_default s r) else roots_or_default s r)"
  using assms
proof (induction ids arbitrary: s)
  case Nil
  then show ?case by (simp add: same_frame_def)
next
  case (Cons q ids)
  define s1 where "s1 = put_roots q (retire wm (roots_or_default s q)) s"
  have o: "osorted (en_rels s1)" using Cons.prems(1) by (simp add: s1_def)
  have r1: "roots_or_default s1 r = (if r = q then retire wm (roots_or_default s q) else roots_or_default s r)" for r
    using Cons.prems(1) by (simp add: s1_def roots_or_default_put)
  have "same_frame s s1" by (simp add: s1_def same_frame_def)
  moreover have fold: "s' = foldl (\<lambda>s rel. put_roots rel (retire wm (roots_or_default s rel)) s) s1 ids"
    using Cons.prems(3) by (simp add: s1_def)
  have ids: "distinct ids" "q \<notin> set ids" using Cons.prems(2) by auto
  note IH = Cons.IH [OF o ids(1) fold]
  from IH have "osorted (en_rels s')" "same_frame s1 s'" by simp_all
  moreover have "roots_or_default s' r = (if r \<in> set (q # ids)
      then retire wm (roots_or_default s r) else roots_or_default s r)"
    using IH ids(2) by (auto simp: r1)
  ultimately show ?case by (simp add: same_frame_def)
qed

lemma ent_consolidate_ok:
  assumes ok: "ent_ok s"
  shows "\<exists>e s'. ent_consolidate up_to s = (Inr e, s') \<and> ent_ok s' \<and> e = en_watermark s' \<and>
    en_watermark s \<le> e \<and> e \<le> max (en_watermark s) up_to \<and> en_current s' = en_current s \<and>
    (\<forall>r e' t. e \<le> e' \<longrightarrow> ent_world s' r e' t = ent_world s r e' t)"
proof (cases "min up_to (en_current s) \<le> en_watermark s")
  case True
  with ok show ?thesis by (auto simp: ent_consolidate_def Let_def)
next
  case False
  define wm where "wm = min up_to (en_current s)"
  define s1 where "s1 = foldl (\<lambda>s rel. put_roots rel (retire wm (roots_or_default s rel)) s) s (rel_ids s)"
  define s' where "s' = s1\<lparr>en_patches := snd (om_split (wm + 1) (en_patches s1)), en_watermark := wm\<rparr>"
  have wm: "en_watermark s < wm" "wm \<le> en_current s" "wm \<le> up_to" using False by (auto simp: wm_def)
  have eq: "ent_consolidate up_to s = (Inr wm, s')"
    unfolding ent_consolidate_def Let_def wm_def [symmetric] s1_def [symmetric] s'_def [symmetric]
    using wm(1) by simp
  obtain n where n: "rels_ok s (en_current s) n (Suc (en_current s))" using ok by (auto simp: ent_ok_def)
  then have o: "osorted (en_rels s)" by (simp add: rels_ok_def)
  have "distinct (rel_ids s)" using osorted_distinct [OF o] by (simp add: rel_ids_def)
  note fold = retire_rels [OF o this s1_def]
  have roots1: "roots_or_default s1 r = retire wm (roots_or_default s r)" for r
  proof (cases "r \<in> set (rel_ids s)")
    case False
    then have "roots_or_default s r = roots_default"
      by (simp add: roots_or_default_def roots_def rel_ids_def om_get_notin)
    with False fold [of r] show ?thesis by (simp add: retire_default)
  qed (use fold [of r] in simp)
  have fr: "same_frame s s1" and o1: "osorted (en_rels s1)" using fold [of 0] by auto
  have sel: "en_current s' = en_current s" "en_watermark s' = wm" "en_canopy s' = en_canopy s"
    "en_fired s' = en_fired s" "en_interests s' = en_interests s" "en_registered s' = en_registered s"
    "en_rels s' = en_rels s1"
    using fr by (simp_all add: s'_def same_frame_def)
  have roots': "roots_or_default s' r = retire wm (roots_or_default s r)" for r
    using roots1 [of r] by (simp add: roots_or_default_def roots_def sel)
  have W: "ent_world s' r i t = ent_world s r i t" if "wm \<le> i" for r i t
    using retire_fact [OF ent_versions_ok [OF ok] that] by (simp add: ent_world_def roots')
  have "rels_ok s' (en_current s) n (Suc (en_current s))"
    using n retire_ok [OF _ wm(1,2)] o1 by (auto simp: rels_ok_def sel roots')
  moreover have "routed s' rel lo hi iid" if "routed s rel lo hi iid" for rel lo hi iid
    using that W wm(1) unfolding routed_def sel by (fastforce simp: )
  then have "interests_ok s'" using ok unfolding ent_ok_def interests_ok_def sel by blast
  ultimately have "ent_ok s'" using wm by (auto simp: ent_ok_def sel)
  then show ?thesis unfolding eq using W wm by (auto simp: sel)
qed

section \<open>The interpretation\<close>

lemma ent_reads_at: "ent_ok s \<Longrightarrow> en_watermark s \<le> e \<Longrightarrow>
  \<exists>rows. ent_read_at s r e = Inr rows \<and> canonical rows \<and> (\<forall>t. wsum rows t = ent_world s r e t)"
  by (simp add: ent_read_at_def facts_at_canonical facts_at_wsum)

lemma ent_range_at: "ent_ok s \<Longrightarrow> en_watermark s \<le> e \<Longrightarrow>
  represents (om_range lo hi (facts_at s r e)) (restrict (in_range lo hi) (ent_world s r e))"
  by (rule represents_om_range [OF facts_at_represents])

lemma ent_ops_sel [simp]:
  "ts_current ent_ops = en_current" "ts_watermark ent_ops = en_watermark"
  "ts_commit ent_ops = ent_commit" "ts_commit_if ent_ops = ent_commit_if"
  "ts_consolidate ent_ops = ent_consolidate" "ts_read_at ent_ops = ent_read_at"
  "ts_scan_updates ent_ops = ent_scan_updates" "ts_read_range ent_ops = range_at"
  "ts_read_range_on ent_ops s rel at col vlo vhi = fst (ent_read_range_on rel at col vlo vhi s)"
  "ts_lookup ent_ops s rel at col ks = fst (ent_lookup rel at col ks s)"
  "ts_read_containing ent_ops = ent_read_containing"
  "ts_touched_since ent_ops = ent_touched_since"
  "ts_touched_range_since ent_ops = ent_touched_range_since"
  "ts_compare ent_ops = ent_compare" "ts_reader_at ent_ops = ent_reader_at"
  by (simp_all add: ent_ops_def)

lemma ent_commit_ok: "ent_ok s \<Longrightarrow>
  \<exists>s'. ent_commit us s = (Inr (Suc (en_current s)), s') \<and> ent_ok s' \<and>
    en_current s' = Suc (en_current s) \<and> en_watermark s' = en_watermark s \<and>
    advances (ent_world s) (en_current s) us (ent_world s')"
  using apply_commit_ok [OF _ refl refl, where s = s and pre = "[]" and us = us and orig = None] by (simp add: ent_commit_def)

lemma ent_commit_if_ok: "ent_ok s \<Longrightarrow> holds_all (ent_world s) (en_current s) pre \<Longrightarrow>
  \<exists>s'. ent_commit_if pre us s = (Inr (Some (Suc (en_current s))), s') \<and> ent_ok s' \<and>
    en_current s' = Suc (en_current s) \<and> en_watermark s' = en_watermark s \<and>
    advances (ent_world s) (en_current s) us (ent_world s')"
  using apply_commit_ok [OF _ refl refl, where s = s and pre = pre and us = us and orig = None] ent_holds_all [of s pre]
  unfolding ent_commit_if_def by simp

lemma ent_commit_if_lost: "ent_ok s \<Longrightarrow> \<not> holds_all (ent_world s) (en_current s) pre \<Longrightarrow>
  ent_commit_if pre us s = (Inr None, s)"
  using ent_holds_all [of s pre] unfolding ent_commit_if_def by simp

text \<open>The laws, in the form the interface asks for.\<close>

lemma ent_horizon: "ent_ok s \<Longrightarrow> en_watermark s \<le> en_current s"
  by (simp add: ent_ok_def)

lemma ent_read_door: "ent_ok s \<Longrightarrow> e < en_watermark s \<Longrightarrow> \<exists>m. ent_read_at s r e = Inl (Err (EStore m))"
  by (simp add: ent_read_at_def door_def)

lemma ent_scan_door: "ent_ok s \<Longrightarrow> from < en_watermark s \<Longrightarrow>
  \<exists>m. ent_scan_updates s r from to = Inl (Err (EStore m))"
  by (simp add: ent_scan_updates_def door_def)

lemma ent_range_law: "ent_ok s \<Longrightarrow> en_watermark s \<le> e \<Longrightarrow>
  \<exists>rows. range_at s r e lo hi = Inr rows \<and> represents rows (restrict (in_range lo hi) (ent_world s r e))"
  by (simp add: range_at_def ent_range_at)

lemma ent_range_on_law: "ent_ok s \<Longrightarrow> en_watermark s \<le> e \<Longrightarrow>
  \<exists>rows. fst (ent_read_range_on r e col vlo vhi s) = Inr rows \<and>
    represents rows (restrict (in_range_on col vlo vhi) (ent_world s r e))"
  using ent_read_range_on_ok [of s e r col vlo vhi] by auto

lemma ent_lookup_law: "ent_ok s \<Longrightarrow> en_watermark s \<le> e \<Longrightarrow>
  \<exists>rows. fst (ent_lookup r e col ks s) = Inr rows \<and>
    represents rows (restrict (has_key col ks) (ent_world s r e))"
  using ent_lookup_ok [of s e r col ks] by auto

lemma ent_reader_read: "ent_ok s \<Longrightarrow> er_read (ent_reader_at s e) r = ent_read_at s r e"
  by (simp add: ent_reader_at_def)

lemma ent_reader_range_law: "ent_ok s \<Longrightarrow> en_watermark s \<le> e \<Longrightarrow>
  \<exists>rows. er_read_range (ent_reader_at s e) r lo hi = Inr rows \<and>
    represents rows (restrict (in_range lo hi) (ent_world s r e))"
  by (simp add: ent_reader_at_def ent_range_at)

lemma ent_reader_range_on_law: "ent_ok s \<Longrightarrow> en_watermark s \<le> e \<Longrightarrow>
  \<exists>rows. er_read_range_on (ent_reader_at s e) r col vlo vhi = Inr rows \<and>
    represents rows (restrict (in_range_on col vlo vhi) (ent_world s r e))"
  using ent_range_on_law by (simp add: ent_reader_at_def)

lemma ent_reader_containing_law: "ent_ok s \<Longrightarrow> en_watermark s \<le> e \<Longrightarrow>
  \<exists>rows. er_read_containing (ent_reader_at s e) r fcol lcol points = Inr rows \<and>
    represents rows (restrict (contains_any fcol lcol points) (ent_world s r e))"
  using ent_read_containing_ok by (simp add: ent_reader_at_def)

lemma ent_reader_touched_law: "ent_ok s \<Longrightarrow>
  \<exists>b. er_touched_since (ent_reader_at s e) from rels = Inr b \<and>
    (\<not> b \<and> from \<le> e \<longrightarrow> (\<forall>r\<in>set rels. \<forall>t. ent_world s r e t = ent_world s r from t))"
proof (cases "e \<le> from")
  case True
  then show ?thesis by (auto simp: ent_reader_at_def dest: le_antisym)
next
  case False
  assume "ent_ok s"
  with False show ?thesis using ent_touched_ok [of s "from" e rels] by (simp add: ent_reader_at_def)
qed

lemma ent_reader_edition: "er_edition (ent_reader_at s e) = e"
  by (simp add: ent_reader_at_def)

lemmas ent_laws = ent_horizon ent_future ent_commit_ok ent_commit_if_ok ent_commit_if_lost
  ent_reads_at ent_read_door ent_scan_ok ent_scan_door ent_range_law ent_range_on_law ent_lookup_law
  ent_read_containing_ok ent_touched_ok ent_touched_range_ok ent_compare_ok ent_consolidate_ok
  ent_reader_edition ent_reader_read ent_reader_range_law ent_reader_range_on_law
  ent_reader_containing_law ent_reader_touched_law

interpretation ent: trace_store ent_ops ent_ok ent_world
  by (unfold_locales, simp_all only: ent_ops_sel) (rule ent_laws; assumption)+

end
