(* ===== verification/Ent_Properties.thy ===== *)
theory Ent_Properties
  imports Ent_Interface
begin

text \<open>
  What the store and the query layers promise together, stated over the Ent's own
  operations: the reachable states of a branch, guarded commits, the raw updates, the
  indexed reads, routing, consolidation and comparison; then queries, their deltas and
  recursive views evaluated through the Ent. Small worlds at the head serve the witnesses.
\<close>

section \<open>Reachable branches\<close>

text \<open>One call of any state-changing operation of the trace store.\<close>

inductive ent_step :: "ent \<Rightarrow> ent \<Rightarrow> bool" where
  commits: "ent_commit us s = (r, s') \<Longrightarrow> ent_step s s'"
| commits_if: "ent_commit_if pre us s = (r, s') \<Longrightarrow> ent_step s s'"
| consolidates: "ent_consolidate e s = (r, s') \<Longrightarrow> ent_step s s'"
| ranges_on: "en_watermark s \<le> at \<Longrightarrow> ent_read_range_on rel at col lo hi s = (r, s') \<Longrightarrow> ent_step s s'"
| looks_up: "en_watermark s \<le> at \<Longrightarrow> ent_lookup rel at col ks s = (r, s') \<Longrightarrow> ent_step s s'"
| asks: "ent_touched_range_since from to rel lo hi s = (r, s') \<Longrightarrow> ent_step s s'"

inductive ent_reachable :: "ent \<Rightarrow> bool" where
  start: "ent_reachable ent_empty"
| step: "ent_reachable s \<Longrightarrow> ent_step s s' \<Longrightarrow> ent_reachable s'"

lemma ent_step_ok: "ent_step s s' \<Longrightarrow> ent_ok s \<Longrightarrow>
  ent_ok s' \<and> en_current s \<le> en_current s' \<and> en_watermark s \<le> en_watermark s' \<and>
  (\<forall>r e t. en_watermark s' \<le> e \<and> e \<le> en_current s \<longrightarrow> ent_world s' r e t = ent_world s r e t)"
proof (induction rule: ent_step.induct)
  case (commits us s r s')
  then show ?case using ent_commit_ok [of s us] by (auto simp: advances_def)
next
  case (commits_if pre us s r s')
  then show ?case
    using ent_commit_if_ok [of s pre us] ent_commit_if_lost [of s pre us]
    by (cases "holds_all (ent_world s) (en_current s) pre") (auto simp: advances_def)
next
  case (consolidates e s r s')
  then show ?case using ent_consolidate_ok [of s e] by auto
next
  case (ranges_on s at rel col lo hi r s')
  then show ?case using ent_read_range_on_ok [of s at rel col lo hi] by auto
next
  case (looks_up s at rel col ks r s')
  then show ?case using ent_lookup_ok [of s at rel col ks] by auto
next
  case (asks "from" to rel lo hi s r s')
  then show ?case using ent_touched_range_ok [of s "from" to rel lo hi] by auto
qed

lemma represents_restricted:
  assumes "represents rows (restrict P w)" "represents full w"
  shows "set rows = {(t, d) \<in> set full. P t}"
proof -
  have "(t, d) \<in> set rows \<longleftrightarrow> (t, d) \<in> set full \<and> P t" for t d
    using assms by (cases "P t") (simp_all add: represents_def restrict_def)
  then show ?thesis by auto
qed

section \<open>Small worlds\<close>

definition demo_edges :: "upd list" where
  "demo_edges = [(1, [VInt 1, VInt 2], 1), (1, [VInt 2, VInt 3], 1)]"

definition demo1 :: ent where
  "demo1 = snd (ent_commit demo_edges ent_empty)"

definition demo2 :: ent where
  "demo2 = snd (ent_commit [(1, [VInt 1, VInt 2], -1)] demo1)"

lemma demo1_step: "ent_step ent_empty demo1"
  unfolding demo1_def by (rule ent_step.commits [OF prod.collapse [symmetric]])

lemma demo2_step: "ent_step demo1 demo2"
  unfolding demo2_def by (rule ent_step.commits [OF prod.collapse [symmetric]])

lemma demo1_ok: "ent_ok demo1"
  using ent_step_ok [OF demo1_step ent_empty_ok] by blast

lemma demo2_ok: "ent_ok demo2"
  using ent_step_ok [OF demo2_step demo1_ok] by blast

lemma demo_editions [simp]: "en_current demo1 = 1" "en_watermark demo1 = 0"
  "en_current demo2 = 2" "en_watermark demo2 = 0"
  by code_simp+

section \<open>The store\<close>



text \<open>
  C2. A guarded commit is atomic and exclusive: when every precondition holds at the current
  edition it allocates the next edition, adds exactly its updates to the world there and
  leaves every earlier edition as it was; when one fails it changes nothing at all.
\<close>

theorem ent_commit_if_atomic:
  assumes "ent_ok s"
  shows "if \<forall>(r, t)\<in>set pre. 0 < ent_world s r (en_current s) t
    then \<exists>s'. ent_commit_if pre us s = (Inr (Some (Suc (en_current s))), s') \<and> ent_ok s' \<and>
      en_current s' = Suc (en_current s) \<and>
      (\<forall>r e t. ent_world s' r e t = (if e \<le> en_current s then ent_world s r e t
         else ent_world s r (en_current s) t + upd_weight us r t))
    else ent_commit_if pre us s = (Inr None, s)"
  using ent.commit_if_won [OF assms, of pre us] ent.commit_if_lost [OF assms, of pre us]
  by (auto simp: holds_all_def advances_def)

theorem ent_commit_if_atomic_witness:
  "ent_commit_if [(1, [VInt 1, VInt 2])] [] demo2 = (Inr None, demo2) \<and>
   (\<exists>s'. ent_commit_if [(1, [VInt 2, VInt 3])] [(2, [VInt 7], 1)] demo2 = (Inr (Some 3), s') \<and> ent_ok s')"
proof -
  have w: "ent_world demo2 1 2 [VInt 1, VInt 2] = 0" "ent_world demo2 1 2 [VInt 2, VInt 3] = 1"
    by code_simp+
  show ?thesis
    using ent_commit_if_atomic [OF demo2_ok, of "[(1, [VInt 1, VInt 2])]" "[]"]
      ent_commit_if_atomic [OF demo2_ok, of "[(1, [VInt 2, VInt 3])]" "[(2, [VInt 7], 1)]"]
    by (auto simp: w)
qed

text \<open>
  C3. The raw updates the Edition log returns for an interval sum, tuple by tuple, to the
  difference of the relation's as-of reads at its two ends.
\<close>

theorem ent_scan_telescopes:
  assumes "ent_ok s" "en_watermark s \<le> from" "from \<le> to"
  shows "\<exists>ups old new. ent_scan_updates s r from to = Inr ups \<and>
    ent_read_at s r from = Inr old \<and> ent_read_at s r to = Inr new \<and>
    (\<forall>t. wsum (update_pairs ups) t = wsum new t - wsum old t)"
proof -
  have to: "en_watermark s \<le> to" using assms(2,3) by simp
  obtain ups where "ent_scan_updates s r from to = Inr ups"
    "\<And>t. wsum (update_pairs ups) t = ent_world s r to t - ent_world s r from t"
    using ent_scan_ok [OF assms] by blast
  moreover obtain old where "ent_read_at s r from = Inr old" "\<And>t. wsum old t = ent_world s r from t"
    using ent_reads_at [OF assms(1,2)] by blast
  moreover obtain new where "ent_read_at s r to = Inr new" "\<And>t. wsum new t = ent_world s r to t"
    using ent_reads_at [OF assms(1) to] by blast
  ultimately show ?thesis by simp
qed

theorem ent_scan_telescopes_witness:
  "\<exists>ups. ent_scan_updates demo2 1 0 2 = Inr ups \<and> length ups = 3 \<and>
    wsum (update_pairs ups) [VInt 2, VInt 3] = 1 \<and> wsum (update_pairs ups) [VInt 1, VInt 2] = 0"
proof -
  have "ent_scan_updates demo2 1 0 2 = Inr [
      \<lparr>u_tuple = [VInt 1, VInt 2], u_time = time_input 1, u_diff = 1\<rparr>,
      \<lparr>u_tuple = [VInt 2, VInt 3], u_time = time_input 1, u_diff = 1\<rparr>,
      \<lparr>u_tuple = [VInt 1, VInt 2], u_time = time_input 2, u_diff = - 1\<rparr>]"
    by code_simp
  moreover have "ent_read_at demo2 1 0 = Inr []" "ent_read_at demo2 1 2 = Inr [([VInt 2, VInt 3], 1)]"
    by code_simp+
  ultimately show ?thesis
    using ent_scan_telescopes [OF demo2_ok, of 0 2 1] by simp
qed



text \<open>
  C5. Routing has no false negatives: when the canopy answers that nothing in a key range
  was touched over an interval, no tuple of the range has a different weight at its end,
  however often interests were registered and commits routed before.
\<close>

theorem ent_routing_sound:
  assumes "ent_ok s" "from \<le> to" "fst (ent_touched_range_since from to r lo hi s) = Inr False"
    and "lo \<le> t" "t < hi"
  shows "ent_world s r to t = ent_world s r from t"
proof -
  obtain b s' where b: "ent_touched_range_since from to r lo hi s = (Inr b, s')"
    "\<not> b \<and> from \<le> to \<longrightarrow> (\<forall>t. in_range lo hi t \<longrightarrow> ent_world s r to t = ent_world s r from t)"
    using ent.touched_range_since [OF assms(1)] by fastforce
  with assms show ?thesis by (simp add: in_range_def)
qed

theorem ent_routing_sound_witness:
  "fst (ent_touched_range_since 1 2 1 [VInt 2] [VInt 3] (snd (ent_touched_range_since 1 1 1 [VInt 2] [VInt 3] demo2)))
     = Inr True \<and>
   (let s = snd (ent_commit [(1, [VInt 1, VInt 9], 1)] (snd (ent_touched_range_since 1 1 1 [VInt 2] [VInt 3] demo1)))
    in fst (ent_touched_range_since 1 2 1 [VInt 2] [VInt 3] s) = Inr False \<and>
       ent_world s 1 2 [VInt 2, VInt 3] = ent_world s 1 1 [VInt 2, VInt 3])"
proof -
  define s0 where "s0 = snd (ent_touched_range_since 1 1 1 [VInt 2] [VInt 3] demo1)"
  define s where "s = snd (ent_commit [(1, [VInt 1, VInt 9], 1)] s0)"
  have "ent_step demo1 s0" unfolding s0_def by (rule ent_step.asks [OF prod.collapse [symmetric]])
  then have "ent_ok s0" using ent_step_ok demo1_ok by blast
  moreover have "ent_step s0 s" unfolding s_def by (rule ent_step.commits [OF prod.collapse [symmetric]])
  ultimately have ok: "ent_ok s" using ent_step_ok by blast
  have quiet: "fst (ent_touched_range_since 1 2 1 [VInt 2] [VInt 3] s) = Inr False"
    unfolding s_def s0_def by code_simp
  have "ent_world s 1 2 [VInt 2, VInt 3] = ent_world s 1 1 [VInt 2, VInt 3]"
    by (rule ent_routing_sound [OF ok _ quiet]) (simp, code_simp, code_simp)
  moreover have "fst (ent_touched_range_since 1 2 1 [VInt 2] [VInt 3]
      (snd (ent_touched_range_since 1 1 1 [VInt 2] [VInt 3] demo2))) = Inr True"
    by code_simp
  ultimately show ?thesis using quiet by (simp add: s_def s0_def Let_def)
qed

text \<open>
  C6. Consolidation raises the watermark by at most what was asked and never past the clock,
  keeps every read at or above the new watermark word for word, and closes the door below it.
\<close>

theorem ent_consolidate_keeps_live:
  assumes "ent_ok s"
  shows "\<exists>wm s'. ent_consolidate up_to s = (Inr wm, s') \<and> ent_ok s' \<and> en_watermark s' = wm \<and>
    wm = max (en_watermark s) (min up_to (en_current s)) \<and>
    (\<forall>r e. wm \<le> e \<longrightarrow> ent_read_at s' r e = ent_read_at s r e) \<and>
    (\<forall>r e. e < wm \<longrightarrow> (\<exists>m. ent_read_at s' r e = Inl (Err (EStore m))))"
proof -
  obtain wm s' where c: "ent_consolidate up_to s = (Inr wm, s')" "ent_ok s'" "wm = en_watermark s'"
    "en_watermark s \<le> wm" and w: "\<And>r e t. wm \<le> e \<Longrightarrow> ent_world s' r e t = ent_world s r e t"
    using ent_consolidate_ok [OF assms, of up_to] by blast
  have "wm = max (en_watermark s) (min up_to (en_current s))"
    using c(1) by (auto simp: ent_consolidate_def Let_def split: if_splits)
  moreover have "ent_read_at s' r e = ent_read_at s r e" if e: "wm \<le> e" for r e
  proof -
    obtain a where a: "ent_read_at s' r e = Inr a" "canonical a" "\<And>t. wsum a t = ent_world s' r e t"
      using ent_reads_at [OF c(2), of e r] e c(3) by blast
    obtain b where b: "ent_read_at s r e = Inr b" "canonical b" "\<And>t. wsum b t = ent_world s r e t"
      using ent_reads_at [OF assms, of e r] e c(4) by (meson order_trans)
    have "a = b" by (rule canonical_ext [OF a(2) b(2)]) (simp add: a(3) b(3) w [OF e])
    with a(1) b(1) show ?thesis by simp
  qed
  moreover have "\<exists>m. ent_read_at s' r e = Inl (Err (EStore m))" if "e < wm" for r e
    using ent_read_door [OF c(2)] that c(3) by blast
  ultimately show ?thesis
    using c(1-3) by (intro exI [of _ wm] exI [of _ s'] conjI allI impI) simp_all
qed

theorem ent_consolidate_keeps_live_witness:
  "\<exists>s'. ent_consolidate 9 demo2 = (Inr 2, s') \<and> ent_read_at s' 1 2 = Inr [([VInt 2, VInt 3], 1)] \<and>
    (\<exists>m. ent_read_at s' 1 1 = Inl (Err (EStore m)))"
proof -
  have "ent_read_at demo2 1 2 = Inr [([VInt 2, VInt 3], 1)]" by code_simp
  with ent_consolidate_keeps_live [OF demo2_ok, of 9] show ?thesis by auto
qed

text \<open>
  C7. The version compare that walks two Fact roots together returns, in tuple order, exactly
  the tuples whose weights differ between the two as-of reads, with both weights.
\<close>

theorem ent_compare_exact:
  assumes "ent_ok s" "en_watermark s \<le> a" "en_watermark s \<le> b"
  shows "\<exists>rows old new. ent_compare s r a b = Inr rows \<and>
    ent_read_at s r a = Inr old \<and> ent_read_at s r b = Inr new \<and>
    sorted_wrt (<) (map fst rows) \<and>
    set rows = {(t, wsum old t, wsum new t) | t. wsum old t \<noteq> wsum new t}"
proof -
  obtain rows where rows: "ent_compare s r a b = Inr rows"
    "compares rows (ent_world s r a) (ent_world s r b)" using ent_compare_ok [OF assms] by blast
  obtain old where old: "ent_read_at s r a = Inr old" "\<And>t. wsum old t = ent_world s r a t"
    using ent_reads_at [OF assms(1,2)] by blast
  obtain new where new: "ent_read_at s r b = Inr new" "\<And>t. wsum new t = ent_world s r b t"
    using ent_reads_at [OF assms(1,3)] by blast
  have "x \<in> set rows \<longleftrightarrow> x \<in> {(t, wsum old t, wsum new t) | t. wsum old t \<noteq> wsum new t}" for x
    using rows(2) by (cases x) (auto simp: compares_def old(2) new(2))
  then show ?thesis using rows old(1) new(1) by (auto simp: compares_def osorted_def)
qed

theorem ent_compare_exact_witness:
  "\<exists>rows. ent_compare demo2 1 1 2 = Inr rows \<and> set rows = {([VInt 1, VInt 2], 1, 0)}"
proof -
  have "ent_compare demo2 1 1 2 = Inr [([VInt 1, VInt 2], 1, 0)]" by code_simp
  then show ?thesis using ent_compare_exact [OF demo2_ok, of 1 2 1] by auto
qed

section \<open>Queries through the Ent\<close>


definition demo_paths :: query where
  "demo_paths = QProject (QJoin (QRangeRel 1 [VInt 0] [VInt 5]) (QShared 7 (QRel 1)) [1] [0]) [0, 3]"


text \<open>
  C9. The delta engine agrees with recomputation: for every operator, the delta it derives
  from the log, the indexes and the version compare is exactly the change of the plan's
  value between the two editions, consolidated and in canonical form.
\<close>

theorem ent_delta_is_change:
  assumes "ent_ok s" "en_watermark s \<le> from" "from \<le> to"
    and "copies_ok fuel (ent_world s) (contents ent_ops s from) from q"
    and "copies_ok fuel (ent_world s) (contents ent_ops s to) to q" and "arcs_ok env q"
    and "delta_ready (contents ent_ops s from) q" "delta_ready (contents ent_ops s to) q"
    and "eval_snapshot fuel q ent_ops s from = Inr a" "eval_snapshot fuel q ent_ops s to = Inr b"
  shows "\<exists>d. eval_delta fuel q ent_ops s from to = Inr d \<and> canonical d \<and>
    (\<forall>t. wsum d t = wsum b t - wsum a t)"
proof -
  have to: "en_watermark s \<le> to" using assms(2,3) by simp
  have "query_value fuel q (contents ent_ops s from) None None = Inr a"
    "query_value fuel q (contents ent_ops s to) None None = Inr b"
    using ent.snapshot_meaning [OF assms(1) _ assms(4,6)] ent.snapshot_meaning [OF assms(1) _ assms(5,6)]
      assms(2,9,10) to by simp_all
  then show ?thesis
    using ent.eval_delta_correct [OF assms(1) _ assms(3-8)] assms(2) by (auto simp: is_delta_def)
qed

definition demo_counts :: query where
  "demo_counts = QReduce (QFilter (QRel 1) (\<lambda>t. t \<noteq> [])) [0] Count"

theorem ent_delta_is_change_witness:
  "\<exists>d. eval_delta 1 demo_counts ent_ops demo2 1 2 = Inr d \<and> wsum d [VInt 1, VInt 1] = - 1 \<and>
    wsum d [VInt 2, VInt 1] = 0"
proof -
  have snap: "eval_snapshot 1 demo_counts ent_ops demo2 1 = Inr [([VInt 1, VInt 1], 1), ([VInt 2, VInt 1], 1)]"
    "eval_snapshot 1 demo_counts ent_ops demo2 2 = Inr [([VInt 2, VInt 1], 1)]" by code_simp+
  have ready: "delta_ready (contents ent_ops demo2 e) demo_counts" for e
    by (simp add: demo_counts_def rows_fit_def images_ok_def push_step_def bare_rows_def row_image_def)
  show ?thesis
    using ent_delta_is_change [OF demo2_ok _ _ _ _ _ ready ready snap, of "\<lambda>a. QRel 1"]
    by (simp add: demo_counts_def) auto
qed

section \<open>Recursive views through the Ent\<close>

text \<open>
  C10. A recursive plan over typed set relations returns, given more rounds than there are
  tuples over the values in play, and what it returns is the least set closed under its
  base and step: the transitive closure, for reachability.
\<close>

theorem ent_iterate_least_fixpoint:
  assumes "ent_ok s" "en_watermark s \<le> e"
    and "world_ok fuel (ent_world s) (contents ent_ops s e) e ar V init body"
    and "same_arity ar n init body" "arcs_ok env init" "arcs_ok env body"
    and "finite V" "card V ^ n < fuel"
  shows "\<exists>out. eval_snapshot fuel (QIterate init body) ent_ops s e = Inr out \<and> is_set out \<and>
    keys out = lfp (view_step init body
      (base_sets (view_rels init body) (contents ent_ops s e)))"
proof -
  have "copies_ok fuel (ent_world s) (contents ent_ops s e) e (QIterate init body)"
    using assms(3) by (simp add: world_ok_def)
  then show ?thesis
    using ent.view_value [OF assms(1) _ assms(3,4,7,8)] assms(2,5,6)
      ent.snapshot_meaning [OF assms(1), of e fuel "QIterate init body" env]
    by (simp add: view_def)
qed

definition demo_step :: query where
  "demo_step = QProject (QJoin QRecur (QRel 1) [1] [0]) [0, 3]"

definition demo_values :: "val set" where
  "demo_values = {VInt 1, VInt 2, VInt 3}"

lemma demo_world_ok:
  assumes "view_rels init body \<subseteq> {1}" "\<And>fuel w D. copies_ok fuel w D e init" "\<And>fuel w D. copies_ok fuel w D e body"
    and "contents ent_ops s e 1 = rows" "nonneg rows" "support rows \<subseteq> universe 2 demo_values"
  shows "world_ok fuel (ent_world s) (contents ent_ops s e) e (\<lambda>r. 2) demo_values init body"
  using assms by (auto simp: world_ok_def)

lemma demo_rows_ok:
  "nonneg [([VInt 1, VInt 2], 1), ([VInt 2, VInt 3], 1)]"
  "support [([VInt 1, VInt 2], 1), ([VInt 2, VInt 3], 1)] \<subseteq> universe 2 demo_values"
  "nonneg [([VInt 2, VInt 3], 1)]" "support [([VInt 2, VInt 3], 1)] \<subseteq> universe 2 demo_values"
  by (auto simp: nonneg_def support_def universe_def demo_values_def split: if_splits)

lemma demo_values_card: "finite demo_values" "card demo_values ^ 2 < 12"
  by (simp_all add: demo_values_def card_insert_if power2_eq_square)

lemma demo_contents: "contents ent_ops demo1 1 1 = [([VInt 1, VInt 2], 1), ([VInt 2, VInt 3], 1)]"
  "contents ent_ops demo2 1 1 = [([VInt 1, VInt 2], 1), ([VInt 2, VInt 3], 1)]"
  "contents ent_ops demo2 2 1 = [([VInt 2, VInt 3], 1)]"
  by code_simp+

lemma demo_step_facts: "view_rels (QRel 1) demo_step = {1}" "same_arity (\<lambda>r. 2) 2 (QRel 1) demo_step"
  "copies_ok fuel w D e demo_step" "arcs_ok env demo_step" "joins_ok demo_step"
  by (simp_all add: view_rels_def demo_step_def same_arity_def)

theorem ent_iterate_least_fixpoint_witness:
  "[VInt 1, VInt 3] \<in> lfp (view_step (QRel 1) demo_step
    (base_sets (view_rels (QRel 1) demo_step) (contents ent_ops demo1 1)))"
proof -
  have out: "eval_snapshot 12 (QIterate (QRel 1) demo_step) ent_ops demo1 1 =
      Inr [([VInt 1, VInt 2], 1), ([VInt 1, VInt 3], 1), ([VInt 2, VInt 3], 1)]" by code_simp
  have "world_ok 12 (ent_world demo1) (contents ent_ops demo1 1) 1 (\<lambda>r. 2) demo_values (QRel 1) demo_step"
    by (rule demo_world_ok [OF _ _ _ demo_contents(1) demo_rows_ok(1,2)]) (simp_all add: demo_step_facts)
  from ent_iterate_least_fixpoint [OF demo1_ok _ this demo_step_facts(2) _ _ demo_values_card, of "\<lambda>a. QRel 1"]
  obtain m where m: "eval_snapshot 12 (QIterate (QRel 1) demo_step) ent_ops demo1 1 = Inr m"
    "keys m = lfp (view_step (QRel 1) demo_step
      (base_sets (view_rels (QRel 1) demo_step) (contents ent_ops demo1 1)))"
    by (auto simp: demo_step_facts)
  have "[VInt 1, VInt 3] \<in> keys m" using m(1) by (simp only: out) (auto simp: keys_def)
  then show ?thesis by (simp only: m(2))
qed

text \<open>
  C11. A maintained recursive view stays equal to recomputation whatever the base does:
  after additions and deletions alike (deletion overdeletes and rederives), \<open>advance\<close>
  returns, its stored fixpoint is what evaluating the recursive plan afresh at the new
  edition gives, and the delta it reports is the difference. No join of the plans may read
  one relation, or the recursion variable, on both of its sides.
\<close>

theorem ent_advance_is_recompute:
  assumes "ent_ok s" "en_watermark s \<le> fx_at fx" "en_watermark s \<le> to"
    and "world_ok fuel (ent_world s) (contents ent_ops s (fx_at fx)) (fx_at fx) ar V (fx_init fx) (fx_step fx)"
    and "world_ok fuel (ent_world s) (contents ent_ops s to) to ar V (fx_init fx) (fx_step fx)"
    and "maintainable ar n (fx_init fx) (fx_step fx)" "arcs_ok env (fx_init fx)" "arcs_ok env (fx_step fx)"
    and "finite V" "card V ^ n < fuel"
    and "fixpoint_new fuel init body ent_ops s at = Inr fx"
  shows "\<exists>d fx'. advance fuel fx ent_ops s to = Inr (d, fx') \<and> fx_at fx' = to \<and>
    eval_snapshot fuel (QIterate init body) ent_ops s to = Inr (fx_r fx') \<and>
    (\<forall>t. wsum d t = wsum (fx_r fx') t - wsum (fx_r fx) t)"
proof -
  obtain r where r: "eval_snapshot fuel (QIterate init body) ent_ops s at = Inr r"
    and fx: "fx_init fx = init" "fx_step fx = body" "fx_at fx = at" "fx_r fx = r"
    "fx_base_rels fx = collect_rels init @ collect_rels body"
    using assms(11) by (auto simp: fixpoint_new_def result_simps)
  have rels: "set (fx_base_rels fx) = view_rels (fx_init fx) (fx_step fx)"
    by (simp add: fx view_rels_def set_collect_rels)
  have snap: "eval_snapshot fuel (QIterate init body) ent_ops s e =
      query_value fuel (QIterate init body) (contents ent_ops s e) None None"
    if "en_watermark s \<le> e" "world_ok fuel (ent_world s) (contents ent_ops s e) e ar V init body" for e
    by (rule ent.snapshot_meaning [OF assms(1), where env = env])
      (use that assms(7,8) in \<open>simp_all add: world_ok_def fx\<close>)
  have "query_value fuel (QIterate (fx_init fx) (fx_step fx)) (contents ent_ops s (fx_at fx)) None None = Inr (fx_r fx)"
    using snap [of at] r assms(2,4) by (simp add: fx)
  from ent.advance_correct [OF assms(1) _ _ assms(4-10) rels this] assms(2,3)
  obtain d fx' where "advance fuel fx ent_ops s to = Inr (d, fx')" "fx_at fx' = to"
    "query_value fuel (QIterate init body) (contents ent_ops s to) None None = Inr (fx_r fx')"
    "is_delta d (fx_r fx) (fx_r fx')"
    by (auto simp: fx)
  then show ?thesis using snap [of to] assms(3,5) by (auto simp: fx is_delta_def)
qed

lemma fixpoint_new_sel: "fixpoint_new fuel init body ops s at = Inr fx \<Longrightarrow>
  fx_init fx = init \<and> fx_step fx = body \<and> fx_at fx = at"
  by (auto simp: fixpoint_new_def result_simps)

definition demo_fixpoint :: fixpoint where
  "demo_fixpoint = (case fixpoint_new 12 (QRel 1) demo_step ent_ops demo2 1 of Inr fx \<Rightarrow> fx)"

theorem ent_advance_is_recompute_witness:
  "\<exists>d fx'. advance 12 demo_fixpoint ent_ops demo2 2 = Inr (d, fx') \<and>
    eval_snapshot 12 (QIterate (QRel 1) demo_step) ent_ops demo2 2 = Inr (fx_r fx') \<and>
    wsum d [VInt 1, VInt 3] = - 1"
proof -
  have "\<not> isl (fixpoint_new 12 (QRel 1) demo_step ent_ops demo2 1)" by code_simp
  then have new: "fixpoint_new 12 (QRel 1) demo_step ent_ops demo2 1 = Inr demo_fixpoint"
    by (cases "fixpoint_new 12 (QRel 1) demo_step ent_ops demo2 1") (simp_all add: demo_fixpoint_def)
  have r: "fx_r demo_fixpoint = [([VInt 1, VInt 2], 1), ([VInt 1, VInt 3], 1), ([VInt 2, VInt 3], 1)]"
    and out: "eval_snapshot 12 (QIterate (QRel 1) demo_step) ent_ops demo2 2 = Inr [([VInt 2, VInt 3], 1)]"
    by code_simp+
  have fx: "fx_init demo_fixpoint = QRel 1" "fx_step demo_fixpoint = demo_step" "fx_at demo_fixpoint = 1"
    using fixpoint_new_sel [OF new] by simp_all
  have "world_ok 12 (ent_world demo2) (contents ent_ops demo2 1) 1 (\<lambda>r. 2) demo_values (QRel 1) demo_step"
    "world_ok 12 (ent_world demo2) (contents ent_ops demo2 2) 2 (\<lambda>r. 2) demo_values (QRel 1) demo_step"
    by (rule demo_world_ok [OF _ _ _ demo_contents(2) demo_rows_ok(1,2)], simp_all add: demo_step_facts)
      (rule demo_world_ok [OF _ _ _ demo_contents(3) demo_rows_ok(3,4)], simp_all add: demo_step_facts)
  then obtain d fx' where a: "advance 12 demo_fixpoint ent_ops demo2 2 = Inr (d, fx')"
    "eval_snapshot 12 (QIterate (QRel 1) demo_step) ent_ops demo2 2 = Inr (fx_r fx')"
    "\<And>t. wsum d t = wsum (fx_r fx') t - wsum (fx_r demo_fixpoint) t"
    using ent_advance_is_recompute [OF demo2_ok, of demo_fixpoint 2 12 "\<lambda>r. 2" demo_values 2
        "\<lambda>a. QRel 1" "QRel 1" demo_step 1] new demo_values_card
    by (auto simp: fx maintainable_def demo_step_facts)
  moreover have "fx_r fx' = [([VInt 2, VInt 3], 1)]" using a(2) out by simp
  ultimately show ?thesis using a(3) [of "[VInt 1, VInt 3]"] by (auto simp: r)
qed

definition self_join :: query where
  "self_join = QProject (QJoin (QRel 1) (QRel 1) [1] [0]) [0, 3]"

definition extend_step :: query where
  "extend_step = QProject (QJoin QRecur (QRel 2) [1] [0]) [0, 3]"


end
