(* ===== verification/Ent_Log.thy ===== *)
theory Ent_Log
  imports Ent_Interface
begin

text \<open>
  The Edition log read edition by edition: a scan returns the raw updates in commit order,
  and a commit adds exactly its own. With this the Ent is a \<open>logged_store\<close>, and what the
  process layer proves about replay holds of it.
\<close>

section \<open>The log of one edition\<close>

definition entry_rows :: "(edition \<times> zset) list \<Rightarrow> (edition \<times> nat) \<times> log_entry \<Rightarrow> rows" where
  "entry_rows vs x = (case log_rows vs x of Inr us \<Rightarrow> map (\<lambda>u. (u_tuple u, u_diff u)) us | Inl _ \<Rightarrow> [])"

definition roots_log :: "rel_roots \<Rightarrow> edition \<Rightarrow> rows" where
  "roots_log r e = concat (map (entry_rows (versions r)) (filter (\<lambda>x. fst (fst x) = e) (log r)))"

definition ent_log :: "ent \<Rightarrow> rel_id \<Rightarrow> edition \<Rightarrow> rows" where
  "ent_log s rel = roots_log (roots_or_default s rel)"

lemma filter_by_key:
  fixes f :: "'a \<Rightarrow> nat"
  assumes "sorted (map f l)"
  shows "filter (\<lambda>x. a < f x \<and> f x \<le> b) l = concat (map (\<lambda>e. filter (\<lambda>x. f x = e) l) [Suc a..<Suc b])"
proof (induction b)
  case (Suc b)
  have split: "filter (\<lambda>x. a < f x \<and> f x \<le> Suc b) l =
      filter (\<lambda>x. a < f x \<and> f x \<le> b) l @ filter (\<lambda>x. f x = Suc b) l" if "a \<le> b"
    using assms
  proof (induction l)
    case (Cons x l)
    then have IH: "filter (\<lambda>x. a < f x \<and> f x \<le> Suc b) l =
        filter (\<lambda>x. a < f x \<and> f x \<le> b) l @ filter (\<lambda>x. f x = Suc b) l" by simp
    have "filter (\<lambda>x. a < f x \<and> f x \<le> b) l = []" if "Suc b \<le> f x"
      using Cons.prems that by (auto simp: filter_empty_conv)
    with IH show ?case using that by (cases "Suc b \<le> f x") auto
  qed simp
  show ?case
  proof (cases "a \<le> b")
    case True
    then show ?thesis using Suc.IH split by simp
  next
    case False
    then show ?thesis by (auto simp: filter_empty_conv)
  qed
qed (simp add: filter_empty_conv)

lemma log_rows_entry:
  assumes "log_ok e n g r" "x \<in> set (log r)"
  shows "log_rows (versions r) x =
    Inr (map (\<lambda>(t, d). \<lparr>u_tuple = t, u_time = time_input (fst (fst x)), u_diff = d\<rparr>) (entry_rows (versions r) x))"
proof -
  obtain us where us: "log_rows (versions r) x = Inr us" using log_rows_ok [OF assms] by blast
  obtain i j y where x: "x = ((i, j), y)" by (metis prod.exhaust)
  have "u_time u = time_input i" if "u \<in> set us" for u
    using us that by (cases y) (auto simp: x split: option.splits)
  then have id: "map (\<lambda>u. \<lparr>u_tuple = u_tuple u, u_time = time_input i, u_diff = u_diff u\<rparr>) us = us"
    by (intro map_idI) auto
  have "entry_rows (versions r) x = map (\<lambda>u. (u_tuple u, u_diff u)) us" by (simp add: entry_rows_def us)
  then show ?thesis by (simp add: us comp_def) (simp add: x id)
qed

lemma rmapM_Inr: "(\<And>x. x \<in> set xs \<Longrightarrow> f x = Inr (g x)) \<Longrightarrow> rmapM f xs = Inr (map g xs)"
  by (induction xs) auto

lemma log_sorted: "osorted (log r) \<Longrightarrow> sorted (map (\<lambda>x. fst (fst x)) (log r))"
  unfolding osorted_def sorted_map sorted_wrt_map
  by (rule sorted_wrt_mono_rel) (auto simp: less_prod_def)

lemma concat_map_concat: "concat (map g (concat (map h es))) = concat (map (\<lambda>e. concat (map g (h e))) es)"
  by (induction es) simp_all

lemma scan_by_edition:
  assumes "log_ok e n g r"
  shows "rbind (rmapM (log_rows (versions r)) (om_range (from + 1, 0) (to + 1, 0) (log r))) (\<lambda>rows. Inr (concat rows)) =
    Inr (log_updates (roots_log r) from to)"
proof -
  let ?mk = "\<lambda>e. map (\<lambda>(t, d). \<lparr>u_tuple = t, u_time = time_input e, u_diff = d\<rparr>)"
  let ?g = "\<lambda>x. ?mk (fst (fst x)) (entry_rows (versions r) x)"
  have span: "om_range (from + 1, 0) (to + 1, 0) (log r) =
      concat (map (\<lambda>e. filter (\<lambda>x. fst (fst x) = e) (log r)) [Suc from..<Suc to])"
    unfolding log_span by (rule filter_by_key, rule log_sorted) (use assms in \<open>simp add: log_ok_def\<close>)
  have run: "rmapM (log_rows (versions r)) (om_range (from + 1, 0) (to + 1, 0) (log r)) =
      Inr (map ?g (om_range (from + 1, 0) (to + 1, 0) (log r)))"
    by (rule rmapM_Inr, rule log_rows_entry [OF assms]) (auto simp: om_range_def)
  have one: "concat (map ?g (filter (\<lambda>x. fst (fst x) = e) l)) =
      ?mk e (concat (map (entry_rows (versions r)) (filter (\<lambda>x. fst (fst x) = e) l)))" for e l
    by (induction l) auto
  have "concat (map ?g (om_range (from + 1, 0) (to + 1, 0) (log r))) =
      concat (map (\<lambda>e. concat (map ?g (filter (\<lambda>x. fst (fst x) = e) (log r)))) [Suc from..<Suc to])"
    unfolding span by (simp only: concat_map_concat)
  then show ?thesis
    unfolding run by (simp add: one log_updates_def roots_log_def)
qed

lemma ent_scan_log:
  assumes "ent_ok s" "en_watermark s \<le> from"
  shows "ent_scan_updates s r from to = Inr (log_updates (ent_log s r) from to)"
proof -
  obtain n where n: "log_ok (en_current s) n (Suc (en_current s)) (roots_or_default s r)"
    using ent_roots_ok [OF assms(1), of r] by (auto simp: roots_ok_def)
  show ?thesis
  proof (cases "roots s r")
    case None
    then have "roots_log (roots_or_default s r) = (\<lambda>e. [])"
      by (simp add: fun_eq_iff roots_log_def roots_or_default_def roots_default_def)
    then show ?thesis
      using None assms(2) by (simp add: ent_scan_updates_def ent_log_def log_updates_def)
  next
    case (Some r')
    then have "roots_or_default s r = r'" by (simp add: roots_or_default_def)
    then show ?thesis
      using Some assms(2) scan_by_edition [OF n, of "from" to] by (simp add: ent_scan_updates_def ent_log_def)
  qed
qed

section \<open>What a commit logs\<close>

lemma step_roots_log:
  assumes "roots_ok wm e n e r"
  shows "roots_log (step_roots e n t d r) = (roots_log r)(e := roots_log r e @ [(t, d)])"
proof -
  have v: "versions_ok e r" and l: "log_ok e n e r" using assms by (auto simp: roots_ok_def)
  define net where "net = wsum (roots_fact r e) t + d"
  define root where "root = set_weight t net (roots_fact r e)"
  note sel = step_roots_sel [OF v net_def root_def, of n]
  have snoc: "log (step_roots e n t d r) = log r @ [((e, n), LUpdate t d)]"
    using l om_put_snoc [of "log r" "(e, n)"] by (simp add: sel(2) log_ok_def)
  have vs: "osorted (versions r)" using v by (simp add: versions_ok_def)
  have "entry_rows (versions (step_roots e n t d r)) x = entry_rows (versions r) x" if "x \<in> set (log r)" for x
  proof -
    obtain i j y where x: "x = ((i, j), y)" by (metis prod.exhaust)
    have "i < e" if "y = LGraft lo hi" for lo hi
      using l \<open>x \<in> set (log r)\<close> that by (force simp: log_ok_def x)
    then show ?thesis by (cases y) (auto simp: entry_rows_def x sel(1) vs)
  qed
  then have old: "map (entry_rows (versions (step_roots e n t d r))) (filter (\<lambda>x. fst (fst x) = i) (log r)) =
      map (entry_rows (versions r)) (filter (\<lambda>x. fst (fst x) = i) (log r))" for i
    by (intro map_cong) auto
  have new: "entry_rows vs ((e, n), LUpdate t d) = [(t, d)]" for vs by (simp add: entry_rows_def)
  show ?thesis
    unfolding fun_eq_iff roots_log_def snoc by (simp add: old new)
qed

lemma apply_updates_log:
  assumes "rels_ok s e n e" "en_watermark s < e"
  shows "ent_log (apply_updates e n us s) r = (ent_log s r)(e := ent_log s r e @ rel_rows r us)"
  using assms
proof (induction e n us s rule: apply_updates.induct)
  case (1 e i s)
  then show ?case by (simp add: rel_rows_def)
next
  case (2 e n rel u d us s)
  define s1 where "s1 = fold_fact e rel u d (append_log e n rel u d s)"
  have o: "osorted (en_rels s)" using 2(2) by (simp add: rels_ok_def)
  note one = apply_one [OF o s1_def]
  have wm: "en_watermark s1 = en_watermark s" using one(2) by (simp add: same_frame_def)
  have roots: "roots_ok (en_watermark s) e n e (roots_or_default s r)" for r
    using 2(2) by (simp add: rels_ok_def)
  have ok1: "rels_ok s1 e (Suc n) e"
    using one(1) step_roots_ok(1) [OF roots 2(3)] roots_ok_widen [OF roots, of e "Suc n"]
    by (auto simp: rels_ok_def wm one(3))
  have L1: "ent_log s1 r = (ent_log s r)(e := ent_log s r e @ (if r = rel then [(u, d)] else []))" for r
    using step_roots_log [OF roots] by (simp add: ent_log_def one(3))
  have "ent_log (apply_updates e (Suc n) us s1) r = (ent_log s1 r)(e := ent_log s1 r e @ rel_rows r us)"
    using 2(1) [folded s1_def, OF ok1] 2(3) unfolding wm .
  moreover have "rel_rows r ((rel, u, d) # us) = (if r = rel then [(u, d)] else []) @ rel_rows r us"
    by (simp add: rel_rows_def)
  ultimately show ?case by (simp add: s1_def [symmetric] L1)
qed

lemma ent_log_cong: "en_rels s' = en_rels s \<Longrightarrow> ent_log s' r = ent_log s r"
  by (simp add: ent_log_def roots_or_default_def roots_def)

lemma apply_commit_log:
  assumes "ent_ok s"
  shows "ent_log (apply_commit (Suc (en_current s)) pre us orig s) r =
    (ent_log s r)(Suc (en_current s) := rel_rows r us)"
proof -
  let ?e = "Suc (en_current s)"
  define s1 where "s1 = s\<lparr>en_patches := om_put ?e (PCommit pre (remdups_adj (sort (map fst us))) orig) (en_patches s)\<rparr>"
  obtain n where n: "rels_ok s (en_current s) n ?e" using assms by (auto simp: ent_ok_def)
  have same: "roots_or_default s1 = roots_or_default s" "en_rels s1 = en_rels s" "en_watermark s1 = en_watermark s"
    by (simp_all add: s1_def roots_or_default_def [abs_def] roots_def)
  have "rels_ok s1 ?e 0 ?e"
    using n roots_ok_advance [of "en_watermark s" "en_current s" n] by (simp add: rels_ok_def same)
  moreover have "en_watermark s1 < ?e" using assms by (simp add: s1_def ent_ok_def)
  ultimately have L: "ent_log (apply_updates ?e 0 us s1) r = (ent_log s1 r)(?e := ent_log s1 r ?e @ rel_rows r us)"
    by (rule apply_updates_log)
  have "filter (\<lambda>x. fst (fst x) = ?e) (log (roots_or_default s r)) = []"
    using n by (fastforce simp: rels_ok_def roots_ok_def log_ok_def filter_empty_conv less_prod_def)
  then have empty: "ent_log s r ?e = []" by (simp add: ent_log_def roots_log_def)
  have "ent_log (apply_commit ?e pre us orig s) r = ent_log (apply_updates ?e 0 us s1) r"
    by (rule ent_log_cong) (simp add: apply_commit_def s1_def route_commit_def Let_def)
  then show ?thesis using L empty ent_log_cong [of s1 s r] by (simp add: s1_def)
qed

lemma ent_log_laws:
  "ent_ok s \<Longrightarrow> en_watermark s \<le> from \<Longrightarrow> from \<le> to \<Longrightarrow> to \<le> en_current s \<Longrightarrow>
     ent_scan_updates s r from to = Inr (log_updates (ent_log s r) from to)"
  "ent_ok s \<Longrightarrow> ent_commit us s = (Inr e, s') \<Longrightarrow>
     ent_log s' r = (ent_log s r)(Suc (en_current s) := rel_rows r us)"
  "ent_ok s \<Longrightarrow> ent_commit_if pre us s = (Inr (Some e), s') \<Longrightarrow>
     ent_log s' r = (ent_log s r)(Suc (en_current s) := rel_rows r us)"
  using ent_scan_log apply_commit_log
  by (auto simp: ent_commit_def ent_commit_if_def Let_def split: if_splits)

interpretation ent_logged: logged_store ent_ops ent_ok ent_world ent_log
  by unfold_locales (simp_all add: ent_log_laws)

section \<open>The required methods alone\<close>

text \<open>
  An Ent whose history was never consolidated, used through the default methods of the trait
  instead of its own indexes, is a store too: the defaults and the overrides keep one contract.
\<close>

definition whole_history :: "ent \<Rightarrow> bool" where
  "whole_history s \<longleftrightarrow> ent_ok s \<and> en_watermark s = 0"

interpretation ent_base: base_store en_current ent_commit ent_commit_if ent_read_at ent_scan_updates whole_history ent_world
proof
  show "\<exists>s'. ent_commit us s = (Inr (Suc (en_current s)), s') \<and> whole_history s' \<and>
      en_current s' = Suc (en_current s) \<and> advances (ent_world s) (en_current s) us (ent_world s')"
    if "whole_history s" for us s
    using ent_commit_ok [of s us] that by (auto simp: whole_history_def)
  show "\<exists>s'. ent_commit_if pre us s = (Inr (Some (Suc (en_current s))), s') \<and> whole_history s' \<and>
      en_current s' = Suc (en_current s) \<and> advances (ent_world s) (en_current s) us (ent_world s')"
    if "whole_history s" "holds_all (ent_world s) (en_current s) pre" for pre us s
    using ent_commit_if_ok [of s pre us] that by (auto simp: whole_history_def)
  show "ent_world s r e t = ent_world s r (en_current s) t" if "whole_history s" "en_current s \<le> e" for s r e t
    by (rule ent_future) (use that in \<open>simp_all add: whole_history_def\<close>)
  show "ent_commit_if pre us s = (Inr None, s)"
    if "whole_history s" "\<not> holds_all (ent_world s) (en_current s) pre" for pre us s
    by (rule ent_commit_if_lost) (use that in \<open>simp_all add: whole_history_def\<close>)
  show "\<exists>rows. ent_read_at s r e = Inr rows \<and> canonical rows \<and> (\<forall>t. wsum rows t = ent_world s r e t)"
    if "whole_history s" for s r e
    by (rule ent_reads_at) (use that in \<open>simp_all add: whole_history_def\<close>)
  show "\<exists>ups. ent_scan_updates s r from to = Inr ups \<and>
      (\<forall>t. wsum (update_pairs ups) t = ent_world s r to t - ent_world s r from t)"
    if "whole_history s" "from \<le> to" for s r "from" to
    by (rule ent_scan_ok) (use that in \<open>simp_all add: whole_history_def\<close>)
qed

end
