(* ===== verification/Proc_Properties.thy ===== *)
theory Proc_Properties
  imports Ent_Properties Ent_Log
begin

text \<open>
  What the process layer promises when it runs on the Ent: the wire format, schemas and the
  commit boundary, view streams, mailboxes and counters, processes and their replay, timers
  and the clock, watches and maintained copies, history collection. The laws are those of the
  components, read off the interpretation of the store interface on the Ent.
\<close>

section \<open>Small worlds\<close>

abbreviation ent_now :: "ent \<Rightarrow> rel_id \<Rightarrow> tuple \<Rightarrow> diff" where
  "ent_now \<equiv> world_now ent_ops ent_world"

abbreviation ent_later :: "ent \<Rightarrow> ent \<Rightarrow> bool" where
  "ent_later \<equiv> later ent_ops ent_ok ent_world"

definition branch :: "upd list \<Rightarrow> ent" where
  "branch us = snd (ent_commit us ent_empty)"

lemma branch_facts:
  "ent_ok (branch us)" "en_current (branch us) = 1" "en_watermark (branch us) = 0"
  "ent_now (branch us) r t = upd_weight us r t"
proof -
  have e: "en_current ent_empty = 0" "en_watermark ent_empty = 0" by code_simp+
  obtain s' where s': "ent_commit us ent_empty = (Inr 1, s')" "ent_ok s'" "en_current s' = 1"
    "en_watermark s' = 0" "advances (ent_world ent_empty) 0 us (ent_world s')"
    using ent_commit_ok [OF ent_empty_ok, of us] by (auto simp: e)
  then show "ent_ok (branch us)" "en_current (branch us) = 1" "en_watermark (branch us) = 0"
    "ent_now (branch us) r t = upd_weight us r t"
    by (simp_all add: branch_def world_now_def advances_def)
qed

lemma ent_later_refl: "ent_ok s \<Longrightarrow> ent_later s s"
  by (rule later_refl)

lemma ent_stepped:
  "stepped ent_ops ent_ok ent_world s us s' \<Longrightarrow> ent_now s' r t = ent_now s r t + upd_weight us r t"
  by (rule stepped_now)

text \<open>The step and the recorded run as plain case distinctions, for evaluating them.\<close>

lemma step_checked_apply:
  "step_checked ops sch chk p peer s =
     (case prepare ops s p of
        Inl e \<Rightarrow> (Inl e, s)
      | Inr None \<Rightarrow> (Inr None, s)
      | Inr (Some sp) \<Rightarrow>
          (case commit_patch_checked ops sch chk (snd sp) (pr_authority p) (peer s) of
             (Inl e, t) \<Rightarrow> (Inl e, t)
           | (Inr out, t) \<Rightarrow> (Inr (Some out), t)))"
  by (auto simp: step_checked_def obind_apply opause_def split: sum.splits option.splits prod.splits)

lemma record_run_apply:
  "record_run 0 ops sch p peers k s = (Inl OutOfFuel, s)"
  "record_run (Suc fuel) ops sch p peers k s =
     (case prepare ops s p of
        Inl e \<Rightarrow> (Inl e, s)
      | Inr None \<Rightarrow> (Inr [], s)
      | Inr (Some sp) \<Rightarrow>
          (case commit_patch ops sch (snd sp) (pr_authority p) (peers k s) of
             (Inl e, t) \<Rightarrow> (Inl e, t)
           | (Inr Rejected, t) \<Rightarrow> (Inr [], t)
           | (Inr (Committed e), t) \<Rightarrow>
               (case record_run fuel ops sch p peers (Suc k) t of
                  (Inl f, u) \<Rightarrow> (Inl f, u)
                | (Inr rest, u) \<Rightarrow> (Inr (\<lparr>rs_seq = fst sp, rs_patch = snd sp, rs_edition = e\<rparr> # rest), u))))"
  by (auto simp: obind_apply opause_def ofail_def oret_def
      split: sum.splits option.splits prod.splits commit_outcome.splits)

lemma commit_run:
  assumes "lawful (sch s) chk p a" "ent_commit_if (patch_preconditions p) (patch_updates p) s = (Inr (Some e), t)"
  shows "commit_patch_checked ent_ops sch chk p a s = (Inr (Committed e), t)"
  using assms(2) check_patch_ok [OF assms(1)]
  by (simp add: commit_patch_checked_def obind_oread_Inr patch_updates_def obind_apply outcome_of_def)

section \<open>The wire\<close>

text \<open>
  C13. What is encoded decodes to itself: a message, the envelope that carries it between
  domains, and a schema, whenever their texts are UTF-8, their lengths fit 32 bits and their
  values nest no deeper than the format allows.
\<close>

theorem wire_roundtrip:
  assumes "tuple_encodable (m_body m)" "schema_encodable sc"
  shows "decode_message (encode_message m) = Inr m \<and>
    decode_envelope (encode_envelope seq m) = Inr (seq, m) \<and>
    decode_schema (encode_schema sc) = Inr sc"
  using decode_message_encode [OF assms(1)] decode_envelope_encode [OF assms(1)] decode_schema_encode [OF assms(2)]
  by simp

definition demo_message :: message where
  "demo_message = \<lparr>m_inbox = 10, m_body = [VEnt 7, VTuple [VText ''hi'', VBool True]]\<rparr>"

definition demo_schema :: schema where
  "demo_schema = [\<lparr>col_name = ''id'', col_ty = TyEnt\<rparr>]"

lemma demo_schema_encodable: "schema_encodable demo_schema"
proof -
  have "text_ok ''id''" by code_simp
  then show ?thesis by (simp add: demo_schema_def schema_encodable_def column_encodable_def)
qed

theorem wire_roundtrip_witness:
  "decode_message (encode_message demo_message) = Inr demo_message \<and>
   decode_schema (encode_schema demo_schema) = Inr demo_schema"
proof -
  have "text_ok ''hi''" by code_simp
  then have "tuple_encodable (m_body demo_message)"
    by (simp add: demo_message_def tuple_encodable_def MAX_DEPTH_def)
  then show ?thesis using wire_roundtrip demo_schema_encodable by blast
qed


section \<open>Schemas and the commit boundary\<close>

text \<open>
  C15. A schema registration is accepted exactly when the relation has no schema, or has this
  one, or an older one that the new one extends; a refused one changes nothing. What was in
  force before its edition stays in force there, for every relation, and what a reader sees
  at an edition is a prefix of what it sees later.
\<close>

theorem schema_evolution:
  assumes "context_ok c" "schema_encodable sc" "e < 2 ^ 63 - 1"
    and "put_schema r sc e c = (x, c')"
  shows "context_ok c' \<and>
    (\<exists>res. latest_schema c r = Inr res \<and>
       (x = Inr () \<longleftrightarrow> (case res of None \<Rightarrow> True | Some (e0, s0) \<Rightarrow> s0 = sc \<or> is_additive_over sc s0 \<and> e0 < e))) \<and>
    (if x = Inr () then get_schema c' r = Inr (Some sc) else c' = c) \<and>
    (\<forall>r' e'. e' < e \<longrightarrow> schema_at c' r' e' = schema_at c r' e') \<and>
    (\<forall>e1 e2 s1. e1 \<le> e2 \<longrightarrow> e2 < 2 ^ 63 - 1 \<longrightarrow> schema_at c' r e1 = Inr (Some s1) \<longrightarrow>
       (\<exists>s2. schema_at c' r e2 = Inr (Some s2) \<and> is_additive_over s2 s1))"
proof -
  obtain res where l: "latest_schema c r = Inr res" and n: "is_newest (registered c r) res"
    using latest_newest [OF assms(1), of r] by blast
  let ?ok = "case res of None \<Rightarrow> True | Some (e0, s0) \<Rightarrow> s0 = sc \<or> is_additive_over sc s0 \<and> e0 < e"
  have out: "context_ok c' \<and> (x = Inr () \<longleftrightarrow> ?ok) \<and> (if x = Inr () then get_schema c' r = Inr (Some sc) else c' = c)"
  proof (cases "\<forall>e0 s0. res = Some (e0, s0) \<longrightarrow> s0 \<noteq> sc \<and> is_additive_over sc s0 \<and> e0 < e")
    case True
    then obtain c2 where c2: "put_schema r sc e c = (Inr (), c2)" "context_ok c2"
      "registered c2 = (registered c)(r := (registered c r)(e := Some sc))"
      using ent_schemas.law_written [OF assms(1-3) n] by blast
    obtain res' where g: "get_schema c2 r = Inr (map_option snd res')" and n': "is_newest (registered c2 r) res'"
      using ent_schemas.law_latest [OF c2(2), of r] by blast
    have "is_newest (registered c2 r) (Some (e, sc))"
      using True n by (cases res) (fastforce simp: c2(3) is_newest_def)+
    then have "res' = Some (e, sc)" using n' is_newest_unique by blast
    then show ?thesis using True assms(4) c2 g by (auto split: option.splits)
  next
    case False
    then obtain e0 s0 where r: "res = Some (e0, s0)" and bad: "s0 = sc \<or> \<not> (is_additive_over sc s0 \<and> e0 < e)" by blast
    have n': "is_newest (registered c r) (Some (e0, s0))" using n r by simp
    show ?thesis
    proof (cases "s0 = sc")
      case True
      then have "x = Inr ()" "c' = c" using ent_schemas.law_same [OF assms(1)] n' assms(4) by auto
      then show ?thesis using assms(1) l r True by (simp add: get_schema_def)
    next
      case False
      then obtain m where "put_schema r sc e c = (Inl (Err (ESchema m)), c)"
        using ent_schemas.law_refused [OF assms(1) n' False] bad by blast
      then show ?thesis using assms(1,4) r False bad by auto
    qed
  qed
  have past: "schema_at c' r' e' = schema_at c r' e'" if "e' < e" for r' e'
    using ent_schemas.put_keeps_past [OF assms(1-3) that assms(4)] by blast
  have grows: "\<exists>s2. schema_at c' r e2 = Inr (Some s2) \<and> is_additive_over s2 s1"
    if "e1 \<le> e2" "e2 < 2 ^ 63 - 1" "schema_at c' r e1 = Inr (Some s1)" for e1 e2 s1
    using ent_schemas.as_of_grows [of c' e2 e1 r s1] out that by blast
  show ?thesis using out l past grows by blast
qed

theorem schema_evolution_witness:
  "\<exists>x c'. put_schema 1 demo_schema 5 [] = (x, c') \<and> context_ok c' \<and> get_schema c' 1 = Inr (Some demo_schema)"
proof -
  have "is_newest (registered [] 1) None" by (simp add: is_newest_def registered_def)
  then obtain c' where put: "put_schema 1 demo_schema 5 [] = (Inr (), c')"
    using ent_schemas.law_written [OF context_ok_Nil demo_schema_encodable, of 5 1 None] by auto
  then show ?thesis using schema_evolution [OF context_ok_Nil demo_schema_encodable _ put] by auto
qed

text \<open>
  C16. A commit through the boundary has three outcomes: a patch that breaks the authority,
  schema or behavior law is refused with an error; a lawful one whose preconditions fail is
  rejected; any other is the next edition and adds exactly its asserts, retracts, messages,
  timers and cursor move. In the first two cases the store is as it was.
\<close>

theorem ent_commit_boundary:
  assumes "ent_ok s"
  shows "if \<not> lawful (sch s) chk p a then \<exists>e. commit_patch_checked ent_ops sch chk p a s = (Inl e, s)
    else if \<forall>(r, t)\<in>set (patch_preconditions p). 0 < ent_now s r t
    then \<exists>s'. commit_patch_checked ent_ops sch chk p a s = (Inr (Committed (Suc (en_current s))), s') \<and>
      ent_ok s' \<and> en_current s' = Suc (en_current s) \<and>
      (\<forall>r t. ent_now s' r t = ent_now s r t + upd_weight (patch_updates p) r t) \<and>
      (\<forall>r e t. e \<le> en_current s \<longrightarrow> ent_world s' r e t = ent_world s r e t)
    else commit_patch_checked ent_ops sch chk p a s = (Inr Rejected, s)"
  by (rule ent.commit_patch_cases [OF assms, of sch chk p a])
    (auto simp: holds_all_def world_now_def stepped_def advances_def)

definition demo_authority :: authority where
  "demo_authority = \<lparr>a_domain = 1, a_owns = [scope_whole 1]\<rparr>"

definition demo_patch :: patch where
  "demo_patch = patch_expect (fact_new 1 [VInt 2, VInt 3]) (patch_assert (fact_new 1 [VInt 3, VInt 4]) patch_new)"

theorem ent_commit_boundary_witness:
  "\<exists>s'. commit_patch_checked ent_ops (\<lambda>s. no_schemas) no_behavior_check demo_patch demo_authority demo2
      = (Inr (Committed 3), s') \<and> ent_ok s' \<and> ent_now s' 1 [VInt 3, VInt 4] = 1"
proof -
  have now: "ent_now demo2 1 [VInt 2, VInt 3] = 1" "ent_now demo2 1 [VInt 3, VInt 4] = 0" by code_simp+
  have "lawful no_schemas no_behavior_check demo_patch demo_authority"
    by (auto simp: lawful_def demo_patch_def demo_authority_def patch_builders permits_def scope_whole_def
        no_schemas_def no_behavior_check_def timer_facts_def)
  then show ?thesis
    using ent_commit_boundary [OF demo2_ok, of "\<lambda>s. no_schemas" no_behavior_check demo_patch demo_authority] now
    by (auto simp: demo_patch_def patch_builders patch_preconditions_def patch_updates_def timer_facts_def
        cursor_updates_def)
qed

section \<open>Views\<close>

text \<open>
  C17. The snapshot-stream law: whatever commits fall between the polls of a delta stream,
  the initial snapshot and the deltas it hands out add up, row by row, to the view at the
  stream's cursor, and the cursor ends at the edition of the last poll.
\<close>

theorem ent_stream_adds_up:
  assumes "ent_ok s" "from \<le> en_current s" "sorted_wrt ent_later (s # ss)"
    and "\<forall>s'\<in>set (s # ss). en_watermark s' \<le> from \<and> followable fuel ent_ops ent_world env q s'"
  shows "\<exists>rows ds v. stream_run fuel ent_ops (s # ss) (stream_new q from) = (Inr rows, ds) \<and>
    query_value fuel q (contents ent_ops (last (s # ss)) (ds_cursor ds)) None None = Inr v \<and>
    ds_cursor ds = (if ss = [] then from else en_current (last ss)) \<and>
    (\<forall>t. wsum rows t = wsum v t)"
  using ent.stream_law [of s "from" ss fuel env q] assms
  by (auto simp: answered_def)

lemma followable_rel: "followable fuel ent_ops ent_world (\<lambda>_. QRel 1) (QRel 1) s"
  by (simp add: followable_def answered_def)

lemma demo_later: "ent_later demo1 demo2"
  using ent_step_ok [OF demo2_step demo1_ok] by (simp add: later_def)

theorem ent_stream_adds_up_witness:
  "\<exists>rows ds. stream_run 1 ent_ops [demo1, demo2] (stream_new (QRel 1) 1) = (Inr rows, ds) \<and> ds_cursor ds = 2"
  using ent_stream_adds_up [OF demo1_ok, of 1 "[demo2]" 1 "\<lambda>_. QRel 1" "QRel 1"] demo_later followable_rel
  by auto

section \<open>Mailboxes\<close>


definition demo_box :: ent where
  "demo_box = branch [(11, [VEnt 7, VInt 0], 1)]"

lemma demo_box: "ent_ok demo_box" "mailbox (ent_now demo_box) 10 11 7 []"
  by (auto simp: demo_box_def branch_facts mailbox_def holds_messages_def counter_def)


section \<open>Processes\<close>

text \<open>
  C19. A step takes its message once. When it commits, the behavior's effects and the cursor's
  move over that message are one edition, the behavior having run on the message at the
  cursor and on the state it read; whatever else happens (an idle inbox, an error of the
  behavior, a refusal, a lost race), the cursor stands where it stood.
\<close>

theorem ent_step_takes_once:
  assumes "ent_ok s" "careful p" "cursor_stands (ent_now s) p n" "Suc n < 2 ^ 63"
    and "ent_later s (peer s)" "cursor_stands (ent_now (peer s)) p n"
    and "step_checked ent_ops sch chk p peer s = (r, s')"
  shows "ent_ok s' \<and> ent_later s s' \<and>
    (case r of
       Inr (Some (Committed e)) \<Rightarrow> cursor_stands (ent_now s') p (Suc n) \<and> e = Suc (en_current (peer s)) \<and>
         (\<exists>body bp. message_at ent_ops s p (word_of_nat n) (en_current s) = Inr (Some body) \<and>
            pr_behavior p (snapshot_at_current ent_ops s) body = Inr bp \<and>
            (\<forall>r t. ent_now s' r t = ent_now (peer s) r t +
               upd_weight (patch_updates (bp\<lparr>p_cursor_advance := Some (cursor_advance p (word_of_nat n))\<rparr>)) r t))
     | _ \<Rightarrow> cursor_stands (ent_now s') p n)"
  using ent.step_cursor [OF assms] ent_stepped
  by (fastforce split: sum.splits option.splits commit_outcome.splits)

definition demo_behavior :: behavior where
  "demo_behavior snap body = Inr (patch_assert (fact_new 20 body) patch_new)"

definition demo_process :: process where
  "demo_process = \<lparr>pr_entity = 7, pr_authority = \<lparr>a_domain = 1, a_owns = [scope_whole 20]\<rparr>,
     pr_inbox = 10, pr_cursor_rel = 12, pr_behavior = demo_behavior\<rparr>"

definition demo_letters :: ent where
  "demo_letters = branch [(10, [VEnt 7, VInt 0, VTuple [VInt 5]], 1), (10, [VEnt 7, VInt 1, VTuple [VInt 6]], 1)]"

lemma demo_letters:
  "ent_ok demo_letters" "cursor_stands (ent_now demo_letters) demo_process 0"
  "en_current demo_letters = 1" "en_watermark demo_letters = 0"
  by (simp_all add: demo_letters_def branch_facts cursor_stands_def demo_process_def)

lemma demo_letters_held: "holds_messages (ent_now demo_letters) 10 7 [[VInt 5], [VInt 6]]"
proof -
  have "unat x = 1 \<longleftrightarrow> x = 1" for x :: i64 by (metis unat_1 word_unat_eq_iff)
  then have "unat x < Suc (Suc 0) \<longleftrightarrow> x = 0 \<or> x = 1" for x :: i64
    by (auto simp: less_Suc_eq unat_eq_0)
  then show ?thesis
    by (auto simp: demo_letters_def branch_facts holds_messages_def inbox_row_def)
qed

lemma demo_careful: "careful demo_process" "quiet_inbox demo_process" "pure_behavior (pr_behavior demo_process)"
  by (auto simp: careful_def minds_cursor_def quiet_inbox_def minds_inbox_def pure_behavior_def demo_process_def
      demo_behavior_def patch_updates_def patch_builders timer_facts_def cursor_updates_def)

theorem ent_step_takes_once_witness:
  "\<exists>r s'. step_checked ent_ops (\<lambda>s. no_schemas) no_behavior_check demo_process (\<lambda>s. s) demo_letters = (r, s') \<and>
     ent_ok s' \<and> ent_later demo_letters s'"
proof -
  obtain r s' where run: "step_checked ent_ops (\<lambda>s. no_schemas) no_behavior_check demo_process (\<lambda>s. s) demo_letters = (r, s')"
    by fastforce
  show ?thesis
    using ent_step_takes_once [OF demo_letters(1) demo_careful(1) demo_letters(2) _ ent_later_refl [OF demo_letters(1)]
        demo_letters(2) run] run by auto
qed




definition demo_attempt :: "nat \<Rightarrow> (nat, commit_outcome) op" where
  "demo_attempt k = (\<lambda>s. if k < 2 then (Inr Rejected, Suc s) else (Inr (Committed 9), s))"


section \<open>Replay\<close>

text \<open>
  C22. The Replay law: when no other writer commits between the steps of a run, the log read
  back from committed history (positions, patches, editions) is the log the run recorded.
\<close>

theorem ent_replay_law:
  assumes "careful p" "pure_behavior (pr_behavior p)" "ent_ok s" "cursor_stands (ent_now s) p n" "n + fuel < 2 ^ 63"
    and "record_run fuel ent_ops sch p (\<lambda>k s. s) k s = (Inr steps, s')"
  shows "replay_from ent_ops s' p (en_current s) = Inr steps"
  using ent_logged.replay_law [OF assms] by simp

definition one_letter :: ent where
  "one_letter = branch [(10, [VEnt 7, VInt 0, VTuple [VInt 5]], 1)]"

lemma one_letter:
  "ent_ok one_letter" "cursor_stands (ent_now one_letter) demo_process 0" "en_current one_letter = 1"
  by (simp_all add: one_letter_def branch_facts cursor_stands_def demo_process_def)

text \<open>The edition a step on it writes when its behavior asserts one row.\<close>

definition taking :: "tuple \<Rightarrow> patch" where
  "taking row = (patch_assert (fact_new 20 row) patch_new)
     \<lparr>p_cursor_advance := Some \<lparr>cm_rel = 12, cm_retract = None, cm_assert = [VEnt 7, VInt 1]\<rparr>\<rparr>"

definition letter_taken :: "tuple \<Rightarrow> ent \<Rightarrow> ent" where
  "letter_taken row s = snd (ent_commit_if [] [(20, row, 1), (12, [VEnt 7, VInt 1], 1)] s)"

lemma taking_commits:
  assumes "ent_ok s"
  shows "commit_patch_checked ent_ops (\<lambda>s. no_schemas) no_behavior_check (taking row) (pr_authority demo_process) s =
    (Inr (Committed (Suc (en_current s))), letter_taken row s)"
proof (rule commit_run)
  show "lawful no_schemas no_behavior_check (taking row) (pr_authority demo_process)"
    by (simp add: lawful_def taking_def demo_process_def patch_builders permits_def scope_whole_def
        no_schemas_def no_behavior_check_def timer_facts_def)
  have "patch_preconditions (taking row) = []" "patch_updates (taking row) = [(20, row, 1), (12, [VEnt 7, VInt 1], 1)]"
    by (simp_all add: taking_def patch_builders patch_preconditions_def patch_updates_def timer_facts_def cursor_updates_def)
  moreover obtain s' where "ent_commit_if [] [(20, row, 1), (12, [VEnt 7, VInt 1], 1)] s =
      (Inr (Some (Suc (en_current s))), s')"
    using ent_commit_if_ok [OF assms, of "[]" "[(20, row, 1), (12, [VEnt 7, VInt 1], 1)]"] by (auto simp: holds_all_def)
  ultimately show "ent_commit_if (patch_preconditions (taking row)) (patch_updates (taking row)) s =
      (Inr (Some (Suc (en_current s))), letter_taken row s)"
    by (simp add: letter_taken_def)
qed

theorem ent_replay_law_witness:
  "\<exists>steps s'. record_run 2 ent_ops (\<lambda>s. no_schemas) demo_process (\<lambda>k s. s) 0 one_letter = (Inr steps, s') \<and>
     length steps = 1 \<and> replay_from ent_ops s' demo_process 1 = Inr steps"
proof -
  let ?s' = "letter_taken [VInt 5] one_letter"
  have "prepare ent_ops one_letter demo_process = Inr (Some (0, taking [VInt 5]))"
    "prepare ent_ops ?s' demo_process = Inr None" by code_simp+
  then obtain steps where
    run: "record_run 2 ent_ops (\<lambda>s. no_schemas) demo_process (\<lambda>k s. s) 0 one_letter = (Inr steps, ?s')" "length steps = 1"
    using taking_commits [OF one_letter(1), of "[VInt 5]"]
    by (simp add: record_run_apply commit_patch_def numeral_2_eq_2 del: record_run.simps)
  show ?thesis
    using ent_replay_law [OF demo_careful(1,3) one_letter(1,2) _ run(1)] run by (auto simp: one_letter(3))
qed

text \<open>A behavior that counts the rows it sees, and a peer that adds one.\<close>

definition counting_behavior :: behavior where
  "counting_behavior snap body = rbind (snapshot_read snap 30) (\<lambda>rows.
     Inr (patch_assert (fact_new 20 [VInt (word_of_nat (length rows))]) patch_new))"

definition counting_process :: process where
  "counting_process = demo_process\<lparr>pr_behavior := counting_behavior\<rparr>"

definition adding_peer :: "nat \<Rightarrow> ent \<Rightarrow> ent" where
  "adding_peer k s = (if k = 0 then snd (ent_commit [(30, [VInt 1], 1)] s) else s)"


end
