(* ===== verification/Time_Properties.thy ===== *)
theory Time_Properties
  imports Proc_Properties
begin

text \<open>
  Timers, the clock, watches, maintained copies and history collection on the Ent: the
  reactive half of the process layer.
\<close>

section \<open>Timers\<close>


definition demo_scheduler :: scheduler where
  "demo_scheduler = \<lparr>sd_timers = 15, sd_seqs = 11,
     sd_authority = \<lparr>a_domain = 1, a_owns = [scope_whole 15, scope_whole 11, scope_whole 10]\<rparr>\<rparr>"

definition demo_timer :: tuple where
  "demo_timer = [VInt 0, VInt 10, VEnt 7, VTuple [VInt 5]]"

definition demo_timers :: ent where
  "demo_timers = branch [(11, [VEnt 7, VInt 0], 1), (15, demo_timer, 1)]"

lemma decode_demo_timer: "decode_timer_row demo_timer = Inr (0, 10, 7, [VInt 5])"
  by (simp add: decode_timer_row_def demo_timer_def)

lemma demo_timers: "ent_ok demo_timers" "mailbox (ent_now demo_timers) 10 11 7 []"
  "ent_now demo_timers 15 t = (if t = demo_timer then 1 else 0)"
  by (auto simp: demo_timers_def branch_facts mailbox_def holds_messages_def counter_def)

lemma appends_alone: "appends ent_ops ent_ok ent_world inbox seqs p (\<lambda>k s. s)"
  unfolding appends_def using ent_later_refl by (metis append_Nil2)

lemma delivery_lawful:
  "lawful no_schemas no_behavior_check (delivery demo_scheduler t 10 p n body) (sd_authority demo_scheduler)"
  by (simp add: lawful_def delivery_def demo_scheduler_def permits_def scope_whole_def inbox_fact_def
      no_schemas_def no_behavior_check_def timer_facts_def)


text \<open>
  C25. A tick delivers exactly what is due: with no other writer, every live timer not later
  than the tick is delivered once, in the order of the rows, each to the end of its target's
  mailbox, and loses one copy; a timer that is not due stays as it was.
\<close>

theorem ent_tick_delivers_due:
  assumes "ent_ok s" "\<And>t. 0 < ent_now s (sd_timers sd) t \<Longrightarrow> timer_for inbox t"
    and "is_due (ent_now s) (sd_timers sd) at D" "timer_target ` set D \<subseteq> P"
    and "\<And>p. p \<in> P \<Longrightarrow> mailbox (ent_now s) inbox (sd_seqs sd) p (ms p)"
    and "\<And>p. p \<in> P \<Longrightarrow> length (ms p) + length D < 2 ^ 63"
    and "\<And>s t n. t \<in> set D \<Longrightarrow>
      lawful (sch s) no_behavior_check (delivery sd t inbox (timer_target t) n (timer_body t)) (sd_authority sd)"
  shows "\<exists>s'. fire_due ent_ops sch sd (\<lambda>_ _. id) at s = (Inr (length D), s') \<and> ent_ok s' \<and>
    (\<forall>p\<in>P. mailbox (ent_now s') inbox (sd_seqs sd) p (ms p @ map timer_body (filter (\<lambda>t. timer_target t = p) D))) \<and>
    (\<forall>t. timer_for inbox t \<longrightarrow> ent_now s' (sd_timers sd) t = ent_now s (sd_timers sd) t - (if t \<in> set D then 1 else 0))"
  by (rule ent.fire_due_alone [OF assms])

theorem ent_tick_delivers_due_witness:
  "\<exists>s'. fire_due ent_ops (\<lambda>s. no_schemas) demo_scheduler (\<lambda>_ _. id) 3 demo_timers = (Inr 1, s') \<and>
     mailbox (ent_now s') 10 11 7 [[VInt 5]] \<and> ent_now s' 15 demo_timer = 0"
proof -
  have parts: "timer_for 10 demo_timer" "timer_target demo_timer = 7" "timer_body demo_timer = [VInt 5]" "timer_due 3 demo_timer"
    by (simp_all add: timer_for_def timer_target_def timer_body_def timer_due_def decode_demo_timer)
  have live: "0 < ent_now demo_timers (sd_timers demo_scheduler) t \<longleftrightarrow> t = demo_timer" for t
    by (simp add: demo_timers(3) demo_scheduler_def)
  have due: "is_due (ent_now demo_timers) (sd_timers demo_scheduler) 3 [demo_timer]"
    using parts(4) by (auto simp: is_due_def live)
  have box: "mailbox (ent_now demo_timers) 10 (sd_seqs demo_scheduler) p []" if "p \<in> {7}" for p
    using that demo_timers(2) by (simp add: demo_scheduler_def)
  have own: "timer_for 10 t" if "0 < ent_now demo_timers (sd_timers demo_scheduler) t" for t
    using that parts(1) live by simp
  have law: "lawful no_schemas no_behavior_check
      (delivery demo_scheduler t 10 (timer_target t) n (timer_body t)) (sd_authority demo_scheduler)" for t n
    by (rule delivery_lawful)
  have "timer_target ` set [demo_timer] \<subseteq> {7}" "length ([] :: tuple list) + length [demo_timer] < 2 ^ 63"
    by (simp_all add: parts)
  from ent_tick_delivers_due [where sch = "\<lambda>s. no_schemas" and ms = "\<lambda>p. []", OF demo_timers(1) own due this(1) box this(2) law]
  obtain s' where "fire_due ent_ops (\<lambda>s. no_schemas) demo_scheduler (\<lambda>_ _. id) 3 demo_timers = (Inr (length [demo_timer]), s')"
    "\<forall>p\<in>{7}. mailbox (ent_now s') 10 (sd_seqs demo_scheduler) p
       ([] @ map timer_body (filter (\<lambda>t. timer_target t = p) [demo_timer]))"
    "\<forall>t. timer_for 10 t \<longrightarrow> ent_now s' (sd_timers demo_scheduler) t =
       ent_now demo_timers (sd_timers demo_scheduler) t - (if t \<in> set [demo_timer] then 1 else 0)" by blast
  then show ?thesis using parts demo_timers(3) by (simp add: demo_scheduler_def)
qed

section \<open>The clock\<close>

lemma sorted_le_last: "sorted xs \<Longrightarrow> x \<in> set xs \<Longrightarrow> x \<le> last (xs :: int list)"
  by (induction xs) auto

text \<open>
  C26. The clock relation is a history of samples with rising times. A sample that does not
  fall behind the last one, and that the authority and schema laws allow, is appended under
  the next number and returned; any other is an error that leaves the store as it was.
\<close>

theorem ent_clock_is_history:
  assumes "ent_ok s" "clock_history (ent_now s) (ck_clock ck) hs" "Suc (length hs) < 2 ^ 63"
    and "sorted (map (\<lambda>x. sint (fst x)) hs)" "clock_sample ent_ops sch ck ms r s = (out, s')"
  shows "case out of
      Inr x \<Rightarrow> x = (word_of_nat (length hs), ms, r) \<and> ent_ok s' \<and>
        clock_history (ent_now s') (ck_clock ck) (hs @ [(ms, r)]) \<and>
        sorted (map (\<lambda>x. sint (fst x)) (hs @ [(ms, r)]))
    | Inl e \<Rightarrow> s' = s \<and>
        (hs \<noteq> [] \<and> sint ms < sint (fst (last hs)) \<or>
         \<not> lawful (sch s) no_behavior_check
           (patch_assert (fact_new (ck_clock ck) (tick_row (word_of_nat (length hs), ms, r))) patch_new) (ck_authority ck))"
proof (cases rule: ent.clock_sample_cases [OF assms(1-3), of ms sch r])
  case 1
  then show ?thesis using assms(5) by simp
next
  case (2 e)
  then show ?thesis using assms(5) by simp
next
  case (3 s1)
  have "sint (fst x) \<le> sint ms" if "x \<in> set hs" for x
  proof -
    have "sint (fst x) \<le> last (map (\<lambda>x. sint (fst x)) hs)" using assms(4) that by (intro sorted_le_last) auto
    moreover have "hs \<noteq> []" using that by auto
    ultimately show ?thesis using 3(1) by (simp add: last_map)
  qed
  then have "sorted (map (\<lambda>x. sint (fst x)) (hs @ [(ms, r)]))" using assms(4) by (auto simp: sorted_append)
  then show ?thesis using 3(2-4) assms(5) by simp
qed

definition demo_clock :: clock_driver where
  "demo_clock = \<lparr>ck_clock = 16, ck_authority = \<lparr>a_domain = 1, a_owns = [scope_whole 16]\<rparr>\<rparr>"

theorem ent_clock_is_history_witness:
  "\<exists>s'. clock_sample ent_ops (\<lambda>s. no_schemas) demo_clock 100 7 (branch []) = (Inr (0, 100, 7), s') \<and>
     clock_history (ent_now s') 16 [(100, 7)]"
proof -
  have h: "clock_history (ent_now (branch [])) (ck_clock demo_clock) []" by (simp add: clock_history_def branch_facts)
  have law: "lawful no_schemas no_behavior_check
      (patch_assert (fact_new (ck_clock demo_clock) (tick_row (word_of_nat (length []), 100, 7))) patch_new) (ck_authority demo_clock)"
    by (simp add: lawful_def patch_builders demo_clock_def permits_def scope_whole_def no_schemas_def
        no_behavior_check_def timer_facts_def)
  obtain out s' where run: "clock_sample ent_ops (\<lambda>s. no_schemas) demo_clock 100 7 (branch []) = (out, s')" by fastforce
  show ?thesis
    using ent_clock_is_history [OF branch_facts(1) h _ _ run] law run
    by (auto simp: demo_clock_def split: sum.splits)
qed

section \<open>Names\<close>

text \<open>
  C27. The catalog is append-only: registering a name succeeds when the name is new or already
  bound to this relation, and then binds it and nothing else; a name bound to another relation
  is a conflict that changes nothing. Schemas are not disturbed.
\<close>

theorem catalog_is_append_only:
  assumes "context_ok ctx" "catalog_register n r ctx = (res, ctx')"
  shows "context_ok ctx' \<and> registered ctx' = registered ctx \<and>
    (if catalog_rel_id ctx n \<in> {None, Some r}
     then res = Inr () \<and> catalog_rel_id ctx' = (catalog_rel_id ctx)(n := Some r)
     else res = Inl (Err (EStore ''catalog conflict'')) \<and> ctx' = ctx)"
  by (rule catalog_register_ok [OF assms])

theorem catalog_is_append_only_witness:
  "\<exists>ctx. catalog_register ''a'' 1 [] = (Inr (), ctx) \<and> catalog_rel_id ctx ''a'' = Some 1 \<and>
     catalog_register ''a'' 2 ctx = (Inl (Err (EStore ''catalog conflict'')), ctx)"
proof -
  obtain res ctx where a: "catalog_register ''a'' 1 [] = (res, ctx)" by fastforce
  obtain res' ctx' where b: "catalog_register ''a'' 2 ctx = (res', ctx')" by fastforce
  have none: "catalog_rel_id [] ''a'' = None" by (simp add: catalog_rel_id_def)
  have c: "context_ok ctx" "res = Inr ()" "catalog_rel_id ctx ''a'' = Some 1"
    using catalog_is_append_only [OF context_ok_Nil a] none by simp_all
  then have "res' = Inl (Err (EStore ''catalog conflict''))" "ctx' = ctx"
    using catalog_is_append_only [OF c(1) b] by simp_all
  then show ?thesis using a b c by blast
qed

section \<open>Watches\<close>


definition demo_watch :: on_watch where
  "demo_watch = \<lparr>ow_view = QRel 1, ow_watch = 9, ow_target = 7, ow_inbox = 10, ow_cursor_rel = 17, ow_seqs = 11,
     ow_authority = \<lparr>a_domain = 1, a_owns = [scope_whole 10, scope_whole 11]\<rparr>\<rparr>"

definition demo_watched :: ent where
  "demo_watched = branch [(1, [VInt 1, VInt 2], 1), (11, [VInt 10, VEnt 7, VInt 0], 1), (17, [VEnt 9, VInt 0], 1)]"

lemma demo_watched:
  "ent_ok demo_watched" "en_current demo_watched = 1" "en_watermark demo_watched = 0" "watch_apart demo_watch"
  "frontier_stands (ent_now demo_watched) (ow_cursor_rel demo_watch) (ow_watch demo_watch) 0"
  "watched_inbox (ent_now demo_watched) demo_watch []"
  by (auto simp: demo_watched_def branch_facts demo_watch_def watch_apart_def frontier_stands_def frontier_tuple_def
      get_def watched_inbox_def holds_messages_def counter_def watch_seq_key_def)

lemma pump_lawful:
  "lawful no_schemas no_behavior_check (pump_patch demo_watch from to rows (watch_alloc demo_watch n)) (ow_authority demo_watch)"
  by (auto simp: lawful_def pump_patch_def deliver_rows_facts frontier_patch_def seq_seal_def Let_def patch_builders
      demo_watch_def permits_def scope_whole_def inbox_fact_def no_schemas_def no_behavior_check_def timer_facts_def
      watch_alloc_def counter_tuple_def dest: inbox_facts_rel)

lemma demo_watched_contents:
  "contents ent_ops demo_watched 0 1 = []" "contents ent_ops demo_watched 1 1 = [([VInt 1, VInt 2], 1)]"
  by code_simp+


end
