(* ===== verification/View_Properties.thy ===== *)
theory View_Properties
  imports Time_Properties
begin

text \<open>
  What the consumers of view changes promise on the Ent: where a watch and a scheduler collide
  on one inbox, what a materialized view keeps when its maintainers race, and what history
  collection may drop.
\<close>

section \<open>Two counters for one inbox\<close>

definition collided :: ent where
  "collided = branch [(1, [VInt 1, VInt 2], 1), (10, [VEnt 7, VInt 0, VTuple [VInt 5]], 1), (11, [VEnt 7, VInt 1], 1),
     (11, [VInt 10, VEnt 7, VInt 0], 1), (17, [VEnt 9, VInt 0], 1)]"

lemma pump_apply:
  assumes "due_delta fuel ops (ow_cursor_rel ow) (ow_watch ow) (ow_view ow) s = (Inr (Some (from, to, x # rows)), s)"
    and "seq_read ops s (ow_seqs ow) (watch_seq_key ow) = Inr a"
    and "commit_patch_checked ops sch no_behavior_check (pump_patch ow from to (x # rows) a) (ow_authority ow) s =
      (Inr (Committed e), t)"
  shows "pump fuel ops sch ow (\<lambda>_. id) s = (Inr (Suc (length rows)), t)"
proof -
  have "pump_attempt fuel ops sch ow id s = (Inr (Some (Suc (length rows))), t)"
    by (simp add: pump_attempt_def obind_apply opause_def commit_patch_def assms)
  moreover have "(256 :: nat) = Suc 255" by simp
  ultimately show ?thesis by (simp only: pump_def retry_loop.simps) (simp add: obind_step)
qed

lemma letter_taken_now:
  assumes "ent_ok s"
  shows "ent_now (letter_taken row s) r t = ent_now s r t + upd_weight [(20, row, 1), (12, [VEnt 7, VInt 1], 1)] r t"
proof -
  obtain s' where "ent_commit_if [] [(20, row, 1), (12, [VEnt 7, VInt 1], 1)] s = (Inr (Some (Suc (en_current s))), s')"
    "en_current s' = Suc (en_current s)"
    "advances (ent_world s) (en_current s) [(20, row, 1), (12, [VEnt 7, VInt 1], 1)] (ent_world s')"
    using ent_commit_if_ok [OF assms, of "[]" "[(20, row, 1), (12, [VEnt 7, VInt 1], 1)]"] by (auto simp: holds_all_def)
  then show ?thesis by (simp add: letter_taken_def world_now_def advances_def)
qed

text \<open>The state after the pump, and after the process takes the activation.\<close>

definition delivering :: patch where
  "delivering = pump_patch demo_watch 0 1 [([VInt 1, VInt 2], 1)] (watch_alloc demo_watch 0)"

definition pumped :: ent where
  "pumped = snd (ent_commit_if (patch_preconditions delivering)
     (patch_updates delivering) collided)"

lemma pumped_commits:
  "commit_patch_checked ent_ops (\<lambda>s. no_schemas) no_behavior_check
     delivering (ow_authority demo_watch) collided =
   (Inr (Committed 2), pumped)"
  "ent_ok pumped"
  "ent_now pumped r t = ent_now collided r t +
     upd_weight (patch_updates delivering) r t"
proof -
  have ok: "ent_ok collided" and cur: "en_current collided = 1" by (simp_all add: collided_def branch_facts)
  have pre: "patch_preconditions delivering = [(17, [VEnt 9, VInt 0]), (11, [VInt 10, VEnt 7, VInt 0])]" by code_simp
  have "holds_all (ent_world collided) (en_current collided) (patch_preconditions delivering)"
    using branch_facts(4) [unfolded world_now_def]
    by (simp add: pre holds_all_def collided_def branch_facts world_now_def)
  then obtain t where t: "ent_commit_if (patch_preconditions delivering) (patch_updates delivering) collided = (Inr (Some 2), t)" "ent_ok t"
    "en_current t = 2" "advances (ent_world collided) 1 (patch_updates delivering) (ent_world t)"
    using ent_commit_if_ok [OF ok, of "patch_preconditions delivering" "patch_updates delivering"] by (auto simp: cur numeral_2_eq_2)
  then have t_eq: "pumped = t" by (simp add: pumped_def)
  show "commit_patch_checked ent_ops (\<lambda>s. no_schemas) no_behavior_check delivering (ow_authority demo_watch) collided =
      (Inr (Committed 2), pumped)"
    by (rule commit_run [OF pump_lawful [of 0 1 "[([VInt 1, VInt 2], 1)]" 0, folded delivering_def]]) (use t(1) t_eq in simp)
  show "ent_ok pumped" using t t_eq by simp
  show "ent_now pumped r t = ent_now collided r t + upd_weight (patch_updates delivering) r t" for r t
    using t(3,4) by (simp add: t_eq world_now_def advances_def cur)
qed

text \<open>
  C29. A watch and a scheduler that share an inbox, its target and the counter relation do not
  share a sequence: the watch counts under its own key. With one scheduled message in the
  inbox, a pump puts its activation at the same position; a process then takes the
  activation, moves past the position and never sees the scheduled message.
\<close>

theorem watch_and_timer_share_a_seq:
  "mailbox (ent_now collided) 10 11 7 [[VInt 5]] \<and>
   counter (ent_now collided) 11 (watch_seq_key demo_watch) 0 \<and>
   (\<exists>s1 s2 e. pump 1 ent_ops (\<lambda>s. no_schemas) demo_watch (\<lambda>_. id) collided = (Inr 1, s1) \<and>
     ent_now s1 10 (inbox_row 7 0 [VInt 5]) = 1 \<and>
     ent_now s1 10 (inbox_row 7 0 (activation_body 1 [VInt 1, VInt 2])) = 1 \<and>
     step ent_ops (\<lambda>s. no_schemas) demo_process id s1 = (Inr (Some (Committed e)), s2) \<and>
     prepare ent_ops s2 demo_process = Inr None \<and>
     ent_now s2 20 [VInt 5] = 0)"
proof -
  have due: "due_delta 1 ent_ops (ow_cursor_rel demo_watch) (ow_watch demo_watch) (ow_view demo_watch) collided =
      (Inr (Some (0, 1, [([VInt 1, VInt 2], 1)])), collided)"
    by code_simp
  have seq: "seq_read ent_ops collided (ow_seqs demo_watch) (watch_seq_key demo_watch) = Inr (watch_alloc demo_watch 0)"
    by code_simp
  have prep: "prepare ent_ops pumped demo_process = Inr (Some (0, taking (activation_body 1 [VInt 1, VInt 2])))"
    by code_simp
  let ?act = "activation_body 1 [VInt 1, VInt 2]"
  let ?s2 = "letter_taken ?act pumped"
  have ups: "patch_updates delivering =
      [(10, inbox_row 7 0 ?act, 1), (11, [VInt 10, VEnt 7, VInt 1], 1), (11, [VInt 10, VEnt 7, VInt 0], -1),
       (17, [VEnt 9, VInt 0], -1), (17, [VEnt 9, VInt 1], 1)]"
    by code_simp
  have box: "mailbox (ent_now collided) 10 11 7 [[VInt 5]]"
    by (auto simp: mailbox_def holds_messages_def counter_def collided_def branch_facts inbox_row_def
        unat_eq_0 split: if_splits)
  have count: "counter (ent_now collided) 11 (watch_seq_key demo_watch) 0"
    by (auto simp: counter_def collided_def branch_facts watch_seq_key_def demo_watch_def)
  have run: "pump 1 ent_ops (\<lambda>s. no_schemas) demo_watch (\<lambda>_. id) collided = (Inr 1, pumped)"
    using pump_apply [OF due seq pumped_commits(1) [unfolded delivering_def]] by simp
  have rows: "ent_now pumped 10 (inbox_row 7 0 [VInt 5]) = 1" "ent_now pumped 10 (inbox_row 7 0 ?act) = 1"
    "ent_now pumped 20 [VInt 5] = 0"
    by (simp_all add: pumped_commits(3) ups collided_def branch_facts inbox_row_def activation_body_def)
  have taken: "step ent_ops (\<lambda>s. no_schemas) demo_process id pumped =
      (Inr (Some (Committed (Suc (en_current pumped)))), ?s2)"
    using taking_commits [OF pumped_commits(2), of ?act] by (simp add: step_def step_checked_apply prep)
  have idle: "prepare ent_ops ?s2 demo_process = Inr None" by code_simp
  have "ent_now ?s2 20 [VInt 5] = 0"
    using letter_taken_now [OF pumped_commits(2)] rows(3) by (simp add: activation_body_def)
  then show ?thesis using box count run rows taken idle by blast
qed

section \<open>Materialized views\<close>

text \<open>
  C30. A materialized view is never out of step with its cursor: whatever happens in a refresh,
  and however other maintainers of the same copy refresh in between, afterwards the copy holds
  exactly the view as of the edition the cursor names.
\<close>

theorem ent_racing_maintainers:
  assumes "ent_ok s" "in_step fuel ent_ops ent_world mt s e" "mt_into mt \<noteq> mt_cursor_rel mt"
    and "en_current s + 256 * B < 2 ^ 63" "followable fuel ent_ops ent_world env (mt_view mt) s"
    and "co_maintains fuel ent_ops ent_ok ent_world env mt B peers"
    and "refresh fuel ent_ops sch mt peers s = (r, s')"
  shows "ent_ok s' \<and> (\<exists>e'. in_step fuel ent_ops ent_world mt s' e')"
  by (rule ent.refresh_keeps [OF assms(1-3) _ assms(5-7)]) (use assms(4) in simp)

definition demo_copy :: materialized where
  "demo_copy = \<lparr>mt_view = QRel 1, mt_into = 40, mt_key = 9, mt_cursor_rel = 17,
     mt_authority = \<lparr>a_domain = 1, a_owns = [scope_whole 40]\<rparr>\<rparr>"

lemma demo_copy_view:
  "query_value 1 (mt_view demo_copy) (contents ent_ops s e) None None = Inr (contents ent_ops s e 1)"
  by (simp add: demo_copy_def overriding_def overridden_def)

lemma demo_copy_in_step: "in_step 1 ent_ops ent_world demo_copy demo_watched 0"
proof -
  have "ent_now demo_watched 40 t = 0" for t by (simp add: demo_watched_def branch_facts)
  then show ?thesis
    using demo_watched(5) unfolding in_step_def demo_copy_view demo_watched_contents
    by (simp add: demo_watched demo_copy_def demo_watch_def)
qed

lemma demo_copy_follows: "followable 1 ent_ops ent_world (\<lambda>_. QRel 1) (mt_view demo_copy) s"
  by (simp add: demo_copy_def followable_rel)

text \<open>The other maintainer is a second refresher of the same copy.\<close>

theorem ent_racing_maintainers_witness:
  "\<exists>r s' e. refresh 1 ent_ops (\<lambda>s. no_schemas) demo_copy
      (\<lambda>k s. snd (refresh 1 ent_ops (\<lambda>s. no_schemas) demo_copy (\<lambda>_. id) s)) demo_watched = (r, s') \<and>
     in_step 1 ent_ops ent_world demo_copy s' e"
proof -
  let ?peers = "\<lambda>k s. snd (refresh 1 ent_ops (\<lambda>s. no_schemas) demo_copy (\<lambda>_. id) s)"
  have apart: "mt_into demo_copy \<noteq> mt_cursor_rel demo_copy" by (simp add: demo_copy_def)
  have peers: "co_maintains 1 ent_ops ent_ok ent_world (\<lambda>_. QRel 1) demo_copy 1 ?peers"
    by (rule ent.refresh_co_maintains [OF apart demo_copy_follows])
  obtain r s' where run: "refresh 1 ent_ops (\<lambda>s. no_schemas) demo_copy ?peers demo_watched = (r, s')" by fastforce
  have "ent_ok s' \<and> (\<exists>e'. in_step 1 ent_ops ent_world demo_copy s' e')"
    by (rule ent_racing_maintainers [OF demo_watched(1) demo_copy_in_step apart _ demo_copy_follows peers run])
      (simp add: demo_watched)
  then show ?thesis using run by blast
qed

text \<open>
  C31. Without a race a refresh is complete: it returns, and the copy is the view at the
  edition the refresh started from, row for row.
\<close>

theorem ent_refresh_catches_up:
  assumes "ent_ok s" "in_step fuel ent_ops ent_world mt s e" "mt_into mt \<noteq> mt_cursor_rel mt"
    and "en_current s < 2 ^ 63" "followable fuel ent_ops ent_world env (mt_view mt) s"
    and "\<And>s1 rows. lawful (sch s1) no_behavior_check (refresh_patch mt e (en_current s) rows) (mt_authority mt)"
  shows "\<exists>n s' v. refresh fuel ent_ops sch mt (\<lambda>_. id) s = (Inr n, s') \<and> ent_ok s' \<and>
    query_value fuel (mt_view mt) (contents ent_ops s (en_current s)) None None = Inr v \<and>
    (\<forall>t. ent_now s' (mt_into mt) t = wsum v t)"
  using ent.refresh_alone [where sch = sch, unfolded ent_ops_sel, OF assms] by blast

lemma lawful_times:
  "lawful sch no_behavior_check p a \<Longrightarrow> permits a f \<Longrightarrow> sch (f_rel f) = Inr None \<Longrightarrow>
   lawful sch no_behavior_check ((patch_assert f ^^ n) p) a \<and> lawful sch no_behavior_check ((patch_retract f ^^ n) p) a"
proof (induction n)
  case (Suc n)
  have "lawful sch no_behavior_check (patch_assert f q) a \<and> lawful sch no_behavior_check (patch_retract f q) a"
    if "lawful sch no_behavior_check q a" for q
    using that Suc.prems(2,3) by (simp add: lawful_def patch_builders timer_facts_def no_behavior_check_def)
  then show ?case using Suc by simp
qed simp

lemma lawful_fold_rows:
  assumes "\<And>t. permits a (fact_new into t)" "sch into = Inr None" "lawful sch no_behavior_check p a"
  shows "lawful sch no_behavior_check (fold_rows into rows p) a"
  using assms(3)
proof (induction rows arbitrary: p)
  case (Cons x rows)
  then show ?case using assms(1,2) lawful_times by (cases x) (simp add: fact_new_def)
qed simp

theorem ent_refresh_catches_up_witness:
  "\<exists>n s'. refresh 1 ent_ops (\<lambda>s. no_schemas) demo_copy (\<lambda>_. id) demo_watched = (Inr n, s') \<and>
     ent_now s' 40 [VInt 1, VInt 2] = 1"
proof -
  have law: "lawful no_schemas no_behavior_check (refresh_patch demo_copy 0 (en_current demo_watched) rows)
      (mt_authority demo_copy)" for rows
    unfolding refresh_patch_def
    by (rule lawful_fold_rows)
      (simp_all add: demo_copy_def permits_def scope_whole_def no_schemas_def lawful_def frontier_patch_def
        patch_builders timer_facts_def)
  have apart: "mt_into demo_copy \<noteq> mt_cursor_rel demo_copy" by (simp add: demo_copy_def)
  have view: "query_value 1 (mt_view demo_copy) (contents ent_ops demo_watched (en_current demo_watched)) None None =
      Inr [([VInt 1, VInt 2], 1)]"
    by (simp only: demo_copy_view demo_watched(2) demo_watched_contents)
  have "en_current demo_watched < 2 ^ 63" by (simp add: demo_watched)
  then obtain n s' v where r: "refresh 1 ent_ops (\<lambda>s. no_schemas) demo_copy (\<lambda>_. id) demo_watched = (Inr n, s')"
    "Inr [([VInt 1, VInt 2], 1)] = (Inr v :: rows result)" "\<forall>t. ent_now s' (mt_into demo_copy) t = wsum v t"
    using ent_refresh_catches_up [where sch = "\<lambda>s. no_schemas", OF demo_watched(1) demo_copy_in_step apart _
      demo_copy_follows law] view by metis
  have "v = [([VInt 1, VInt 2], 1)]" using r(2) by simp
  moreover have "ent_now s' 40 [VInt 1, VInt 2] = wsum v [VInt 1, VInt 2]"
    using spec [OF r(3), of "[VInt 1, VInt 2]"] by (simp add: demo_copy_def)
  ultimately have "ent_now s' 40 [VInt 1, VInt 2] = 1" by simp
  then show ?thesis using r(1) by blast
qed

section \<open>Collecting history\<close>

text \<open>
  C32. The retention policy cuts no installed watch off: after a collection bounded by the
  watch cursors the watermark is at or below each of them, what was readable above it still
  reads the same, and the watermark never retreats.
\<close>

theorem ent_gc_spares_watches:
  assumes "ent_ok s"
  shows "\<exists>wm s'. consolidate_to ent_ops rels up_to s = (Inr wm, s') \<and> ent_ok s' \<and> en_watermark s' = wm \<and>
    en_current s' = en_current s \<and> en_watermark s \<le> wm \<and>
    (\<forall>r e t. wm \<le> e \<longrightarrow> ent_world s' r e t = ent_world s r e t) \<and>
    (\<forall>rel\<in>set rels. \<forall>key c. frontier_stands (ent_now s) rel key c \<longrightarrow> en_watermark s \<le> c \<longrightarrow> wm \<le> c)"
  using ent.consolidate_to_ok [unfolded ent_ops_sel, OF assms] .

theorem ent_gc_spares_watches_witness:
  "\<exists>s'. consolidate_to ent_ops [17] 1 demo_watched = (Inr 0, s')"
proof -
  have "frontier_stands (ent_now demo_watched) 17 9 0" using demo_watched(5) by (simp add: demo_watch_def)
  moreover obtain wm s' where r: "consolidate_to ent_ops [17] 1 demo_watched = (Inr wm, s')"
    "\<forall>rel\<in>set [17]. \<forall>key c. frontier_stands (ent_now demo_watched) rel key c \<longrightarrow> en_watermark demo_watched \<le> c \<longrightarrow> wm \<le> c"
    using ent_gc_spares_watches [OF demo_watched(1), of "[17]" 1] by blast
  ultimately have "wm \<le> 0" by (metis demo_watched(3) le_refl list.set_intros(1))
  then show ?thesis using r(1) by auto
qed

end
