(* ===== verification/Ent_Domain.thy ===== *)
theory Ent_Domain
  imports Ent_Log
begin

text \<open>
  Domains on Ents joined by the in-process hub: the laws of \<^verbatim>\<open>Domain_Laws\<close> at the
  model's own store and transport, and what two domains promise together.
\<close>

definition inproc_domain ::
  "inproc_endpoint \<Rightarrow> (rel_id \<rightharpoonup> domain_id) \<Rightarrow> rel_id \<Rightarrow> rel_id \<Rightarrow> rel_id \<Rightarrow> inproc_net domain" where
  "inproc_domain ep routes outbox outseq seen =
     \<lparr>dm_id = ip_domain ep, dm_transport = inproc_transport ep, dm_routes = routes,
      dm_outbox = outbox, dm_outseq = outseq, dm_seen = seen\<rparr>"

lemma inproc_domain_sel [simp]:
  "dm_id (inproc_domain ep routes outbox outseq seen) = ip_domain ep"
  "dm_transport (inproc_domain ep routes outbox outseq seen) = inproc_transport ep"
  "dm_outbox (inproc_domain ep routes outbox outseq seen) = outbox"
  "dm_outseq (inproc_domain ep routes outbox outseq seen) = outseq"
  "dm_seen (inproc_domain ep routes outbox outseq seen) = seen"
  by (simp_all add: inproc_domain_def)

lemma ent_inproc_host:
  assumes "ep \<in> E"
  shows "domain_host ent_ops ent_ok ent_world (inproc_domain ep routes outbox outseq seen) (endpoints_live E) net_queue"
  using ent.trace_store_axioms inproc_is_transport [OF assms] by (simp add: domain_host_def)

interpretation ent_domain: domain_host ent_ops ent_ok ent_world "inproc_domain ep routes outbox outseq seen"
    "endpoints_live (insert ep E)" net_queue for ep routes outbox outseq seen E
  by (rule ent_inproc_host) simp

end
