(* ===== verification/Domain_Properties.thy ===== *)
theory Domain_Properties
  imports View_Properties Ent_Domain
begin

text \<open>
  What domains promise when each runs on an Ent and the in-process hub joins them: a commit
  with remote messages is one edition, a flush ships in order, a receiver applies each message
  once, and the two together move every message across exactly once.
\<close>

section \<open>Committing\<close>

text \<open>
  C33. A patch with remote messages commits as one edition or not at all: its local part and,
  at the back of the outbox under fresh consecutive numbers, its remote messages, with the
  outbox a queue as before. A refusal by the boundary writes nothing, and a rejection has a
  cause: a state the peers brought about in which a precondition fails or the counter moved.
\<close>

theorem ent_domain_commit_atomic:
  fixes p :: patch and dm :: "'n domain"
  defines "rs \<equiv> remote_emits dm (p_emits p)"
  assumes "outbox_peers ent_ops ent_ok ent_world dm (length rs) peers" "rs \<noteq> []"
    and "spares_outbox dm (domain_updates dm p)" "ent_ok s" "outbox_holds (ent_now s) dm ps n"
    and "n + length rs < 2 ^ 63" "domain_commit ent_ops sch dm p a peers s = (r, s')"
  shows "(\<not> lawful (sch s) no_behavior_check p a \<and> (\<exists>e. r = Inl e) \<and> s' = s) \<or>
    (r = Inr Rejected \<and> drifts peers s s' \<and> contended ent_ops ent_world dm (patch_preconditions p) peers n s) \<or>
    (\<exists>s1 ps' n'. drifts peers s s1 \<and> r = Inr (Committed (Suc (en_current s1))) \<and>
       holds_all (ent_world s1) (en_current s1) (patch_preconditions p) \<and>
       stepped ent_ops ent_ok ent_world s1 (domain_updates dm p @ outbox_updates dm n' rs) s' \<and>
       outbox_holds (ent_now s1) dm ps' n' \<and> outbox_holds (ent_now s') dm (ps' @ numbered n' rs) (n' + length rs))"
proof (cases rule: ent.domain_commit_cases [where sch = sch and a = a, OF assms(2-7)[unfolded rs_def]])
  case (1 e)
  then show ?thesis using assms(8) by simp
next
  case (2 t)
  then show ?thesis using assms(8) by simp
next
  case (3 s1 t ps' n')
  then show ?thesis using assms(8) unfolding rs_def by (auto intro!: exI [of _ s1] exI [of _ ps'] exI [of _ n'])
qed

definition demo_hub :: inproc_net where
  "demo_hub = snd (inproc_endpoint 2 (snd (inproc_endpoint 1 inproc_new)))"

definition demo_near :: inproc_endpoint where
  "demo_near = \<lparr>ip_domain = 1, ip_rx = 0\<rparr>"

definition demo_far :: inproc_endpoint where
  "demo_far = \<lparr>ip_domain = 2, ip_rx = 1\<rparr>"

definition near :: "inproc_net domain" where
  "near = inproc_domain demo_near [10 \<mapsto> 2] 50 51 52"

definition far :: "inproc_net domain" where
  "far = inproc_domain demo_far Map.empty 50 51 52"

definition demo_outgoing :: patch where
  "demo_outgoing = patch_emit \<lparr>m_inbox = 10, m_body = [VInt 5]\<rparr> (patch_assert (fact_new 20 [VInt 5]) patch_new)"

definition demo_sender :: ent where
  "demo_sender = branch [(51, [VInt 0], 1)]"

lemma inert_peers: "outbox_peers ops I W dm room (\<lambda>k s. s)" "drifts (\<lambda>k s. s) s t \<longleftrightarrow> t = s"
proof -
  have "drifts (\<lambda>k s. s) s t \<Longrightarrow> t = s"
    unfolding drifts_def by (induction rule: rtranclp_induct) auto
  then show "drifts (\<lambda>k s. s) s t \<longleftrightarrow> t = s" by auto
qed (simp add: outbox_peers_def)

lemma demo_sender: "ent_ok demo_sender" "outbox_holds (ent_now demo_sender) near [] 0"
  by (auto simp: demo_sender_def branch_facts outbox_holds_def counter_def pending_rows_def near_def)

theorem ent_domain_commit_atomic_witness:
  "\<exists>s'. domain_commit ent_ops (\<lambda>s. no_schemas) near demo_outgoing \<lparr>a_domain = 1, a_owns = [scope_whole 20]\<rparr>
      (\<lambda>k s. s) demo_sender = (Inr (Committed 2), s') \<and>
    outbox_holds (ent_now s') near [(0, 2, 10, [VInt 5])] 1 \<and> ent_now s' 20 [VInt 5] = 1"
proof -
  let ?a = "\<lparr>a_domain = 1, a_owns = [scope_whole 20]\<rparr>"
  have rs: "remote_emits near (p_emits demo_outgoing) = [(2, 10, [VInt 5])]"
    "domain_updates near demo_outgoing = [(20, [VInt 5], 1)]" "patch_preconditions demo_outgoing = []"
    by code_simp+
  have law: "lawful no_schemas no_behavior_check demo_outgoing ?a"
    by (simp add: lawful_def demo_outgoing_def patch_builders permits_def scope_whole_def no_schemas_def
        no_behavior_check_def timer_facts_def)
  have calm: "\<not> contended ent_ops ent_world near [] (\<lambda>k s. s) 0 demo_sender"
    using demo_sender(2) by (auto simp: contended_def inert_peers holds_all_def)
  obtain r s' where run: "domain_commit ent_ops (\<lambda>s. no_schemas) near demo_outgoing ?a (\<lambda>k s. s) demo_sender = (r, s')"
    by fastforce
  have spare: "spares_outbox near (domain_updates near demo_outgoing)"
    by (simp only: rs) (simp add: spares_outbox_def near_def)
  have one: "en_current demo_sender = 1" "ent_now demo_sender 20 [VInt 5] = 0"
    by (simp_all add: demo_sender_def branch_facts)
  have "\<exists>ps' n'. r = Inr (Committed (Suc (Suc 0))) \<and>
    stepped ent_ops ent_ok ent_world demo_sender ([(20, [VInt 5], 1)] @ outbox_updates near n' [(2, 10, [VInt 5])]) s' \<and>
    outbox_holds (ent_now demo_sender) near ps' n' \<and>
    outbox_holds (ent_now s') near (ps' @ numbered n' [(2, 10, [VInt 5])]) (n' + 1)"
    using ent_domain_commit_atomic [where sch = "\<lambda>s. no_schemas" and p = demo_outgoing and dm = near,
        OF inert_peers(1) _ spare demo_sender _ run] law calm
    by (auto simp: rs inert_peers one)
  then obtain ps' n' where r: "r = Inr (Committed 2)"
    "stepped ent_ops ent_ok ent_world demo_sender ([(20, [VInt 5], 1)] @ outbox_updates near n' [(2, 10, [VInt 5])]) s'"
    "outbox_holds (ent_now demo_sender) near ps' n'"
    "outbox_holds (ent_now s') near (ps' @ numbered n' [(2, 10, [VInt 5])]) (n' + 1)"
    unfolding numeral_2_eq_2 [symmetric] by blast
  have "(word_of_nat n' :: i64) = word_of_nat 0"
    using r(3) demo_sender(2) counter_unique unfolding outbox_holds_def by blast
  then have n': "n' = 0" using r(3) word_of_nat_inject63 [of n' 0] by (simp add: outbox_holds_def)
  have "\<forall>x\<in>set ps'. fst x < n'" using r(3) unfolding outbox_holds_def by blast
  then have "ps' = []" using n' by (metis list.set_intros(1) neq_Nil_conv not_less_zero)
  moreover have "ent_now s' 20 [VInt 5] = 1"
    using ent_stepped [OF r(2), of 20 "[VInt 5]"] by (simp add: one n' outbox_updates_def near_def)
  ultimately show ?thesis using run r(1,4) n' by auto
qed

section \<open>Shipping\<close>

text \<open>
  C34. A flush ships the outbox from the front, in the order of the numbers, each message to
  the end of its target's queue, and takes off the outbox exactly what it shipped. It stops
  with an error only at a message whose domain has no route, which stays with all behind it.
\<close>

theorem ent_flush_ships_in_order:
  fixes ep routes outbox outseq seen defines "dm \<equiv> inproc_domain ep routes outbox outseq seen"
  assumes "ent_ok s" "endpoints_live (insert ep E) n" "outbox_holds (ent_now s) dm (ps @ rest) c"
    and "all_routed (net_queue n) ps" "\<And>x t i b qs. rest = (x, t, i, b) # qs \<Longrightarrow> net_queue n t = None"
  shows "\<exists>s' n' r. flush_outbox ent_ops dm (s, n) = (r, (s', n')) \<and>
    (if rest = [] then r = Inr (length ps) else \<exists>m. r = Inl (Err (EStore m))) \<and>
    ent_ok s' \<and> endpoints_live (insert ep E) n' \<and> outbox_holds (ent_now s') dm rest c \<and>
    net_queue n' = shipped dm ps (net_queue n)"
proof (cases rest)
  case Nil
  then show ?thesis
    using ent_domain.flush_outbox_ok [OF assms(2,3)] assms(4,5) unfolding dm_def by fastforce
next
  case (Cons p qs)
  obtain x t i b where p: "p = (x, t, i, b)" by (cases p)
  show ?thesis
    using ent_domain.flush_outbox_stops [OF assms(2,3), of routes outbox outseq seen ps x t i b qs c] assms(4-6)
    by (fastforce simp: Cons p dm_def)
qed

definition demo_queued :: ent where
  "demo_queued = branch [(50, outbox_row 0 2 10 [VInt 5], 1), (50, outbox_row 1 3 10 [VInt 6], 1), (51, [VInt 2], 1)]"

lemma demo_queued: "ent_ok demo_queued" "outbox_holds (ent_now demo_queued) near [(0, 2, 10, [VInt 5]), (1, 3, 10, [VInt 6])] 2"
  by (auto simp: demo_queued_def branch_facts outbox_holds_def counter_def pending_rows_def near_def outbox_row_def)

lemma demo_hub:
  "endpoints_live {demo_near, demo_far} demo_hub" "net_queue demo_hub 2 = Some []" "net_queue demo_hub 3 = None"
  by (auto simp: endpoints_live_def endpoint_live_def net_ok_def demo_hub_def demo_near_def demo_far_def inproc_new_def
      inproc_endpoint_def Let_def net_queue_def split: if_splits)

theorem ent_flush_ships_in_order_witness:
  "\<exists>s' n' m. flush_outbox ent_ops near (demo_queued, demo_hub) = (Inl (Err (EStore m)), (s', n')) \<and>
     outbox_holds (ent_now s') near [(1, 3, 10, [VInt 6])] 2 \<and>
     net_queue n' 2 = Some [parcel_of near (0, 2, 10, [VInt 5])]"
  using ent_flush_ships_in_order [of demo_queued demo_near "{demo_far}" demo_hub "[10 \<mapsto> 2]" 50 51 52
      "[(0, 2, 10, [VInt 5])]" "[(1, 3, 10, [VInt 6])]" 2, folded near_def] demo_queued demo_hub
  by (auto simp: all_routed_def shipped_def bound_for_def)

section \<open>Receiving\<close>

text \<open>
  C35. A receive drains its queue and applies each message once: those whose number was not
  seen before, in the order of arrival, each together with its number, so that no message
  is applied twice and every number that arrived is on record afterwards.
\<close>

theorem ent_receive_exactly_once:
  fixes ep routes outbox outseq seen defines "dm \<equiv> inproc_domain ep routes outbox outseq seen"
  assumes "ent_ok s" "endpoints_live (insert ep E) n" "net_queue n (ip_domain ep) = Some q" "list_all2 opens q ds"
    and "length q < fuel" "\<And>t. 0 \<le> ent_now s seen t" "spares_seen dm ds"
  shows "\<exists>s' n' new. receive fuel ent_ops dm 0 (s, n) = (Inr (length new), (s', n')) \<and>
    ent_ok s' \<and> net_queue n' = (net_queue n)(ip_domain ep \<mapsto> []) \<and>
    (\<forall>r t. ent_now s' r t = ent_now s r t + upd_weight (applied dm new) r t) \<and>
    new = fresh_deliveries (seen_numbers (ent_now s) dm) ds \<and> distinct (map number_of new) \<and>
    number_of ` set new = number_of ` set ds - seen_numbers (ent_now s) dm"
  using ent_domain.receive_ok [OF assms(2,3), of routes outbox outseq seen q ds fuel 0] assms(4-8)
    fresh_deliveries_once fresh_deliveries_all
  unfolding dm_def inproc_domain_sel by fastforce

definition demo_parcel :: parcel where
  "demo_parcel = parcel_of near (0, 2, 10, [VInt 5])"

lemma demo_parcel_opens: "opens demo_parcel (1, 0, \<lparr>m_inbox = 10, m_body = [VInt 5]\<rparr>)"
proof -
  have "tuple_encodable (m_body \<lparr>m_inbox = 10, m_body = [VInt 5]\<rparr>)" by (simp add: tuple_encodable_def MAX_DEPTH_def)
  from decode_envelope_encode [OF this, of 0] show ?thesis
    by (simp add: opens_def demo_parcel_def parcel_of_def near_def demo_near_def)
qed

text \<open>A hub that delivers one parcel twice.\<close>

definition twice_hub :: inproc_net where
  "twice_hub = demo_hub\<lparr>np_channels := [Some [], Some [demo_parcel, demo_parcel]]\<rparr>"

lemma twice_hub: "endpoints_live {demo_near, demo_far} twice_hub" "net_queue twice_hub 2 = Some [demo_parcel, demo_parcel]"
  by (auto simp: endpoints_live_def endpoint_live_def net_ok_def twice_hub_def demo_hub_def demo_near_def demo_far_def
      inproc_new_def inproc_endpoint_def Let_def net_queue_def split: if_splits)

theorem ent_receive_exactly_once_witness:
  "\<exists>s' n'. receive 3 ent_ops far 0 (branch [], twice_hub) = (Inr 1, (s', n')) \<and> ent_now s' 10 [VInt 5] = 1"
proof -
  let ?d = "(1, 0, \<lparr>m_inbox = 10, m_body = [VInt 5]\<rparr>)"
  have none: "seen_numbers (ent_now (branch [])) far = {}" by (simp add: seen_numbers_def branch_facts)
  have opened: "list_all2 opens [demo_parcel, demo_parcel] [?d, ?d]" by (simp add: demo_parcel_opens)
  have live: "endpoints_live (insert demo_far {demo_near}) twice_hub" using twice_hub by (simp add: insert_commute)
  have queued: "net_queue twice_hub (ip_domain demo_far) = Some [demo_parcel, demo_parcel]"
    using twice_hub by (simp add: demo_far_def)
  have spares: "spares_seen far [?d, ?d]" by (simp add: spares_seen_def far_def)
  have small: "length [demo_parcel, demo_parcel] < 3" "\<And>t. 0 \<le> ent_now (branch []) 52 t"
    by (simp_all add: branch_facts)
  obtain s' n' new where r: "receive 3 ent_ops far 0 (branch [], twice_hub) = (Inr (length new), (s', n'))"
    "\<forall>r t. ent_now s' r t = ent_now (branch []) r t + upd_weight (applied far new) r t"
    "new = fresh_deliveries (seen_numbers (ent_now (branch [])) far) [?d, ?d]"
    using ent_receive_exactly_once [where ep = demo_far and routes = Map.empty and outbox = 50 and outseq = 51 and seen = 52, folded far_def,
        OF branch_facts(1) live queued opened small spares] by blast
  have "new = [?d]" by (simp only: r(3) none) simp
  then show ?thesis using r(1) spec [OF spec [OF r(2), of 10], of "[VInt 5]"]
    by (auto simp: applied_def far_def branch_facts)
qed

section \<open>From one domain to another\<close>

definition delivery_of :: "'n domain \<Rightarrow> nat \<times> remote \<Rightarrow> delivery" where
  "delivery_of dm = (\<lambda>(x, target, inbox, body). (dm_id dm, word_of_nat x, \<lparr>m_inbox = inbox, m_body = body\<rparr>))"

lemma parcels_open:
  assumes "\<forall>(x, t, i, b)\<in>set ps. tuple_encodable b"
  shows "list_all2 opens (map (parcel_of dm) ps) (map (delivery_of dm) ps)"
proof -
  have "opens (parcel_of dm p) (delivery_of dm p)" if "p \<in> set ps" for p
    using assms that decode_envelope_encode by (cases p) (auto simp: opens_def parcel_of_def delivery_of_def)
  then show ?thesis by (simp add: list_all2_conv_all_nth)
qed

text \<open>
  C36. Across two domains: when one flushes and the other then receives, the sender's outbox is
  empty and the receiver holds each message of the outbox addressed to it once, beside
  what already waited for it; parcels that an earlier, interrupted flush had already sent are
  recognised by their numbers and applied once.
\<close>

theorem ent_end_to_end:
  fixes ea eb routes outbox outseq seen routes' outbox' outseq' seen'
  defines "A \<equiv> inproc_domain ea routes outbox outseq seen" and "B \<equiv> inproc_domain eb routes' outbox' outseq' seen'"
  assumes "ent_ok sa" "ent_ok sb" "endpoints_live {ea, eb} n"
    and "outbox_holds (ent_now sa) A ps c" "all_routed (net_queue n) ps" "\<forall>(x, t, i, b)\<in>set ps. tuple_encodable b"
    and "net_queue n (ip_domain eb) = Some q" "list_all2 opens q ds" "length q + length ps < fuel"
    and "\<And>t. 0 \<le> ent_now sb seen' t" "spares_seen B (ds @ map (delivery_of A) (bound_for (ip_domain eb) ps))"
  shows "\<exists>sa' sb' n1 n2 k. flush_outbox ent_ops A (sa, n) = (Inr (length ps), (sa', n1)) \<and>
    outbox_holds (ent_now sa') A [] c \<and> receive fuel ent_ops B 0 (sb, n1) = (Inr k, (sb', n2)) \<and>
    net_queue n2 (ip_domain eb) = Some [] \<and>
    (\<forall>r t. ent_now sb' r t = ent_now sb r t + upd_weight (applied B (fresh_deliveries (seen_numbers (ent_now sb) B)
      (ds @ map (delivery_of A) (bound_for (ip_domain eb) ps)))) r t)"
proof -
  let ?mine = "bound_for (ip_domain eb) ps"
  let ?q = "q @ map (parcel_of A) ?mine" and ?ds = "ds @ map (delivery_of A) ?mine"
  obtain sa' n1 where f: "flush_outbox ent_ops A (sa, n) = (Inr (length ps), (sa', n1))"
    "endpoints_live {ea, eb} n1" "outbox_holds (ent_now sa') A [] c" "net_queue n1 = shipped A ps (net_queue n)"
    using ent_domain.flush_outbox_ok [OF assms(3,5)] assms(6,7) unfolding A_def by blast
  have q: "net_queue n1 (ip_domain eb) = Some ?q" using assms(9) by (simp add: f(4) shipped_def)
  have o: "list_all2 opens ?q ?ds"
    by (intro list_all2_appendI assms(10) parcels_open) (use assms(8) in \<open>auto simp: bound_for_def\<close>)
  have l: "length ?q < fuel" 
    using assms(11) le_less_trans [OF add_left_mono [OF length_filter_le]] by (simp add: bound_for_def)
  have live: "endpoints_live (insert eb {ea}) n1" using f(2) by (simp add: insert_commute)
  note recv = ent_domain.receive_ok [OF assms(4) live, where q = ?q and ds = ?ds and fuel = fuel and m = 0 and
    routes = routes' and outbox = outbox' and outseq = outseq' and seen = seen', folded B_def]
  obtain sb' n2 where "receive fuel ent_ops B 0 (sb, n1) =
      (Inr (0 + length (fresh_deliveries (seen_numbers (ent_now sb) B) ?ds)), (sb', n2))"
    "net_queue n2 = (net_queue n1)(dm_id B \<mapsto> [])"
    "\<forall>r t. ent_now sb' r t = ent_now sb r t + upd_weight (applied B (fresh_deliveries (seen_numbers (ent_now sb) B) ?ds)) r t"
    using recv q o l assms(12,13) by (auto simp: B_def)
  then show ?thesis using f(1,3) by (auto simp: B_def)
qed

definition demo_resent :: ent where
  "demo_resent = branch [(50, outbox_row 0 2 10 [VInt 5], 1), (51, [VInt 1], 1)]"

lemma demo_resent: "ent_ok demo_resent" "outbox_holds (ent_now demo_resent) near [(0, 2, 10, [VInt 5])] 1"
  by (auto simp: demo_resent_def branch_facts outbox_holds_def counter_def pending_rows_def near_def outbox_row_def)

text \<open>The sender had already sent its one message when it stopped, before it could take it off the outbox.\<close>

definition resent_hub :: inproc_net where
  "resent_hub = demo_hub\<lparr>np_channels := [Some [], Some [demo_parcel]]\<rparr>"

lemma resent_hub: "endpoints_live {demo_near, demo_far} resent_hub" "net_queue resent_hub 2 = Some [demo_parcel]"
  by (auto simp: endpoints_live_def endpoint_live_def net_ok_def resent_hub_def demo_hub_def demo_near_def demo_far_def
      inproc_new_def inproc_endpoint_def Let_def net_queue_def split: if_splits)

theorem ent_end_to_end_witness:
  "\<exists>sa' sb' n1 n2 k. flush_outbox ent_ops near (demo_resent, resent_hub) = (Inr 1, (sa', n1)) \<and>
     receive 3 ent_ops far 0 (branch [], n1) = (Inr k, (sb', n2)) \<and> ent_now sb' 10 [VInt 5] = 1"
proof -
  let ?d = "(1, 0, \<lparr>m_inbox = 10, m_body = [VInt 5]\<rparr>)" and ?ps = "[(0, 2, 10, [VInt 5])]"
  have none: "seen_numbers (ent_now (branch [])) far = {}" by (simp add: seen_numbers_def branch_facts)
  have sent: "map (delivery_of near) (bound_for (ip_domain demo_far) ?ps) = [?d]"
    by (simp add: delivery_of_def bound_for_def demo_far_def near_def demo_near_def)
  have opened: "list_all2 opens [demo_parcel] [?d]" by (simp add: demo_parcel_opens)
  have queued: "net_queue resent_hub (ip_domain demo_far) = Some [demo_parcel]"
    using resent_hub by (simp add: demo_far_def)
  have routed: "all_routed (net_queue resent_hub) ?ps" using resent_hub by (simp add: all_routed_def)
  have flat: "\<forall>(x, t, i, b)\<in>set ?ps. tuple_encodable b" by (simp add: tuple_encodable_def MAX_DEPTH_def)
  have small: "length [demo_parcel] + length ?ps < 3" "\<And>t. 0 \<le> ent_now (branch []) 52 t"
    by (simp_all add: branch_facts)
  have spares: "spares_seen far ([?d] @ map (delivery_of near) (bound_for (ip_domain demo_far) ?ps))"
    unfolding sent by (simp add: spares_seen_def far_def)
  obtain sa' sb' n1 n2 k where r: "flush_outbox ent_ops near (demo_resent, resent_hub) = (Inr 1, (sa', n1))"
    "receive 3 ent_ops far 0 (branch [], n1) = (Inr k, (sb', n2))"
    "\<forall>r t. ent_now sb' r t = ent_now (branch []) r t + upd_weight (applied far (fresh_deliveries
      (seen_numbers (ent_now (branch [])) far) ([?d] @ map (delivery_of near) (bound_for (ip_domain demo_far) ?ps)))) r t"
    using ent_end_to_end [where ea = demo_near and eb = demo_far and routes = "[10 \<mapsto> 2]" and outbox = 50 and outseq = 51
        and seen = 52 and routes' = Map.empty and outbox' = 50 and outseq' = 51 and seen' = 52,
        folded near_def far_def, OF demo_resent(1) branch_facts(1) resent_hub(1) demo_resent(2) routed flat queued
        opened small spares] by auto
  have "ent_now sb' 10 [VInt 5] = 1"
    using spec [OF spec [OF r(3), of 10], of "[VInt 5]"] unfolding sent none
    by (simp add: applied_def far_def branch_facts)
  then show ?thesis using r(1,2) by auto
qed

end
