(* ===== verification/Spec2Isabelle.thy ===== *)
theory Spec2Isabelle
  imports Domain_Properties
begin

text \<open>
  The semantic core of the world store and its query engine.
\<close>

end
